theory Spec2Isabelle
  imports Main "HOL-Library.Word"
begin

section \<open>Data model (db.h)\<close>

text \<open>
  All integers of the engine are \<^verbatim>\<open>uint32_t\<close>: keys, page numbers, cell counts and cell
  indices. They are 32-bit words, so \<open>+\<close> and \<open>-\<close> wrap around as in C.
\<close>

type_synonym u32 = "32 word"

text \<open>\<^verbatim>\<open>typedef enum { NODE_INTERNAL, NODE_LEAF } NodeType;\<close> (so the tag of a zeroed page
  is \<open>NODE_INTERNAL\<close>).\<close>

datatype NodeType = NODE_INTERNAL | NODE_LEAF

text \<open>\<^verbatim>\<open>Row\<close>: the id and the two fixed-capacity character buffers.\<close>

record Row =
  row_id :: u32
  username :: "8 word list"
  email :: "8 word list"

text \<open>
  A page, seen through the typed accessors of the node codec. The fields follow the
  layout of the specification: the common header (type tag at offset 0, root flag at
  offset 1, parent page at offset 2), the two header words that leaf and internal nodes
  share (offset 6: leaf cell count = internal key count; offset 10: next leaf = rightmost
  child), and the cell area. The cell area is kept as two typed arrays, one per view:
  leaf cells (key, row) and internal cells (child page, separator key), each indexed by
  the cell number. The slot of a leaf value holds the \<open>Row\<close> whose serialisation the C code
  stores there.

  In the C layout the two views lie on the same bytes of the page, from offset 14, and a
  page has room for \<open>LEAF_NODE_MAX_CELLS\<close> leaf cells or for 510 internal cells. The record
  is the C page as long as the cells of a page are accessed through the view of the node
  type that the page holds and with cell numbers inside the page. A leaf write on an
  internal page, or a write at a cell number beyond the page, changes bytes in C that the
  record does not show. That is how table.c accesses the pages of the tables it builds: a
  cursor comes from a search, which ends on a leaf page at a cell number of at most the
  cell count; leaf cells are written on leaf pages, at the cursor and below the cell count
  in \<^verbatim>\<open>leaf_node_insert\<close> and below \<open>LEAF_NODE_LEFT_SPLIT_COUNT\<close> in the split; internal
  cells are written on internal pages at cell numbers up to the key count. A page changes
  its type only in \<^verbatim>\<open>create_new_root\<close>, which initialises the root page as an internal node
  after it has copied the page; the internal cells at or above the key count are written
  before they are read. The properties of insertions below are stated for such accesses:
  the cursor of an insertion is on a leaf page, and where insertions are taken in
  sequence the cursor is the one that the search returned.
\<close>

record Page =
  hdr_type :: NodeType
  hdr_is_root :: bool
  hdr_parent :: u32
  hdr_count :: u32
  hdr_link :: u32
  leaf_body :: "u32 \<Rightarrow> u32 \<times> Row"
  internal_body :: "u32 \<Rightarrow> u32 \<times> u32"

text \<open>\<^verbatim>\<open>Pager\<close>: the logical page count and the page buffers, addressed by page number. The
  file descriptor and the file length only matter to the file I/O, which is not modelled:
  \<open>pages\<close> is the content a page has when it is fetched.\<close>

record Pager =
  num_pages :: u32
  pages :: "u32 \<Rightarrow> Page"

record Table =
  pager :: Pager
  root_page_num :: u32

text \<open>\<^verbatim>\<open>Cursor\<close>. There is one table, passed explicitly, so the \<^verbatim>\<open>table\<close> pointer of the C
  struct is not a field.\<close>

record Cursor =
  page_num :: u32
  cell_num :: u32
  end_of_table :: bool

text \<open>
  The fatal exits of the engine. A C function that calls \<^verbatim>\<open>exit(EXIT_FAILURE)\<close> is
  modelled as returning \<open>Inl\<close> of the error together with the table as it is at the
  moment of the exit; a function that returns normally gives \<open>Inr\<close> of its result and the
  table it leaves. A function with a loop or a recursion that may not terminate returns
  an \<open>option\<close> of that: \<open>None\<close> when it never returns.
\<close>

datatype error = PageOutOfBounds | InternalNodeFull

type_synonym 'a outcome = "(error + 'a) \<times> Table"

subsection \<open>Constants\<close>

definition TABLE_MAX_PAGES :: nat where
  "TABLE_MAX_PAGES = 100"

text \<open>Modelled from the spec: the constants of the leaf layout, which db.h only declares.
  \<open>PAGE_SIZE = 4096\<close>, a leaf header of 14 bytes, a leaf cell of \<open>4 + 293\<close> bytes,
  \<open>LEAF_NODE_MAX_CELLS = floor((PAGE_SIZE - 14) / 297)\<close>,
  \<open>RIGHT = (MAX_CELLS + 1) / 2\<close> and \<open>LEFT = (MAX_CELLS + 1) - RIGHT\<close>.\<close>

definition PAGE_SIZE :: u32 where
  "PAGE_SIZE = 4096"

definition LEAF_NODE_HEADER_SIZE :: u32 where
  "LEAF_NODE_HEADER_SIZE = 14"

definition LEAF_NODE_CELL_SIZE :: u32 where
  "LEAF_NODE_CELL_SIZE = 4 + 293"

definition LEAF_NODE_MAX_CELLS :: u32 where
  "LEAF_NODE_MAX_CELLS = (PAGE_SIZE - LEAF_NODE_HEADER_SIZE) div LEAF_NODE_CELL_SIZE"

definition LEAF_NODE_RIGHT_SPLIT_COUNT :: u32 where
  "LEAF_NODE_RIGHT_SPLIT_COUNT = (LEAF_NODE_MAX_CELLS + 1) div 2"

definition LEAF_NODE_LEFT_SPLIT_COUNT :: u32 where
  "LEAF_NODE_LEFT_SPLIT_COUNT = (LEAF_NODE_MAX_CELLS + 1) - LEAF_NODE_RIGHT_SPLIT_COUNT"

text \<open>\<^verbatim>\<open>INTERNAL_NODE_MAX_CELLS\<close> is declared in db.h and its value is not part of the
  sources at hand (the specification calls it a small fixed constant). The functions that
  use it take it as their first argument \<open>imax\<close>.\<close>

subsection \<open>Node codec\<close>

text \<open>Modelled from the spec: the accessors of the node codec, declared in db.h and defined
  outside table.c. A C accessor returns a pointer into the page; here each one is a reader
  and, where table.c assigns through the pointer, a writer \<open>set_...\<close>.\<close>

definition node_parent :: "Page \<Rightarrow> u32" where
  "node_parent node = hdr_parent node"

definition set_node_parent :: "u32 \<Rightarrow> Page \<Rightarrow> Page" where
  "set_node_parent v node = node\<lparr>hdr_parent := v\<rparr>"

definition get_node_type :: "Page \<Rightarrow> NodeType" where
  "get_node_type node = hdr_type node"

definition set_node_type :: "NodeType \<Rightarrow> Page \<Rightarrow> Page" where
  "set_node_type ty node = node\<lparr>hdr_type := ty\<rparr>"

definition is_node_root :: "Page \<Rightarrow> bool" where
  "is_node_root node = hdr_is_root node"

definition set_node_root :: "bool \<Rightarrow> Page \<Rightarrow> Page" where
  "set_node_root b node = node\<lparr>hdr_is_root := b\<rparr>"

definition leaf_node_num_cells :: "Page \<Rightarrow> u32" where
  "leaf_node_num_cells node = hdr_count node"

definition set_leaf_node_num_cells :: "u32 \<Rightarrow> Page \<Rightarrow> Page" where
  "set_leaf_node_num_cells v node = node\<lparr>hdr_count := v\<rparr>"

definition leaf_node_next_leaf :: "Page \<Rightarrow> u32" where
  "leaf_node_next_leaf node = hdr_link node"

definition set_leaf_node_next_leaf :: "u32 \<Rightarrow> Page \<Rightarrow> Page" where
  "set_leaf_node_next_leaf v node = node\<lparr>hdr_link := v\<rparr>"

definition leaf_node_cell :: "Page \<Rightarrow> u32 \<Rightarrow> u32 \<times> Row" where
  "leaf_node_cell node i = leaf_body node i"

text \<open>A write of leaf cell \<open>i\<close> changes the leaf view only, at any \<open>i\<close>; see the remark on the
  two views at the \<open>Page\<close> record.\<close>

definition set_leaf_node_cell :: "u32 \<Rightarrow> u32 \<times> Row \<Rightarrow> Page \<Rightarrow> Page" where
  "set_leaf_node_cell i c node = node\<lparr>leaf_body := (leaf_body node)(i := c)\<rparr>"

definition leaf_node_key :: "Page \<Rightarrow> u32 \<Rightarrow> u32" where
  "leaf_node_key node i = fst (leaf_node_cell node i)"

definition set_leaf_node_key :: "u32 \<Rightarrow> u32 \<Rightarrow> Page \<Rightarrow> Page" where
  "set_leaf_node_key i k node =
     set_leaf_node_cell i (k, snd (leaf_node_cell node i)) node"

definition leaf_node_value :: "Page \<Rightarrow> u32 \<Rightarrow> Row" where
  "leaf_node_value node i = snd (leaf_node_cell node i)"

definition set_leaf_node_value :: "u32 \<Rightarrow> Row \<Rightarrow> Page \<Rightarrow> Page" where
  "set_leaf_node_value i r node =
     set_leaf_node_cell i (fst (leaf_node_cell node i), r) node"

definition internal_node_num_keys :: "Page \<Rightarrow> u32" where
  "internal_node_num_keys node = hdr_count node"

definition set_internal_node_num_keys :: "u32 \<Rightarrow> Page \<Rightarrow> Page" where
  "set_internal_node_num_keys v node = node\<lparr>hdr_count := v\<rparr>"

definition internal_node_right_child :: "Page \<Rightarrow> u32" where
  "internal_node_right_child node = hdr_link node"

definition set_internal_node_right_child :: "u32 \<Rightarrow> Page \<Rightarrow> Page" where
  "set_internal_node_right_child v node = node\<lparr>hdr_link := v\<rparr>"

definition internal_node_cell :: "Page \<Rightarrow> u32 \<Rightarrow> u32 \<times> u32" where
  "internal_node_cell node i = internal_body node i"

definition set_internal_node_cell :: "u32 \<Rightarrow> u32 \<times> u32 \<Rightarrow> Page \<Rightarrow> Page" where
  "set_internal_node_cell i c node =
     node\<lparr>internal_body := (internal_body node)(i := c)\<rparr>"

definition internal_node_key :: "Page \<Rightarrow> u32 \<Rightarrow> u32" where
  "internal_node_key node i = snd (internal_node_cell node i)"

definition set_internal_node_key :: "u32 \<Rightarrow> u32 \<Rightarrow> Page \<Rightarrow> Page" where
  "set_internal_node_key i k node =
     set_internal_node_cell i (fst (internal_node_cell node i), k) node"

text \<open>Modelled from the spec: \<^verbatim>\<open>internal_node_child\<close>. A child index below the key count
  selects the child reference of that cell and the index equal to the key count selects
  the rightmost child. The specification does not say what an index above the key count
  does; the model reads and writes the cell there as well.\<close>

definition internal_node_child :: "Page \<Rightarrow> u32 \<Rightarrow> u32" where
  "internal_node_child node i =
     (if i = internal_node_num_keys node then internal_node_right_child node
      else fst (internal_node_cell node i))"

definition set_internal_node_child :: "u32 \<Rightarrow> u32 \<Rightarrow> Page \<Rightarrow> Page" where
  "set_internal_node_child i v node =
     (if i = internal_node_num_keys node then set_internal_node_right_child v node
      else set_internal_node_cell i (v, snd (internal_node_cell node i)) node)"

text \<open>Modelled from the spec: \<^verbatim>\<open>initialize_leaf_node\<close> and \<^verbatim>\<open>initialize_internal_node\<close>
  set the type tag and zero the header fields of that node type (the root flag and the
  count; for a leaf also the next-leaf reference, whose 0 means "no next leaf"); they do
  not touch the cell storage.\<close>

definition initialize_leaf_node :: "Page \<Rightarrow> Page" where
  "initialize_leaf_node node =
     set_leaf_node_next_leaf 0
       (set_leaf_node_num_cells 0 (set_node_root False (set_node_type NODE_LEAF node)))"

definition initialize_internal_node :: "Page \<Rightarrow> Page" where
  "initialize_internal_node node =
     set_internal_node_num_keys 0 (set_node_root False (set_node_type NODE_INTERNAL node))"

subsection \<open>Page store\<close>

definition zero_row :: Row where
  "zero_row = \<lparr>row_id = 0, username = replicate 33 0, email = replicate 256 0\<rparr>"

definition zero_page :: Page where
  "zero_page = \<lparr>hdr_type = NODE_INTERNAL, hdr_is_root = False, hdr_parent = 0,
     hdr_count = 0, hdr_link = 0,
     leaf_body = (\<lambda>_. (0, zero_row)), internal_body = (\<lambda>_. (0, 0))\<rparr>"

text \<open>Modelled from the spec: \<^verbatim>\<open>get_page\<close> of the page store. It fails fatally when the page
  number does not fit the fixed capacity of \<open>TABLE_MAX_PAGES\<close> pages (the page count would
  exceed the maximum); for a page number beyond the current page count it hands out a
  newly zeroed buffer and raises the page count to \<open>n + 1\<close>; otherwise it hands out the
  page as it is. The pointer it returns is represented by the page number.\<close>

definition get_page :: "Pager \<Rightarrow> u32 \<Rightarrow> error + Pager" where
  "get_page pg n =
     (if unat n \<ge> TABLE_MAX_PAGES then Inl PageOutOfBounds
      else if n \<ge> num_pages pg
        then Inr (pg\<lparr>num_pages := n + 1, pages := (pages pg)(n := zero_page)\<rparr>)
      else Inr pg)"

text \<open>Modelled from the spec: \<^verbatim>\<open>get_unused_page_num\<close> returns the next unused page number,
  which is the current page count.\<close>

definition get_unused_page_num :: "Pager \<Rightarrow> u32" where
  "get_unused_page_num pg = num_pages pg"

text \<open>The plumbing between the table and its pager: fetching a page of the table's pager,
  reading a node through its page number, and assigning through a node pointer.\<close>

definition table_get_page :: "Table \<Rightarrow> u32 \<Rightarrow> error + Table" where
  "table_get_page table n =
     (case get_page (pager table) n of
        Inl e \<Rightarrow> Inl e
      | Inr pg \<Rightarrow> Inr (table\<lparr>pager := pg\<rparr>))"

definition node_at :: "Table \<Rightarrow> u32 \<Rightarrow> Page" where
  "node_at table n = pages (pager table) n"

definition update_node :: "u32 \<Rightarrow> (Page \<Rightarrow> Page) \<Rightarrow> Table \<Rightarrow> Table" where
  "update_node n f table =
     table\<lparr>pager := (pager table)\<lparr>pages := (pages (pager table))(n := f (node_at table n))\<rparr>\<rparr>"

section \<open>Search (table.c)\<close>

text \<open>\<^verbatim>\<open>internal_node_find_child\<close>: the binary search over the separator keys. The loop is
  a function of \<open>min_index\<close> and \<open>max_index\<close>; the index arithmetic is that of
  \<^verbatim>\<open>uint32_t\<close>.\<close>

partial_function (option) find_child_loop :: "Page \<Rightarrow> u32 \<Rightarrow> u32 \<Rightarrow> u32 \<Rightarrow> u32 option" where
  "find_child_loop node key min_index max_index =
     (if min_index \<noteq> max_index then
        (let index = (min_index + max_index) div 2;
             key_to_right = internal_node_key node index
         in if key_to_right \<ge> key
            then find_child_loop node key min_index index
            else find_child_loop node key (index + 1) max_index)
      else Some min_index)"

declare find_child_loop.simps [code]

definition internal_node_find_child :: "Page \<Rightarrow> u32 \<Rightarrow> u32 option" where
  "internal_node_find_child node key =
     (let num_keys = internal_node_num_keys node
      in find_child_loop node key 0 num_keys)"

text \<open>\<^verbatim>\<open>leaf_node_find\<close>. The cursor comes from \<^verbatim>\<open>malloc\<close>: its fields hold whatever the
  allocator returned until they are assigned. That content is the argument \<open>fresh\<close>.
  The loop returns the cell number the cursor gets.\<close>

partial_function (option) leaf_find_loop :: "Page \<Rightarrow> u32 \<Rightarrow> u32 \<Rightarrow> u32 \<Rightarrow> u32 option" where
  "leaf_find_loop node key min_index one_past_max_index =
     (if one_past_max_index \<noteq> min_index then
        (let index = (min_index + one_past_max_index) div 2;
             key_at_index = leaf_node_key node index
         in if key = key_at_index then Some index
            else if key < key_at_index
            then leaf_find_loop node key min_index index
            else leaf_find_loop node key (index + 1) one_past_max_index)
      else Some min_index)"

declare leaf_find_loop.simps [code]

definition leaf_node_find :: "Cursor \<Rightarrow> Table \<Rightarrow> u32 \<Rightarrow> u32 \<Rightarrow> Cursor outcome option" where
  "leaf_node_find fresh table page_num' key =
     (case table_get_page table page_num' of
        Inl e \<Rightarrow> Some (Inl e, table)
      | Inr t1 \<Rightarrow>
          (let node = node_at t1 page_num';
               num_cells = leaf_node_num_cells node;
               cursor = fresh\<lparr>page_num := page_num'\<rparr>
           in case leaf_find_loop node key 0 num_cells of
                None \<Rightarrow> None
              | Some i \<Rightarrow> Some (Inr (cursor\<lparr>cell_num := i\<rparr>), t1)))"

text \<open>\<^verbatim>\<open>internal_node_find\<close>: descends into the child that \<^verbatim>\<open>internal_node_find_child\<close>
  selects.\<close>

partial_function (option) internal_node_find ::
    "Cursor \<Rightarrow> Table \<Rightarrow> u32 \<Rightarrow> u32 \<Rightarrow> Cursor outcome option" where
  "internal_node_find fresh table page_num' key =
     (case table_get_page table page_num' of
        Inl e \<Rightarrow> Some (Inl e, table)
      | Inr t1 \<Rightarrow>
          (case internal_node_find_child (node_at t1 page_num') key of
             None \<Rightarrow> None
           | Some child_index \<Rightarrow>
               (let child_num = internal_node_child (node_at t1 page_num') child_index
                in case table_get_page t1 child_num of
                     Inl e \<Rightarrow> Some (Inl e, t1)
                   | Inr t2 \<Rightarrow>
                       (case get_node_type (node_at t2 child_num) of
                          NODE_LEAF \<Rightarrow> leaf_node_find fresh t2 child_num key
                        | NODE_INTERNAL \<Rightarrow> internal_node_find fresh t2 child_num key))))"

declare internal_node_find.simps [code]

definition table_find :: "Cursor \<Rightarrow> Table \<Rightarrow> u32 \<Rightarrow> Cursor outcome option" where
  "table_find fresh table key =
     (let root_page_num' = root_page_num table
      in case table_get_page table root_page_num' of
           Inl e \<Rightarrow> Some (Inl e, table)
         | Inr t1 \<Rightarrow>
             (if get_node_type (node_at t1 root_page_num') = NODE_LEAF
              then leaf_node_find fresh t1 root_page_num' key
              else internal_node_find fresh t1 root_page_num' key))"

section \<open>Cursor (table.c)\<close>

definition table_start :: "Cursor \<Rightarrow> Table \<Rightarrow> Cursor outcome option" where
  "table_start fresh table =
     (case table_find fresh table 0 of
        None \<Rightarrow> None
      | Some (Inl e, t1) \<Rightarrow> Some (Inl e, t1)
      | Some (Inr cursor, t1) \<Rightarrow>
          (case table_get_page t1 (page_num cursor) of
             Inl e \<Rightarrow> Some (Inl e, t1)
           | Inr t2 \<Rightarrow>
               (let node = node_at t2 (page_num cursor);
                    num_cells = leaf_node_num_cells node
                in Some (Inr (cursor\<lparr>end_of_table := (num_cells = 0)\<rparr>), t2))))"

definition cursor_value :: "Cursor \<Rightarrow> Table \<Rightarrow> Row outcome" where
  "cursor_value cursor table =
     (let page_num' = page_num cursor
      in case table_get_page table page_num' of
           Inl e \<Rightarrow> (Inl e, table)
         | Inr t1 \<Rightarrow> (Inr (leaf_node_value (node_at t1 page_num') (cell_num cursor)), t1))"

text \<open>\<^verbatim>\<open>cursor_advance\<close> updates the cursor in place; the model returns the updated cursor.
  When the page fetch exits, the cursor has not been written.\<close>

definition cursor_advance :: "Cursor \<Rightarrow> Table \<Rightarrow> Cursor outcome" where
  "cursor_advance cursor table =
     (let page_num' = page_num cursor
      in case table_get_page table page_num' of
           Inl e \<Rightarrow> (Inl e, table)
         | Inr t1 \<Rightarrow>
             (let node = node_at t1 page_num';
                  cursor1 = cursor\<lparr>cell_num := cell_num cursor + 1\<rparr>
              in if cell_num cursor1 \<ge> leaf_node_num_cells node then
                   (let next_page_num = leaf_node_next_leaf node
                    in if next_page_num = 0
                       then (Inr (cursor1\<lparr>end_of_table := True\<rparr>), t1)
                       else (Inr (cursor1\<lparr>page_num := next_page_num, cell_num := 0\<rparr>), t1))
                 else (Inr cursor1, t1)))"

section \<open>Insertion and split (table.c)\<close>

text \<open>Modelled from the spec: \<^verbatim>\<open>get_node_max_key\<close>, declared in db.h and defined outside
  table.c. The maximum key of a leaf is the key of its last cell; the maximum key of an
  internal node is the maximum key of its rightmost child, which is resolved through the
  page store. The node pointer is represented by its page number.\<close>

partial_function (option) get_node_max_key :: "Table \<Rightarrow> u32 \<Rightarrow> u32 outcome option" where
  "get_node_max_key table n =
     (let node = node_at table n
      in case get_node_type node of
           NODE_LEAF \<Rightarrow> Some (Inr (leaf_node_key node (leaf_node_num_cells node - 1)), table)
         | NODE_INTERNAL \<Rightarrow>
             (let right_child = internal_node_right_child node
              in case table_get_page table right_child of
                   Inl e \<Rightarrow> Some (Inl e, table)
                 | Inr t1 \<Rightarrow> get_node_max_key t1 right_child))"

declare get_node_max_key.simps [code]

text \<open>\<^verbatim>\<open>update_internal_node_key\<close>; the node pointer is the page number \<open>n\<close>.\<close>

definition update_internal_node_key :: "u32 \<Rightarrow> u32 \<Rightarrow> u32 \<Rightarrow> Table \<Rightarrow> Table option" where
  "update_internal_node_key n old_key new_key table =
     (case internal_node_find_child (node_at table n) old_key of
        None \<Rightarrow> None
      | Some old_child_index \<Rightarrow>
          Some (update_node n (set_internal_node_key old_child_index new_key) table))"

text \<open>The loop of \<^verbatim>\<open>internal_node_insert\<close> that makes room for the new cell:
  \<^verbatim>\<open>for (uint32_t i = original_num_keys; i > index; i--)\<close>, each step a \<^verbatim>\<open>memcpy\<close> of
  one cell.\<close>

function internal_shift_loop :: "u32 \<Rightarrow> u32 \<Rightarrow> Page \<Rightarrow> Page" where
  "internal_shift_loop i index parent =
     (if i > index
      then internal_shift_loop (i - 1) index
             (set_internal_node_cell i (internal_node_cell parent (i - 1)) parent)
      else parent)"
  by pat_completeness auto
termination
  by (relation "measure (\<lambda>(i, index, parent). unat i)")
     (auto simp: word_less_nat_alt unat_sub word_le_nat_alt unat_gt_0 intro: unat_minus_one)

declare internal_shift_loop.simps [simp del]

definition internal_node_insert :: "u32 \<Rightarrow> Table \<Rightarrow> u32 \<Rightarrow> u32 \<Rightarrow> unit outcome option" where
  "internal_node_insert imax table parent_page_num child_page_num =
     (case table_get_page table parent_page_num of
        Inl e \<Rightarrow> Some (Inl e, table)
      | Inr t1 \<Rightarrow>
     (case table_get_page t1 child_page_num of
        Inl e \<Rightarrow> Some (Inl e, t1)
      | Inr t2 \<Rightarrow>
     (case get_node_max_key t2 child_page_num of
        None \<Rightarrow> None
      | Some (Inl e, t3) \<Rightarrow> Some (Inl e, t3)
      | Some (Inr child_max_key, t3) \<Rightarrow>
     (case internal_node_find_child (node_at t3 parent_page_num) child_max_key of
        None \<Rightarrow> None
      | Some index \<Rightarrow>
     (let original_num_keys = internal_node_num_keys (node_at t3 parent_page_num);
          t4 = update_node parent_page_num
                 (set_internal_node_num_keys (original_num_keys + 1)) t3
      in if original_num_keys \<ge> imax then Some (Inl InternalNodeFull, t4)
         else
     (let right_child_page_num = internal_node_right_child (node_at t4 parent_page_num)
      in case table_get_page t4 right_child_page_num of
           Inl e \<Rightarrow> Some (Inl e, t4)
         | Inr t5 \<Rightarrow>
     (case get_node_max_key t5 right_child_page_num of
        None \<Rightarrow> None
      | Some (Inl e, t6) \<Rightarrow> Some (Inl e, t6)
      | Some (Inr right_max, t6) \<Rightarrow>
          if child_max_key > right_max then
            (let t7 = update_node parent_page_num
                        (set_internal_node_child original_num_keys right_child_page_num) t6
             in case get_node_max_key t7 right_child_page_num of
                  None \<Rightarrow> None
                | Some (Inl e, t8) \<Rightarrow> Some (Inl e, t8)
                | Some (Inr right_max', t8) \<Rightarrow>
                    (let t9 = update_node parent_page_num
                                (set_internal_node_key original_num_keys right_max') t8;
                         t10 = update_node parent_page_num
                                 (set_internal_node_right_child child_page_num) t9
                     in Some (Inr (), t10)))
          else
            (let t7 = update_node parent_page_num
                        (internal_shift_loop original_num_keys index) t6;
                 t8 = update_node parent_page_num
                        (set_internal_node_child index child_page_num) t7;
                 t9 = update_node parent_page_num
                        (set_internal_node_key index child_max_key) t8
             in Some (Inr (), t9)))))))))"

text \<open>\<^verbatim>\<open>create_new_root\<close>. The \<^verbatim>\<open>memcpy\<close> of \<open>PAGE_SIZE\<close> bytes copies the whole page.\<close>

definition create_new_root :: "Table \<Rightarrow> u32 \<Rightarrow> unit outcome option" where
  "create_new_root table right_child_page_num =
     (let root = root_page_num table
      in case table_get_page table root of
           Inl e \<Rightarrow> Some (Inl e, table)
         | Inr t1 \<Rightarrow>
     (case table_get_page t1 right_child_page_num of
        Inl e \<Rightarrow> Some (Inl e, t1)
      | Inr t2 \<Rightarrow>
     (let left_child_page_num = get_unused_page_num (pager t2)
      in case table_get_page t2 left_child_page_num of
           Inl e \<Rightarrow> Some (Inl e, t2)
         | Inr t3 \<Rightarrow>
     (let t4 = update_node left_child_page_num (\<lambda>_. node_at t3 root) t3;
          t5 = update_node left_child_page_num (set_node_root False) t4;
          t6 = update_node root initialize_internal_node t5;
          t7 = update_node root (set_node_root True) t6;
          t8 = update_node root (set_internal_node_num_keys 1) t7;
          t9 = update_node root (set_internal_node_child 0 left_child_page_num) t8
      in case get_node_max_key t9 left_child_page_num of
           None \<Rightarrow> None
         | Some (Inl e, t10) \<Rightarrow> Some (Inl e, t10)
         | Some (Inr left_child_max_key, t10) \<Rightarrow>
             (let t11 = update_node root (set_internal_node_key 0 left_child_max_key) t10;
                  t12 = update_node root
                          (set_internal_node_right_child right_child_page_num) t11;
                  t13 = update_node left_child_page_num
                          (set_node_parent (root_page_num t12)) t12;
                  t14 = update_node right_child_page_num
                          (set_node_parent (root_page_num t13)) t13
              in Some (Inr (), t14))))))"

text \<open>The loop of \<^verbatim>\<open>leaf_node_insert\<close> that makes room for the new cell:
  \<^verbatim>\<open>for (uint32_t i = num_cells; i > cursor->cell_num; i--)\<close>.\<close>

function leaf_shift_loop :: "u32 \<Rightarrow> u32 \<Rightarrow> Page \<Rightarrow> Page" where
  "leaf_shift_loop i c node =
     (if i > c
      then leaf_shift_loop (i - 1) c (set_leaf_node_cell i (leaf_node_cell node (i - 1)) node)
      else node)"
  by pat_completeness auto
termination
  by (relation "measure (\<lambda>(i, c, node). unat i)")
     (auto simp: word_less_nat_alt unat_sub word_le_nat_alt unat_gt_0 intro: unat_minus_one)

declare leaf_shift_loop.simps [simp del]

text \<open>The redistribution loop of \<^verbatim>\<open>leaf_node_split_and_insert\<close>:
  \<^verbatim>\<open>for (int32_t i = LEAF_NODE_MAX_CELLS; i >= 0; i--)\<close>. The counter is a signed integer;
  where C compares it with or passes it as a \<^verbatim>\<open>uint32_t\<close> it is converted
  (\<open>word_of_int\<close>). \<open>old\<close> and \<open>new\<close> are the page numbers of the two nodes.\<close>

function split_loop :: "int \<Rightarrow> Cursor \<Rightarrow> u32 \<Rightarrow> Row \<Rightarrow> u32 \<Rightarrow> u32 \<Rightarrow> Table \<Rightarrow> Table" where
  "split_loop i cursor key val old new table =
     (if i \<ge> 0 then
        (let destination_node =
               (if (word_of_int i :: u32) \<ge> LEAF_NODE_LEFT_SPLIT_COUNT then new else old);
             index_within_node = (word_of_int i :: u32) mod LEAF_NODE_LEFT_SPLIT_COUNT;
             table' =
               (if word_of_int i = cell_num cursor then
                  update_node destination_node (set_leaf_node_key index_within_node key)
                    (update_node destination_node
                       (set_leaf_node_value index_within_node val) table)
                else if word_of_int i > cell_num cursor then
                  update_node destination_node
                    (set_leaf_node_cell index_within_node
                       (leaf_node_cell (node_at table old) (word_of_int (i - 1)))) table
                else
                  update_node destination_node
                    (set_leaf_node_cell index_within_node
                       (leaf_node_cell (node_at table old) (word_of_int i))) table)
         in split_loop (i - 1) cursor key val old new table')
      else table)"
  by pat_completeness auto
termination
  by (relation "measure (\<lambda>(i, cursor, key, val, old, new, table). nat (i + 1))") auto

declare split_loop.simps [simp del]

text \<open>The first part of \<^verbatim>\<open>leaf_node_split_and_insert\<close>, up to the update of the two cell
  counts: it allocates the new leaf, links it and distributes the cells. It returns the
  old maximum key and the new page number, which the second part uses.\<close>

definition leaf_node_split :: "Cursor \<Rightarrow> u32 \<Rightarrow> Row \<Rightarrow> Table \<Rightarrow> (u32 \<times> u32) outcome option" where
  "leaf_node_split cursor key val table =
     (let old = page_num cursor
      in case table_get_page table old of
           Inl e \<Rightarrow> Some (Inl e, table)
         | Inr t1 \<Rightarrow>
     (case get_node_max_key t1 old of
        None \<Rightarrow> None
      | Some (Inl e, t2) \<Rightarrow> Some (Inl e, t2)
      | Some (Inr old_max, t2) \<Rightarrow>
     (let new_page_num = get_unused_page_num (pager t2)
      in case table_get_page t2 new_page_num of
           Inl e \<Rightarrow> Some (Inl e, t2)
         | Inr t3 \<Rightarrow>
     (let t4 = update_node new_page_num initialize_leaf_node t3;
          t5 = update_node new_page_num (set_node_parent (node_parent (node_at t4 old))) t4;
          t6 = update_node new_page_num
                 (set_leaf_node_next_leaf (leaf_node_next_leaf (node_at t5 old))) t5;
          t7 = update_node old (set_leaf_node_next_leaf new_page_num) t6;
          t8 = split_loop (sint LEAF_NODE_MAX_CELLS) cursor key val old new_page_num t7;
          t9 = update_node old (set_leaf_node_num_cells LEAF_NODE_LEFT_SPLIT_COUNT) t8;
          t10 = update_node new_page_num
                  (set_leaf_node_num_cells LEAF_NODE_RIGHT_SPLIT_COUNT) t9
      in Some (Inr (old_max, new_page_num), t10)))))"

definition leaf_node_split_and_insert ::
    "u32 \<Rightarrow> Cursor \<Rightarrow> u32 \<Rightarrow> Row \<Rightarrow> Table \<Rightarrow> unit outcome option" where
  "leaf_node_split_and_insert imax cursor key val table =
     (case leaf_node_split cursor key val table of
        None \<Rightarrow> None
      | Some (Inl e, t1) \<Rightarrow> Some (Inl e, t1)
      | Some (Inr (old_max, new_page_num), t1) \<Rightarrow>
          (let old = page_num cursor
           in if is_node_root (node_at t1 old) then create_new_root t1 new_page_num
              else
                (let parent_page_num = node_parent (node_at t1 old)
                 in case get_node_max_key t1 old of
                      None \<Rightarrow> None
                    | Some (Inl e, t2) \<Rightarrow> Some (Inl e, t2)
                    | Some (Inr new_max, t2) \<Rightarrow>
                        (case table_get_page t2 parent_page_num of
                           Inl e \<Rightarrow> Some (Inl e, t2)
                         | Inr t3 \<Rightarrow>
                             (case update_internal_node_key parent_page_num old_max new_max t3 of
                                None \<Rightarrow> None
                              | Some t4 \<Rightarrow>
                                  internal_node_insert imax t4 parent_page_num new_page_num)))))"

definition leaf_node_insert :: "u32 \<Rightarrow> Cursor \<Rightarrow> u32 \<Rightarrow> Row \<Rightarrow> Table \<Rightarrow> unit outcome option" where
  "leaf_node_insert imax cursor key val table =
     (let p = page_num cursor
      in case table_get_page table p of
           Inl e \<Rightarrow> Some (Inl e, table)
         | Inr t1 \<Rightarrow>
             (let num_cells = leaf_node_num_cells (node_at t1 p)
              in if num_cells \<ge> LEAF_NODE_MAX_CELLS
                 then leaf_node_split_and_insert imax cursor key val t1
                 else
                   (let t2 = (if cell_num cursor < num_cells
                              then update_node p (leaf_shift_loop num_cells (cell_num cursor)) t1
                              else t1);
                        t3 = update_node p
                               (\<lambda>node. set_leaf_node_num_cells (leaf_node_num_cells node + 1) node)
                               t2;
                        t4 = update_node p (set_leaf_node_key (cell_num cursor) key) t3;
                        t5 = update_node p (set_leaf_node_value (cell_num cursor) val) t4
                    in Some (Inr (), t5))))"

section \<open>Table lifecycle (table.c)\<close>

text \<open>\<^verbatim>\<open>db_open\<close>, applied to the pager that \<^verbatim>\<open>pager_open\<close> returns.\<close>

definition db_open :: "Pager \<Rightarrow> unit outcome" where
  "db_open pager0 =
     (let table = \<lparr>pager = pager0, root_page_num = 0\<rparr>
      in if num_pages pager0 = 0 then
           (case table_get_page table 0 of
              Inl e \<Rightarrow> (Inl e, table)
            | Inr t1 \<Rightarrow>
                (let t2 = update_node 0 initialize_leaf_node t1;
                     t3 = update_node 0 (set_node_root True) t2
                 in (Inr (), t3)))
         else (Inr (), table))"

section \<open>Example inputs\<close>

definition example_internal :: Page where
  "example_internal = zero_page\<lparr>hdr_count := 3, hdr_link := 4,
     internal_body := (\<lambda>i. if i = 0 then (1, 10) else if i = 1 then (2, 20) else (3, 30))\<rparr>"

definition example_leaf :: Page where
  "example_leaf = zero_page\<lparr>hdr_type := NODE_LEAF, hdr_is_root := True, hdr_count := 3,
     leaf_body := (\<lambda>i. if i = 0 then (10, zero_row) else if i = 1 then (20, zero_row)
                         else (30, zero_row))\<rparr>"

definition example_leaf_table :: Table where
  "example_leaf_table =
     \<lparr>pager = \<lparr>num_pages = 1, pages = (\<lambda>_. zero_page)(0 := example_leaf)\<rparr>,
      root_page_num = 0\<rparr>"

definition example_cursor :: Cursor where
  "example_cursor = \<lparr>page_num = 0, cell_num = 2, end_of_table = True\<rparr>"


section \<open>Specification-side notions\<close>

text \<open>The virtual cell \<open>i\<close> of a split: the new entry at the cursor's cell number, the old
  cell \<open>i - 1\<close> above it and the old cell \<open>i\<close> below it.\<close>

definition split_source :: "Cursor \<Rightarrow> u32 \<Rightarrow> Row \<Rightarrow> Page \<Rightarrow> u32 \<Rightarrow> u32 \<times> Row" where
  "split_source cursor key val old_node i =
     (if i = cell_num cursor then (key, val)
      else if i > cell_num cursor then leaf_node_cell old_node (i - 1)
      else leaf_node_cell old_node i)"

text \<open>The cell storage of the old and of the new node once the downward loop has done the
  virtual indices below \<open>n\<close>.\<close>

definition split_old_body :: "nat \<Rightarrow> (u32 \<Rightarrow> u32 \<times> Row) \<Rightarrow> Page \<Rightarrow> Page" where
  "split_old_body n V node =
     node\<lparr>leaf_body := (\<lambda>j. if unat j < 7 \<and> unat j < n then V j else leaf_body node j)\<rparr>"

definition split_new_body :: "nat \<Rightarrow> (u32 \<Rightarrow> u32 \<times> Row) \<Rightarrow> Page \<Rightarrow> Page" where
  "split_new_body n V node =
     node\<lparr>leaf_body := (\<lambda>j. if unat j < 7 \<and> unat j + 7 < n then V (j + 7)
                             else leaf_body node j)\<rparr>"

definition split_result :: "nat \<Rightarrow> Cursor \<Rightarrow> u32 \<Rightarrow> Row \<Rightarrow> u32 \<Rightarrow> u32 \<Rightarrow> Table \<Rightarrow> Table" where
  "split_result n cursor key val old new t =
     update_node new (split_new_body n (split_source cursor key val (node_at t old)))
       (update_node old (split_old_body n (split_source cursor key val (node_at t old))) t)"

text \<open>The cells of a leaf as a list, and the insertion of an entry at a position.\<close>

definition leaf_cells :: "Page \<Rightarrow> (u32 \<times> Row) list" where
  "leaf_cells node =
     map (\<lambda>i. leaf_node_cell node (of_nat i)) [0..<unat (leaf_node_num_cells node)]"

definition insert_at :: "nat \<Rightarrow> 'a \<Rightarrow> 'a list \<Rightarrow> 'a list" where
  "insert_at c x xs = take c xs @ x # drop c xs"

definition example_full_leaf :: Page where
  "example_full_leaf = zero_page\<lparr>hdr_type := NODE_LEAF, hdr_is_root := True, hdr_count := 13,
     leaf_body := (\<lambda>i. (10 * i, zero_row))\<rparr>"

definition example_full_table :: Table where
  "example_full_table =
     \<lparr>pager = \<lparr>num_pages = 1, pages = (\<lambda>_. zero_page)(0 := example_full_leaf)\<rparr>,
      root_page_num = 0\<rparr>"

definition example_insert_cursor :: Cursor where
  "example_insert_cursor = \<lparr>page_num = 0, cell_num = 3, end_of_table = False\<rparr>"

text \<open>What fetching pages does to a table: the page count may grow, and a page either is
  what it was or is a page beyond the old page count that was handed out zeroed.\<close>

definition extends :: "Table \<Rightarrow> Table \<Rightarrow> bool" where
  "extends s s' \<longleftrightarrow>
     root_page_num s' = root_page_num s
     \<and> num_pages (pager s) \<le> num_pages (pager s')
     \<and> (\<forall>k. node_at s' k = node_at s k
              \<or> (num_pages (pager s) \<le> k \<and> node_at s' k = zero_page))"

definition example_two_leaves :: Table where
  "example_two_leaves =
     \<lparr>pager = \<lparr>num_pages = 2,
               pages = (\<lambda>_. zero_page)(0 := example_leaf, 1 := initialize_leaf_node zero_page)\<rparr>,
      root_page_num = 0\<rparr>"

text \<open>The parent page after \<^verbatim>\<open>internal_node_insert\<close>: with the old rightmost child appended
  as a cell and the new child as rightmost child, or with the new cell inserted at
  \<open>index\<close> and the cells from \<open>index\<close> on moved up by one.\<close>

definition appended_parent :: "u32 \<Rightarrow> u32 \<Rightarrow> u32 \<Rightarrow> Page \<Rightarrow> Page" where
  "appended_parent child right_child right_max parent =
     parent\<lparr>hdr_count := hdr_count parent + 1, hdr_link := child,
            internal_body := (internal_body parent)(hdr_count parent := (right_child, right_max))\<rparr>"

definition inserted_parent :: "u32 \<Rightarrow> u32 \<Rightarrow> u32 \<Rightarrow> Page \<Rightarrow> Page" where
  "inserted_parent index child child_max parent =
     parent\<lparr>hdr_count := hdr_count parent + 1,
            internal_body := (\<lambda>j. if j = index then (child, child_max)
                                  else if index < j \<and> j \<le> hdr_count parent
                                  then internal_body parent (j - 1)
                                  else internal_body parent j)\<rparr>"

text \<open>The cells (child page, separator key) of an internal node as a list.\<close>

definition internal_cells :: "Page \<Rightarrow> (u32 \<times> u32) list" where
  "internal_cells node =
     map (\<lambda>i. internal_node_cell node (of_nat i)) [0..<unat (internal_node_num_keys node)]"

definition example_leaf1 :: "u32 \<Rightarrow> Page" where
  "example_leaf1 k = zero_page\<lparr>hdr_type := NODE_LEAF, hdr_count := 1,
     leaf_body := (\<lambda>_. (k, zero_row))\<rparr>"

definition example_parent :: Page where
  "example_parent = zero_page\<lparr>hdr_type := NODE_INTERNAL, hdr_is_root := True, hdr_count := 3,
     hdr_link := 4,
     internal_body := (\<lambda>i. if i = 0 then (1, 10) else if i = 1 then (2, 20) else (3, 30))\<rparr>"

definition example_parent_table :: Table where
  "example_parent_table =
     \<lparr>pager = \<lparr>num_pages = 6,
               pages = (\<lambda>_. zero_page)(0 := example_parent, 1 := example_leaf1 10,
                         2 := example_leaf1 20, 3 := example_leaf1 30, 4 := example_leaf1 40,
                         5 := example_leaf1 25)\<rparr>,
      root_page_num = 0\<rparr>"

text \<open>The root invariant: the table's root page number is 0, page 0 exists, and the root
  flag is set on page 0 and on no other page. \<open>root_inv_internal T\<close> adds, when \<open>T\<close> holds,
  that the root is an internal node.\<close>

definition root_inv :: "Table \<Rightarrow> bool" where
  "root_inv t \<longleftrightarrow>
     root_page_num t = 0 \<and> 0 < num_pages (pager t)
     \<and> (\<forall>k. is_node_root (node_at t k) \<longleftrightarrow> k = 0)"

definition root_inv_internal :: "bool \<Rightarrow> Table \<Rightarrow> bool" where
  "root_inv_internal T t \<longleftrightarrow>
     root_inv t \<and> (T \<longrightarrow> get_node_type (node_at t 0) = NODE_INTERNAL)"

text \<open>A page update that leaves the root flag and the type tag alone.\<close>

definition header_safe :: "(Page \<Rightarrow> Page) \<Rightarrow> bool" where
  "header_safe f \<longleftrightarrow>
     (\<forall>x. hdr_is_root (f x) = hdr_is_root x \<and> hdr_type (f x) = hdr_type x)"

text \<open>Modelled from the spec: the pager that \<^verbatim>\<open>pager_open\<close> returns for a new (zero-length)
  file has no pages; whichever page is fetched first is handed out zeroed.\<close>

definition new_pager :: Pager where
  "new_pager = \<lparr>num_pages = 0, pages = (\<lambda>_. zero_page)\<rparr>"

text \<open>The table that \<^verbatim>\<open>db_open\<close> makes of a new file.\<close>

definition opened_table :: Table where
  "opened_table =
     \<lparr>pager = \<lparr>num_pages = 1,
               pages = (\<lambda>_. zero_page)(0 := set_node_root True (initialize_leaf_node zero_page))\<rparr>,
      root_page_num = 0\<rparr>"

section \<open>Insertion and scan as the statement layer drives them\<close>

text \<open>Modelled from the spec: the insertion of one row by the statement layer, which is not
  part of table.c. It calls \<^verbatim>\<open>table_find\<close> for the key and then \<^verbatim>\<open>leaf_node_insert\<close> at
  the cursor that the search returned; \<open>fresh\<close> is the uninitialised cursor that the search
  allocates. Rejecting a key that is already present is left to the caller.\<close>

definition table_insert :: "u32 \<Rightarrow> Cursor \<Rightarrow> u32 \<Rightarrow> Row \<Rightarrow> Table \<Rightarrow> unit outcome option" where
  "table_insert imax fresh key val table =
     (case table_find fresh table key of
        None \<Rightarrow> None
      | Some (Inl e, t1) \<Rightarrow> Some (Inl e, t1)
      | Some (Inr cursor, t1) \<Rightarrow> leaf_node_insert imax cursor key val t1)"

text \<open>Modelled from the spec: a sequence of insertions, each with its own key, row and
  newly allocated cursor. A fatal exit ends the sequence.\<close>

fun insert_all :: "u32 \<Rightarrow> (Cursor \<times> u32 \<times> Row) list \<Rightarrow> Table \<Rightarrow> unit outcome option" where
  "insert_all imax [] table = Some (Inr (), table)"
| "insert_all imax ((fresh, key, val) # rest) table =
     (case table_insert imax fresh key val table of
        None \<Rightarrow> None
      | Some (Inl e, t1) \<Rightarrow> Some (Inl e, t1)
      | Some (Inr u, t1) \<Rightarrow> insert_all imax rest t1)"

text \<open>Modelled from the spec: the scan of the statement layer. Starting from the cursor of
  \<^verbatim>\<open>table_start\<close>, while \<^verbatim>\<open>end_of_table\<close> is not set it reads the row at the cursor with
  \<^verbatim>\<open>cursor_value\<close> (and the key of the same cell) and calls \<^verbatim>\<open>cursor_advance\<close>. The result is
  the list of the cells visited, in the order of the visit; a scan that never reaches the
  end of the table has no result.\<close>

partial_function (option) scan_loop ::
    "Cursor \<Rightarrow> (u32 \<times> Row) list \<Rightarrow> Table \<Rightarrow> (u32 \<times> Row) list outcome option" where
  "scan_loop cursor visited table =
     (if end_of_table cursor then Some (Inr visited, table)
      else
        (case cursor_value cursor table of
           (Inl e, t1) \<Rightarrow> Some (Inl e, t1)
         | (Inr row, t1) \<Rightarrow>
             (let key = leaf_node_key (node_at t1 (page_num cursor)) (cell_num cursor)
              in case cursor_advance cursor t1 of
                   (Inl e, t2) \<Rightarrow> Some (Inl e, t2)
                 | (Inr cursor', t2) \<Rightarrow> scan_loop cursor' (visited @ [(key, row)]) t2)))"

declare scan_loop.simps [code]

definition table_scan :: "Cursor \<Rightarrow> Table \<Rightarrow> (u32 \<times> Row) list outcome option" where
  "table_scan fresh table =
     (case table_start fresh table of
        None \<Rightarrow> None
      | Some (Inl e, t1) \<Rightarrow> Some (Inl e, t1)
      | Some (Inr cursor, t1) \<Rightarrow> scan_loop cursor [] t1)"

text \<open>One operation on an open table: a find, the start of a scan, a cursor advance, a
  cursor read, an insertion by the statement layer (a find, then \<^verbatim>\<open>leaf_node_insert\<close>
  through the cursor that the find returned), or closing and opening again (which keeps
  the pages). The operations are taken with arbitrary arguments and with any outcome; the
  flag of a step tells whether the operation returned normally. A fatal exit ends the
  process, so the reachable states are those that a sequence of operations, each of which
  returned normally, reaches from a newly created database.\<close>

inductive step :: "u32 \<Rightarrow> Table \<Rightarrow> bool \<Rightarrow> Table \<Rightarrow> bool" for imax :: u32 where
  find: "table_find fresh t key = Some (res, t') \<Longrightarrow> step imax t (\<not> isl res) t'"
| start: "table_start fresh t = Some (res, t') \<Longrightarrow> step imax t (\<not> isl res) t'"
| advance: "cursor_advance cursor t = (res, t') \<Longrightarrow> step imax t (\<not> isl res) t'"
| cvalue: "cursor_value cursor t = (res', t') \<Longrightarrow> step imax t (\<not> isl res') t'"
| insert: "table_insert imax fresh key val t = Some (res'', t') \<Longrightarrow> step imax t (\<not> isl res'') t'"
| reopen: "db_open (pager t) = (res'', t') \<Longrightarrow> step imax t (\<not> isl res'') t'"

inductive reachable :: "u32 \<Rightarrow> Table \<Rightarrow> bool" for imax :: u32 where
  open_new: "db_open new_pager = (Inr (), t) \<Longrightarrow> reachable imax t"
| after_step: "reachable imax t \<Longrightarrow> step imax t True t' \<Longrightarrow> reachable imax t'"

section \<open>The shape of the tree between insertions\<close>

text \<open>A leaf with the cell \<open>x\<close> inserted at index \<open>c\<close>: the count is one more and the cells
  from \<open>c\<close> on have moved up by one.\<close>

definition inserted_leaf :: "u32 \<Rightarrow> u32 \<times> Row \<Rightarrow> Page \<Rightarrow> Page" where
  "inserted_leaf c x node =
     node\<lparr>hdr_count := hdr_count node + 1,
          leaf_body := (\<lambda>j. if j = c then x
                             else if c < j \<and> j \<le> hdr_count node then leaf_body node (j - 1)
                             else leaf_body node j)\<rparr>"

text \<open>The keys of a leaf, the separator keys of an internal node and its child page
  numbers (the children of the cells, then the rightmost child), as lists.\<close>

definition leaf_keys :: "Page \<Rightarrow> u32 list" where
  "leaf_keys node = map fst (leaf_cells node)"

definition separators :: "Page \<Rightarrow> u32 list" where
  "separators node = map snd (internal_cells node)"

definition children :: "Page \<Rightarrow> u32 list" where
  "children node = map fst (internal_cells node) @ [internal_node_right_child node]"

text \<open>Internal nodes are never split, so a tree that the insertions build is either a
  single leaf on the root page, or an internal root whose children are all leaves. A child
  leaf \<open>c\<close> is an existing page other than the root page, a leaf whose parent is the root,
  with at least \<open>LEAF_NODE_LEFT_SPLIT_COUNT\<close> cells (the fewest a split leaves in a leaf; no
  cell is ever removed) and at most \<open>LEAF_NODE_MAX_CELLS\<close> cells.\<close>

definition leaf_ok :: "Table \<Rightarrow> u32 \<Rightarrow> bool" where
  "leaf_ok t c \<longleftrightarrow>
     c \<noteq> 0 \<and> c < num_pages (pager t)
     \<and> get_node_type (node_at t c) = NODE_LEAF
     \<and> node_parent (node_at t c) = 0
     \<and> LEAF_NODE_LEFT_SPLIT_COUNT \<le> leaf_node_num_cells (node_at t c)
     \<and> leaf_node_num_cells (node_at t c) \<le> LEAF_NODE_MAX_CELLS"

text \<open>\<open>leaf_root t cs\<close>: the root is a leaf with the cells \<open>cs\<close> and no next leaf, and it
  is the only page.\<close>

definition leaf_root :: "Table \<Rightarrow> (u32 \<times> Row) list \<Rightarrow> bool" where
  "leaf_root t cs \<longleftrightarrow>
     get_node_type (node_at t 0) = NODE_LEAF
     \<and> leaf_node_next_leaf (node_at t 0) = 0
     \<and> leaf_node_num_cells (node_at t 0) \<le> LEAF_NODE_MAX_CELLS
     \<and> leaf_cells (node_at t 0) = cs
     \<and> num_pages (pager t) = 1"

text \<open>\<open>internal_root t cs\<close>: the root is an internal node with at least one key; its children
  are distinct child leaves; \<open>cs\<close> is the cells of the children from left to right; every
  separator key is the last key of the child of its cell; the next-leaf reference of every
  child is the child to its right and that of the rightmost child is 0; and the pages are
  the root and its children, one page each.\<close>

definition internal_root :: "Table \<Rightarrow> (u32 \<times> Row) list \<Rightarrow> bool" where
  "internal_root t cs \<longleftrightarrow>
     (let root = node_at t 0; chs = children root
      in get_node_type root = NODE_INTERNAL
         \<and> 0 < internal_node_num_keys root
         \<and> distinct chs
         \<and> (\<forall>c \<in> set chs. leaf_ok t c)
         \<and> cs = concat (map (\<lambda>c. leaf_cells (node_at t c)) chs)
         \<and> separators root = map (\<lambda>c. last (leaf_keys (node_at t c))) (butlast chs)
         \<and> map (\<lambda>c. leaf_node_next_leaf (node_at t c)) chs = tl chs @ [0]
         \<and> unat (internal_node_num_keys root) + 2 = unat (num_pages (pager t)))"

text \<open>\<open>tree_inv t cs\<close>: the table \<open>t\<close> holds the cells \<open>cs\<close>, in strictly increasing order of
  their keys, in a tree of one of the two shapes, within the page capacity.\<close>

definition tree_inv :: "Table \<Rightarrow> (u32 \<times> Row) list \<Rightarrow> bool" where
  "tree_inv t cs \<longleftrightarrow>
     root_inv t \<and> unat (num_pages (pager t)) \<le> TABLE_MAX_PAGES
     \<and> sorted_wrt (<) (map fst cs)
     \<and> (leaf_root t cs \<or> internal_root t cs)"

text \<open>The cell lists of the children of the root, from left to right.\<close>

definition leaves :: "Table \<Rightarrow> (u32 \<times> Row) list list" where
  "leaves t = map (\<lambda>c. leaf_cells (node_at t c)) (children (node_at t 0))"

text \<open>The table that an operation leaves, whatever its outcome (the table it started from
  when the operation does not return).\<close>

definition table_after :: "Table \<Rightarrow> 'a outcome option \<Rightarrow> Table" where
  "table_after t r = (case r of None \<Rightarrow> t | Some (res, t') \<Rightarrow> t')"

text \<open>Fourteen insertions, one more than a leaf holds, in no particular order; the table
  they leave; and the cells in the order of their keys.\<close>

definition example_rows :: "(Cursor \<times> u32 \<times> Row) list" where
  "example_rows =
     [(example_cursor, 8, zero_row), (example_cursor, 3, zero_row),
      (example_cursor, 12, zero_row), (example_cursor, 1, zero_row),
      (example_cursor, 14, zero_row), (example_cursor, 6, zero_row),
      (example_cursor, 10, zero_row), (example_cursor, 2, zero_row),
      (example_cursor, 9, zero_row), (example_cursor, 5, zero_row),
      (example_cursor, 13, zero_row), (example_cursor, 4, zero_row),
      (example_cursor, 11, zero_row), (example_cursor, 7, zero_row)]"

definition example_tree :: Table where
  "example_tree = table_after opened_table (insert_all 3 example_rows opened_table)"

definition example_scan :: "(u32 \<times> Row) list" where
  "example_scan =
     [(1, zero_row), (2, zero_row), (3, zero_row), (4, zero_row), (5, zero_row),
      (6, zero_row), (7, zero_row), (8, zero_row), (9, zero_row), (10, zero_row),
      (11, zero_row), (12, zero_row), (13, zero_row), (14, zero_row)]"

text \<open>Twenty-eight insertions: fourteen that fill the root leaf and split it into the
  leaves of the even keys up to 14 and from 16 on, seven odd keys below 14 that fill the
  left leaf, and seven odd keys above 14 that fill the right leaf; the table they leave; and
  the cells in the order of their keys.\<close>

definition example_rows_long :: "(Cursor \<times> u32 \<times> Row) list" where
  "example_rows_long =
     map (\<lambda>k. (example_cursor, k, zero_row))
       [16, 6, 24, 2, 28, 12, 20, 4, 18, 10, 26, 8, 22, 14,
        5, 13, 1, 9, 3, 11, 7,
        21, 15, 27, 17, 25, 19, 23]"

definition example_tree_long :: Table where
  "example_tree_long = table_after opened_table (insert_all 3 example_rows_long opened_table)"

definition example_scan_long :: "(u32 \<times> Row) list" where
  "example_scan_long =
     map (\<lambda>k. (k, zero_row))
       [1, 2, 3, 4, 5, 6, 7, 8, 9, 10, 11, 12, 13, 14,
        15, 16, 17, 18, 19, 20, 21, 22, 23, 24, 25, 26, 27, 28]"

text \<open>What the split of the full leaf on page \<open>old\<close> needs of the rest of the table to
  return. When the leaf is the root, it is on page 0 and two unused pages are left (the new
  leaf and the copy of the old root). Otherwise one unused page is left, and the parent of
  the leaf is an existing internal node with room for one more key (its key count is below
  \<open>imax\<close>, and small enough for the binary search of \<^verbatim>\<open>internal_node_find_child\<close> not to
  wrap) whose rightmost child is an existing leaf.\<close>

definition split_context :: "u32 \<Rightarrow> Table \<Rightarrow> u32 \<Rightarrow> bool" where
  "split_context imax t old \<longleftrightarrow>
     (if is_node_root (node_at t old)
      then old = 0 \<and> unat (num_pages (pager t)) + 2 \<le> TABLE_MAX_PAGES
      else
        (let p = node_parent (node_at t old); parent = node_at t p
         in unat (num_pages (pager t)) < TABLE_MAX_PAGES
            \<and> p < num_pages (pager t)
            \<and> get_node_type parent = NODE_INTERNAL
            \<and> internal_node_num_keys parent < imax
            \<and> unat (internal_node_num_keys parent) < 2 ^ 31
            \<and> internal_node_right_child parent < num_pages (pager t)
            \<and> get_node_type (node_at t (internal_node_right_child parent)) = NODE_LEAF))"

text \<open>An internal root with a full leaf as its only cell's child and a leaf of one cell as
  its rightmost child; and a cursor into the full leaf.\<close>

definition example_small_parent :: Page where
  "example_small_parent = zero_page\<lparr>hdr_type := NODE_INTERNAL, hdr_is_root := True,
     hdr_count := 1, hdr_link := 2, internal_body := (\<lambda>_. (1, 120))\<rparr>"

definition example_child_table :: Table where
  "example_child_table =
     \<lparr>pager = \<lparr>num_pages = 3,
               pages = (\<lambda>_. zero_page)(0 := example_small_parent,
                         1 := example_full_leaf\<lparr>hdr_is_root := False, hdr_link := 2\<rparr>,
                         2 := example_leaf1 200)\<rparr>,
      root_page_num = 0\<rparr>"

definition example_child_cursor :: Cursor where
  "example_child_cursor = \<lparr>page_num = 1, cell_num = 3, end_of_table = False\<rparr>"

text \<open>The table after one more insertion (the key 15) into the table of the fourteen
  insertions.\<close>

definition example_tree_next :: Table where
  "example_tree_next
     = table_after example_tree (table_insert 3 example_cursor 15 zero_row example_tree)"

section \<open>Properties\<close>

lemma mid_unat:
  fixes lo hi :: u32
  assumes "unat hi < 2 ^ 31" "lo \<le> hi"
  shows "unat ((lo + hi) div 2) = (unat lo + unat hi) div 2"
proof -
  have "unat lo \<le> unat hi" using assms(2) by (simp add: word_le_nat_alt)
  then have "unat lo + unat hi < 2 ^ 32" using assms(1) by simp
  then have "unat (lo + hi) = unat lo + unat hi"
    by (simp add: unat_add_lem [THEN iffD1])
  then show ?thesis by (simp add: unat_div)
qed

lemma find_child_loop_correct:
  fixes lo hi n :: u32
  assumes "unat n < 2 ^ 31" "lo \<le> hi" "hi \<le> n"
    and "\<forall>i j. i \<le> j \<and> j < n \<longrightarrow> internal_node_key node i \<le> internal_node_key node j"
    and "\<forall>i. i < lo \<longrightarrow> internal_node_key node i < k"
    and "\<forall>i. hi \<le> i \<and> i < n \<longrightarrow> k \<le> internal_node_key node i"
  shows "\<exists>r. find_child_loop node k lo hi = Some r \<and> r \<le> n
           \<and> (\<forall>i. i < r \<longrightarrow> internal_node_key node i < k)
           \<and> (\<forall>i. r \<le> i \<and> i < n \<longrightarrow> k \<le> internal_node_key node i)"
  using assms
proof (induction "unat hi - unat lo" arbitrary: lo hi rule: less_induct)
  case less
  show ?case
  proof (cases "lo = hi")
    case True
    then show ?thesis using less.prems
      by (subst find_child_loop.simps) auto
  next
    case False
    define mid where "mid = (lo + hi) div 2"
    have hi31: "unat hi < 2 ^ 31" using less.prems(1,3) by (simp add: word_le_nat_alt)
    have um: "unat mid = (unat lo + unat hi) div 2"
      unfolding mid_def using hi31 less.prems(2) by (rule mid_unat)
    have lt: "unat lo < unat hi" using False less.prems(2)
      by (simp add: word_le_nat_alt word_unat_eq_iff)
    have lom: "lo \<le> mid" and mhi: "mid < hi"
      using um lt by (simp_all add: word_le_nat_alt word_less_nat_alt)
    have um1: "unat (mid + 1) = unat mid + 1"
      using mhi hi31 by (simp add: unat_word_ariths word_less_nat_alt)
    show ?thesis
    proof (cases "k \<le> internal_node_key node mid")
      case True
      have "\<forall>i. mid \<le> i \<and> i < n \<longrightarrow> k \<le> internal_node_key node i"
        using True less.prems(4) by (meson order_trans)
      moreover have "unat mid - unat lo < unat hi - unat lo" using um lt by simp
      moreover have "mid \<le> n" using mhi less.prems(3) by simp
      ultimately have "\<exists>r. find_child_loop node k lo mid = Some r \<and> r \<le> n
           \<and> (\<forall>i. i < r \<longrightarrow> internal_node_key node i < k)
           \<and> (\<forall>i. r \<le> i \<and> i < n \<longrightarrow> k \<le> internal_node_key node i)"
        using less.hyps [of mid lo] less.prems(1,4,5) lom by blast
      then show ?thesis using False True
        by (subst find_child_loop.simps) (simp add: mid_def Let_def)
    next
      case F2: False
      have mn: "mid < n" using mhi less.prems(3) by simp
      have "\<forall>i. i < mid + 1 \<longrightarrow> internal_node_key node i < k"
      proof (intro allI impI)
        fix i assume "i < mid + 1"
        then have "i \<le> mid" using um1 by (simp add: word_le_nat_alt word_less_nat_alt)
        then have "internal_node_key node i \<le> internal_node_key node mid"
          using less.prems(4) mn by blast
        then show "internal_node_key node i < k" using F2 by simp
      qed
      moreover have "unat hi - unat (mid + 1) < unat hi - unat lo" using um um1 lt by simp
      moreover have "mid + 1 \<le> hi" using um1 mhi by (simp add: word_le_nat_alt word_less_nat_alt)
      ultimately have "\<exists>r. find_child_loop node k (mid + 1) hi = Some r \<and> r \<le> n
           \<and> (\<forall>i. i < r \<longrightarrow> internal_node_key node i < k)
           \<and> (\<forall>i. r \<le> i \<and> i < n \<longrightarrow> k \<le> internal_node_key node i)"
        using less.hyps [of hi "mid + 1"] less.prems(1,3,4,6) by blast
      then show ?thesis using False F2
        by (subst find_child_loop.simps) (simp add: mid_def Let_def)
    qed
  qed
qed

subsection \<open>C6: the child index found in an internal node\<close>

text \<open>
  Claim C6. For an internal node whose separator keys are sorted ascending,
  \<^verbatim>\<open>internal_node_find_child(node, k)\<close> returns the smallest index in \<open>[0, key_count]\<close> whose
  separator is \<open>\<ge> k\<close>: every separator below the result is \<open>< k\<close>, the separator at the
  result (when there is one) is \<open>\<ge> k\<close>, and the result is the key count when every separator
  is \<open>< k\<close>. The search returns, which is part of the statement. The bound on the key count
  keeps \<open>min_index + max_index\<close> within 32 bits; a node that fits a page has far fewer keys.
\<close>

theorem internal_node_find_child_first_ge:
  assumes "unat (internal_node_num_keys node) < 2 ^ 31"
    and "\<forall>i j. i \<le> j \<and> j < internal_node_num_keys node
           \<longrightarrow> internal_node_key node i \<le> internal_node_key node j"
  shows "\<exists>r. internal_node_find_child node k = Some r
           \<and> r \<le> internal_node_num_keys node
           \<and> (\<forall>i. i < r \<longrightarrow> internal_node_key node i < k)
           \<and> (r < internal_node_num_keys node \<longrightarrow> k \<le> internal_node_key node r)
           \<and> ((\<forall>i. i < internal_node_num_keys node \<longrightarrow> internal_node_key node i < k)
                \<longrightarrow> r = internal_node_num_keys node)"
proof -
  let ?n = "internal_node_num_keys node"
  have "\<exists>r. find_child_loop node k 0 ?n = Some r \<and> r \<le> ?n
           \<and> (\<forall>i. i < r \<longrightarrow> internal_node_key node i < k)
           \<and> (\<forall>i. r \<le> i \<and> i < ?n \<longrightarrow> k \<le> internal_node_key node i)"
    using assms by (intro find_child_loop_correct) auto
  then obtain r where r: "find_child_loop node k 0 ?n = Some r" "r \<le> ?n"
      "\<forall>i. i < r \<longrightarrow> internal_node_key node i < k"
      "\<forall>i. r \<le> i \<and> i < ?n \<longrightarrow> k \<le> internal_node_key node i"
    by blast
  have "(\<forall>i. i < ?n \<longrightarrow> internal_node_key node i < k) \<longrightarrow> r = ?n"
    using r(2,4) by (metis order_le_less leD order_refl)
  then show ?thesis using r
    by (simp add: internal_node_find_child_def)
qed

lemma word3_cases: "(j::u32) < 3 \<Longrightarrow> j = 0 \<or> j = 1 \<or> j = 2"
  by unat_arith

theorem internal_node_find_child_first_ge_witness:
  "unat (internal_node_num_keys example_internal) < 2 ^ 31
   \<and> internal_node_find_child example_internal 15 = Some 1
   \<and> internal_node_find_child example_internal 31 = Some 3"
proof -
  have n: "internal_node_num_keys example_internal = 3"
    by (simp add: example_internal_def internal_node_num_keys_def)
  have h1: "unat (internal_node_num_keys example_internal) < 2 ^ 31"
    by (simp add: n)
  have h2: "\<forall>i j. i \<le> j \<and> j < internal_node_num_keys example_internal
           \<longrightarrow> internal_node_key example_internal i \<le> internal_node_key example_internal j"
  proof (intro allI impI, elim conjE)
    fix i j :: u32
    assume a: "i \<le> j" "j < internal_node_num_keys example_internal"
    then have "j = 0 \<or> j = 1 \<or> j = 2" and "i = 0 \<or> i = 1 \<or> i = 2"
      unfolding n by unat_arith+
    with a(1) show "internal_node_key example_internal i \<le> internal_node_key example_internal j"
      by (auto simp: example_internal_def internal_node_key_def internal_node_cell_def word_le_nat_alt)
  qed
  have k: "internal_node_key example_internal 0 = 10" "internal_node_key example_internal 1 = 20"
          "internal_node_key example_internal 2 = 30"
    by (simp_all add: example_internal_def internal_node_key_def internal_node_cell_def)
  from internal_node_find_child_first_ge [OF h1 h2, of 15]
  obtain r where r: "internal_node_find_child example_internal 15 = Some r"
    "\<forall>i. i < r \<longrightarrow> internal_node_key example_internal i < 15" "r \<le> 3"
    "r < 3 \<longrightarrow> 15 \<le> internal_node_key example_internal r"
    unfolding n by blast
  have "r = 1"
  proof -
    have "\<not> 1 < r" using r(2) k(2) by fastforce
    moreover have "r \<noteq> 0" using r(4) k(1) by auto
    ultimately show ?thesis by unat_arith
  qed
  moreover
  from internal_node_find_child_first_ge [OF h1 h2, of 31]
  obtain r' where r': "internal_node_find_child example_internal 31 = Some r'"
    "(\<forall>i. i < 3 \<longrightarrow> internal_node_key example_internal i < 31) \<longrightarrow> r' = 3"
    unfolding n by blast
  have "\<forall>i. i < 3 \<longrightarrow> internal_node_key example_internal i < 31"
    using k by (auto dest!: word3_cases)
  ultimately show ?thesis using h1 r r' by simp
qed

subsection \<open>C1: the cell a leaf search returns\<close>

lemma leaf_find_loop_correct:
  fixes lo hi n :: u32
  assumes "unat n < 2 ^ 31" "lo \<le> hi" "hi \<le> n"
    and "\<forall>i j. i < j \<and> j < n \<longrightarrow> leaf_node_key node i < leaf_node_key node j"
    and "\<forall>i. i < lo \<longrightarrow> leaf_node_key node i < k"
    and "\<forall>i. hi \<le> i \<and> i < n \<longrightarrow> k < leaf_node_key node i"
  shows "\<exists>r. leaf_find_loop node k lo hi = Some r \<and> r \<le> n
           \<and> (\<forall>i. i < r \<longrightarrow> leaf_node_key node i < k)
           \<and> (\<forall>i. r < i \<and> i < n \<longrightarrow> k < leaf_node_key node i)
           \<and> (r < n \<longrightarrow> k \<le> leaf_node_key node r)"
  using assms
proof (induction "unat hi - unat lo" arbitrary: lo hi rule: less_induct)
  case less
  let ?P = "\<lambda>r. r \<le> n
           \<and> (\<forall>i. i < r \<longrightarrow> leaf_node_key node i < k)
           \<and> (\<forall>i. r < i \<and> i < n \<longrightarrow> k < leaf_node_key node i)
           \<and> (r < n \<longrightarrow> k \<le> leaf_node_key node r)"
  show ?case
  proof (cases "lo = hi")
    case True
    have "?P lo" using less.prems True by (auto simp: order_le_less)
    then show ?thesis using True
      by (subst leaf_find_loop.simps) simp
  next
    case False
    define mid where "mid = (lo + hi) div 2"
    have hi31: "unat hi < 2 ^ 31" using less.prems(1,3) by (simp add: word_le_nat_alt)
    have um: "unat mid = (unat lo + unat hi) div 2"
      unfolding mid_def using hi31 less.prems(2) by (rule mid_unat)
    have lt: "unat lo < unat hi" using False less.prems(2)
      by (simp add: word_le_nat_alt word_unat_eq_iff)
    have lom: "lo \<le> mid" and mhi: "mid < hi"
      using um lt by (simp_all add: word_le_nat_alt word_less_nat_alt)
    have mn: "mid < n" using mhi less.prems(3) by simp
    have um1: "unat (mid + 1) = unat mid + 1"
      using mhi hi31 by (simp add: unat_word_ariths word_less_nat_alt)
    have below: "leaf_node_key node i < leaf_node_key node mid" if "i < mid" for i
      using that less.prems(4) mn by blast
    have above: "leaf_node_key node mid < leaf_node_key node i" if "mid < i" "i < n" for i
      using that less.prems(4) by blast
    consider (eq) "k = leaf_node_key node mid" | (lt) "k < leaf_node_key node mid"
      | (gt) "leaf_node_key node mid < k"
      by (meson linorder_neqE)
    then show ?thesis
    proof cases
      case eq
      have "?P mid" using eq below above mn by auto
      then show ?thesis using False eq
        by (subst leaf_find_loop.simps) (simp add: mid_def Let_def)
    next
      case lt
      have "\<forall>i. mid \<le> i \<and> i < n \<longrightarrow> k < leaf_node_key node i"
        using lt above by (metis order_le_less order_less_trans)
      moreover have "unat mid - unat lo < unat hi - unat lo" using um \<open>unat lo < unat hi\<close> by simp
      moreover have "mid \<le> n" using mn by simp
      ultimately have "\<exists>r. leaf_find_loop node k lo mid = Some r \<and> ?P r"
        using less.hyps [of mid lo] less.prems(1,4,5) lom by blast
      then show ?thesis using False lt
        by (subst leaf_find_loop.simps) (auto simp add: mid_def Let_def)
    next
      case gt
      have "\<forall>i. i < mid + 1 \<longrightarrow> leaf_node_key node i < k"
      proof (intro allI impI)
        fix i assume "i < mid + 1"
        then have "i \<le> mid" using um1 by (simp add: word_le_nat_alt word_less_nat_alt)
        then show "leaf_node_key node i < k" using gt below
          by (metis order_le_less order_less_trans)
      qed
      moreover have "unat hi - unat (mid + 1) < unat hi - unat lo"
        using um um1 \<open>unat lo < unat hi\<close> by simp
      moreover have "mid + 1 \<le> hi" using um1 mhi by (simp add: word_le_nat_alt word_less_nat_alt)
      ultimately have "\<exists>r. leaf_find_loop node k (mid + 1) hi = Some r \<and> ?P r"
        using less.hyps [of hi "mid + 1"] less.prems(1,3,4,6) by blast
      then show ?thesis using False gt
        by (subst leaf_find_loop.simps) (auto simp add: mid_def Let_def)
    qed
  qed
qed

lemma table_get_page_existing:
  "n < num_pages (pager t) \<Longrightarrow> unat n < TABLE_MAX_PAGES \<Longrightarrow> table_get_page t n = Inr t"
  by (simp add: table_get_page_def get_page_def)

text \<open>
  Claim C1. On a leaf page whose keys are strictly ascending, \<^verbatim>\<open>leaf_node_find\<close> returns a
  cursor on that page; its cell number is the index of the cell whose key equals the
  search key when there is one, and otherwise the index of the first cell whose key is
  greater than the search key (the cell count when there is none): all cells before it
  have smaller keys and all cells from it on have greater keys. The table is left as it
  was.
\<close>

theorem leaf_node_find_insertion_point:
  assumes "p < num_pages (pager t)" and "unat p < TABLE_MAX_PAGES"
    and "unat (leaf_node_num_cells (node_at t p)) < 2 ^ 31"
    and "\<forall>i j. i < j \<and> j < leaf_node_num_cells (node_at t p)
           \<longrightarrow> leaf_node_key (node_at t p) i < leaf_node_key (node_at t p) j"
  shows "\<exists>c. leaf_node_find fresh t p k = Some (Inr c, t)
           \<and> page_num c = p
           \<and> cell_num c \<le> leaf_node_num_cells (node_at t p)
           \<and> (\<forall>i. i < leaf_node_num_cells (node_at t p) \<and> leaf_node_key (node_at t p) i = k
                  \<longrightarrow> cell_num c = i)
           \<and> (\<forall>i. i < cell_num c \<longrightarrow> leaf_node_key (node_at t p) i < k)
           \<and> ((\<forall>i. i < leaf_node_num_cells (node_at t p) \<longrightarrow> leaf_node_key (node_at t p) i \<noteq> k)
                \<longrightarrow> (\<forall>i. cell_num c \<le> i \<and> i < leaf_node_num_cells (node_at t p)
                        \<longrightarrow> k < leaf_node_key (node_at t p) i))"
proof -
  let ?node = "node_at t p"
  let ?n = "leaf_node_num_cells ?node"
  have "\<exists>r. leaf_find_loop ?node k 0 ?n = Some r \<and> r \<le> ?n
           \<and> (\<forall>i. i < r \<longrightarrow> leaf_node_key ?node i < k)
           \<and> (\<forall>i. r < i \<and> i < ?n \<longrightarrow> k < leaf_node_key ?node i)
           \<and> (r < ?n \<longrightarrow> k \<le> leaf_node_key ?node r)"
    using assms(3,4) by (intro leaf_find_loop_correct) auto
  then obtain r where r: "leaf_find_loop ?node k 0 ?n = Some r" "r \<le> ?n"
      "\<forall>i. i < r \<longrightarrow> leaf_node_key ?node i < k"
      "\<forall>i. r < i \<and> i < ?n \<longrightarrow> k < leaf_node_key ?node i"
      "r < ?n \<longrightarrow> k \<le> leaf_node_key ?node r"
    by blast
  have eq: "\<forall>i. i < ?n \<and> leaf_node_key ?node i = k \<longrightarrow> r = i"
    using r(3,4) by (metis linorder_neqE order_less_irrefl)
  have ne: "(\<forall>i. i < ?n \<longrightarrow> leaf_node_key ?node i \<noteq> k)
              \<longrightarrow> (\<forall>i. r \<le> i \<and> i < ?n \<longrightarrow> k < leaf_node_key ?node i)"
    using r(4,5) by (metis order_le_less)
  have "leaf_node_find fresh t p k = Some (Inr (fresh\<lparr>page_num := p, cell_num := r\<rparr>), t)"
    using assms(1,2) r(1) by (simp add: leaf_node_find_def table_get_page_existing Let_def)
  then show ?thesis using r(2,3) eq ne by simp
qed

lemma example_leaf_table_simps:
  "num_pages (pager example_leaf_table) = 1"
  "node_at example_leaf_table 0 = example_leaf"
  "root_page_num example_leaf_table = 0"
  by (simp_all add: example_leaf_table_def node_at_def)

lemma example_leaf_simps:
  "leaf_node_num_cells example_leaf = 3"
  "leaf_node_key example_leaf i = (if i = 0 then 10 else if i = 1 then 20 else 30)"
  "get_node_type example_leaf = NODE_LEAF"
  "leaf_node_next_leaf example_leaf = 0"
  by (simp_all add: example_leaf_def leaf_node_num_cells_def leaf_node_key_def
        leaf_node_cell_def get_node_type_def leaf_node_next_leaf_def zero_page_def)

lemma example_leaf_sorted:
  "\<forall>i j. i < j \<and> j < leaf_node_num_cells (node_at example_leaf_table 0)
     \<longrightarrow> leaf_node_key (node_at example_leaf_table 0) i
           < leaf_node_key (node_at example_leaf_table 0) j"
proof (intro allI impI, elim conjE)
  fix i j :: u32
  assume a: "i < j" "j < leaf_node_num_cells (node_at example_leaf_table 0)"
  then have "j = 0 \<or> j = 1 \<or> j = 2" and "i = 0 \<or> i = 1 \<or> i = 2"
    unfolding example_leaf_table_simps example_leaf_simps by unat_arith+
  with a(1) show "leaf_node_key (node_at example_leaf_table 0) i
           < leaf_node_key (node_at example_leaf_table 0) j"
    by (auto simp: example_leaf_table_simps example_leaf_simps word_less_nat_alt)
qed

theorem leaf_node_find_insertion_point_witness:
  "0 < num_pages (pager example_leaf_table) \<and> unat (0::u32) < TABLE_MAX_PAGES
   \<and> unat (leaf_node_num_cells (node_at example_leaf_table 0)) < 2 ^ 31
   \<and> (\<exists>c. leaf_node_find example_cursor example_leaf_table 0 20 = Some (Inr c, example_leaf_table)
          \<and> page_num c = 0 \<and> cell_num c = 1)"
proof -
  have h1: "0 < num_pages (pager example_leaf_table)" by (simp add: example_leaf_table_simps)
  have h2: "unat (0::u32) < TABLE_MAX_PAGES" by (simp add: TABLE_MAX_PAGES_def)
  have h3: "unat (leaf_node_num_cells (node_at example_leaf_table 0)) < 2 ^ 31"
    by (simp add: example_leaf_table_simps example_leaf_simps)
  from leaf_node_find_insertion_point [OF h1 h2 h3 example_leaf_sorted, of example_cursor 20]
  obtain c where c: "leaf_node_find example_cursor example_leaf_table 0 20
        = Some (Inr c, example_leaf_table)" "page_num c = 0"
      "\<forall>i. i < leaf_node_num_cells (node_at example_leaf_table 0)
            \<and> leaf_node_key (node_at example_leaf_table 0) i = 20 \<longrightarrow> cell_num c = i"
    by blast
  have "cell_num c = 1" using c(3) [rule_format, of 1]
    by (simp add: example_leaf_table_simps example_leaf_simps)
  then show ?thesis using h1 h2 h3 c(1,2) by blast
qed


subsection \<open>C10: the end-of-table flag is never reset\<close>

text \<open>
  Claim C10. A call of \<^verbatim>\<open>cursor_advance\<close> on a cursor whose \<open>end_of_table\<close> flag is set
  returns a cursor whose flag is set, and the call does return whenever the cursor's page
  number is within the capacity of the page store.
\<close>

theorem cursor_advance_keeps_end_of_table:
  assumes "end_of_table cursor"
  shows "(\<forall>c' t'. cursor_advance cursor t = (Inr c', t') \<longrightarrow> end_of_table c')
         \<and> (unat (page_num cursor) < TABLE_MAX_PAGES
              \<longrightarrow> (\<exists>c' t'. cursor_advance cursor t = (Inr c', t')))"
  using assms
  by (auto simp: cursor_advance_def Let_def table_get_page_def get_page_def
           split: sum.splits if_splits)

theorem cursor_advance_keeps_end_of_table_witness:
  "end_of_table example_cursor
   \<and> cursor_advance example_cursor example_leaf_table
       = (Inr \<lparr>page_num = 0, cell_num = 3, end_of_table = True\<rparr>, example_leaf_table)"
proof -
  have h: "end_of_table example_cursor" by (simp add: example_cursor_def)
  have e: "cursor_advance example_cursor example_leaf_table
       = (Inr \<lparr>page_num = 0, cell_num = 3, end_of_table = True\<rparr>, example_leaf_table)"
    by (simp add: cursor_advance_def example_cursor_def table_get_page_existing
          example_leaf_table_simps example_leaf_simps TABLE_MAX_PAGES_def Let_def)
  from cursor_advance_keeps_end_of_table [OF h, of example_leaf_table] e h
  show ?thesis by simp
qed


subsection \<open>C8: the end-of-table flag after a search\<close>

lemma leaf_node_find_end_of_table:
  "leaf_node_find fresh t p k = Some (Inr c, t') \<Longrightarrow> end_of_table c = end_of_table fresh"
  by (auto simp: leaf_node_find_def Let_def split: sum.splits option.splits)

lemma internal_node_find_end_of_table_aux:
  assumes "internal_node_find fresh t p k = Some y"
  shows "\<forall>c t'. y = (Inr c, t') \<longrightarrow> end_of_table c = end_of_table fresh"
proof (rule internal_node_find.raw_induct
    [where P = "\<lambda>fresh t p k y. \<forall>c t'. y = (Inr c, t') \<longrightarrow> end_of_table c = end_of_table fresh",
     OF _ assms])
  fix find fresh t p k y
  assume IH: "\<And>fresh t p k y. find fresh t p k = Some y \<Longrightarrow>
            \<forall>c t'. y = (Inr c, t') \<longrightarrow> end_of_table c = end_of_table fresh"
    and body: "(case table_get_page t p of
        Inl e \<Rightarrow> Some (Inl e, t)
      | Inr t1 \<Rightarrow>
          (case internal_node_find_child (node_at t1 p) k of
             None \<Rightarrow> None
           | Some child_index \<Rightarrow>
               (let child_num = internal_node_child (node_at t1 p) child_index
                in case table_get_page t1 child_num of
                     Inl e \<Rightarrow> Some (Inl e, t1)
                   | Inr t2 \<Rightarrow>
                       (case get_node_type (node_at t2 child_num) of
                          NODE_LEAF \<Rightarrow> leaf_node_find fresh t2 child_num k
                        | NODE_INTERNAL \<Rightarrow> find fresh t2 child_num k)))) = Some y"
  from body show "\<forall>c t'. y = (Inr c, t') \<longrightarrow> end_of_table c = end_of_table fresh"
    by (auto simp: Let_def split: sum.splits option.splits NodeType.splits
             dest: leaf_node_find_end_of_table IH)
qed

lemma internal_node_find_end_of_table:
  "internal_node_find fresh t p k = Some (Inr c, t') \<Longrightarrow> end_of_table c = end_of_table fresh"
  using internal_node_find_end_of_table_aux by blast

text \<open>
  Claim C8, as amended. \<^verbatim>\<open>table_find\<close> never assigns \<open>end_of_table\<close>: the flag of the
  cursor it returns is the one the freshly allocated cursor happened to hold.
\<close>

theorem table_find_end_of_table_unassigned:
  assumes "table_find fresh t k = Some (Inr c, t')"
  shows "end_of_table c = end_of_table fresh"
  using assms
  by (auto simp: table_find_def Let_def split: sum.splits if_splits
           dest: leaf_node_find_end_of_table internal_node_find_end_of_table)

lemma leaf_find_example: "leaf_find_loop example_leaf 20 0 3 = Some 1"
  by (simp add: leaf_find_loop.simps example_leaf_simps)

text \<open>
  Claim C8 as stated (the flag of the returned cursor is false) fails when the allocated
  block holds a nonzero flag.
\<close>

theorem table_find_end_of_table_counterexample:
  "table_find \<lparr>page_num = 0, cell_num = 0, end_of_table = True\<rparr> example_leaf_table 20
     = Some (Inr \<lparr>page_num = 0, cell_num = 1, end_of_table = True\<rparr>, example_leaf_table)"
  by (simp add: table_find_def leaf_node_find_def table_get_page_existing
        example_leaf_table_simps example_leaf_simps TABLE_MAX_PAGES_def leaf_find_example)

theorem table_find_end_of_table_unassigned_witness:
  "table_find example_cursor example_leaf_table 20
     = Some (Inr \<lparr>page_num = 0, cell_num = 1, end_of_table = True\<rparr>, example_leaf_table)
   \<and> end_of_table \<lparr>page_num = 0, cell_num = 1, end_of_table = True\<rparr>
       = end_of_table example_cursor"
proof -
  have e: "table_find example_cursor example_leaf_table 20
     = Some (Inr \<lparr>page_num = 0, cell_num = 1, end_of_table = True\<rparr>, example_leaf_table)"
    by (simp add: table_find_def leaf_node_find_def table_get_page_existing example_cursor_def
        example_leaf_table_simps example_leaf_simps TABLE_MAX_PAGES_def leaf_find_example)
  from table_find_end_of_table_unassigned [OF e] e show ?thesis by simp
qed

subsection \<open>C3: the distribution of the cells by a leaf split\<close>

lemma leaf_constants:
  "LEAF_NODE_MAX_CELLS = 13" "LEAF_NODE_LEFT_SPLIT_COUNT = 7" "LEAF_NODE_RIGHT_SPLIT_COUNT = 7"
  by (simp_all add: LEAF_NODE_MAX_CELLS_def LEAF_NODE_LEFT_SPLIT_COUNT_def
        LEAF_NODE_RIGHT_SPLIT_COUNT_def PAGE_SIZE_def LEAF_NODE_HEADER_SIZE_def
        LEAF_NODE_CELL_SIZE_def)

lemma unat_small:
  assumes "n \<le> 13"
  shows "unat (of_nat n :: u32) = n"
  using assms by (simp add: unat_of_nat)

lemma of_nat_ge7:
  assumes "n \<le> 13"
  shows "((of_nat n :: u32) \<ge> 7) = (n \<ge> 7)"
  using unat_small [OF assms] by (simp add: word_le_nat_alt)

lemma unat_mod7:
  assumes "n \<le> 13"
  shows "unat ((of_nat n :: u32) mod 7) = n mod 7"
  using unat_small [OF assms] by (simp add: unat_mod)

lemma update_node_id: "f (node_at t n) = node_at t n \<Longrightarrow> update_node n f t = t"
  by (simp add: update_node_def node_at_def)

lemma node_at_update_node:
  "node_at (update_node n f t) m = (if m = n then f (node_at t n) else node_at t m)"
  by (simp add: update_node_def node_at_def)

lemma update_node_twice:
  "update_node n f (update_node n g t) = update_node n (\<lambda>node. f (g node)) t"
  by (simp add: update_node_def node_at_def)

lemma update_node_commute:
  "n \<noteq> m \<Longrightarrow> update_node n f (update_node m g t) = update_node m g (update_node n f t)"
  by (simp add: update_node_def node_at_def fun_upd_twist)

lemma update_node_cong:
  "f (node_at t n) = g (node_at t n) \<Longrightarrow> update_node n f t = update_node n g t"
  by (simp add: update_node_def)

lemma split_result_0: "split_result 0 cursor key val old new t = t"
  by (simp add: split_result_def split_old_body_def split_new_body_def update_node_id)

lemma update_node_key_value:
  "update_node d (set_leaf_node_key idx key) (update_node d (set_leaf_node_value idx val) t)
     = update_node d (set_leaf_node_cell idx (key, val)) t"
  by (simp add: update_node_def node_at_def set_leaf_node_key_def set_leaf_node_value_def
        set_leaf_node_cell_def leaf_node_cell_def)

lemma split_loop_neg: "i < 0 \<Longrightarrow> split_loop i cursor key val old new t = t"
  by (subst split_loop.simps) simp

lemma split_loop_unfold:
  "split_loop (int n) cursor key val old new t =
     split_loop (int n - 1) cursor key val old new
       (update_node (if (of_nat n :: u32) \<ge> 7 then new else old)
          (set_leaf_node_cell ((of_nat n :: u32) mod 7)
             (split_source cursor key val (node_at t old) (of_nat n))) t)"
  by (subst split_loop.simps)
     (simp add: Let_def leaf_constants update_node_key_value split_source_def)

lemma split_new_body_step:
  assumes "7 \<le> n" "n \<le> 13"
  shows "split_new_body n V (set_leaf_node_cell ((of_nat n :: u32) mod 7) (V (of_nat n)) node)
           = split_new_body (Suc n) V node"
proof -
  have um: "unat ((of_nat n :: u32) mod 7) = n - 7"
    using unat_mod7 [OF assms(2)] assms by (simp add: mod_if)
  have idx: "(j = (of_nat n :: u32) mod 7) = (unat j = n - 7)" for j :: u32
    using um by (auto simp: word_unat_eq_iff)
  have j7: "j + 7 = of_nat n" if "unat j = n - 7" for j :: u32
  proof -
    have "unat (j + 7) = n" using that assms by (simp add: unat_word_ariths)
    then show ?thesis using unat_small [OF assms(2)] by (simp add: word_unat_eq_iff)
  qed
  have "(if unat j < 7 \<and> unat j + 7 < n then V (j + 7)
         else leaf_body (set_leaf_node_cell ((of_nat n :: u32) mod 7) (V (of_nat n)) node) j)
        = (if unat j < 7 \<and> unat j + 7 < Suc n then V (j + 7) else leaf_body node j)" for j :: u32
  proof (cases "unat j = n - 7")
    case True
    moreover have "n - 7 < 7" "n - 7 + 7 < Suc n" using assms by simp_all
    ultimately show ?thesis using j7 [OF True] by (simp add: set_leaf_node_cell_def idx)
  next
    case False
    then have "(unat j + 7 < n) = (unat j + 7 < Suc n)" using assms by auto
    then show ?thesis using False by (simp add: set_leaf_node_cell_def idx)
  qed
  then have "(\<lambda>j. if unat j < 7 \<and> unat j + 7 < n then V (j + 7)
         else leaf_body (set_leaf_node_cell ((of_nat n :: u32) mod 7) (V (of_nat n)) node) j)
        = (\<lambda>j. if unat j < 7 \<and> unat j + 7 < Suc n then V (j + 7) else leaf_body node j)"
    by (rule ext)
  then show ?thesis
    unfolding split_new_body_def by (simp add: set_leaf_node_cell_def)
qed

lemma split_old_body_ge7:
  assumes "7 \<le> n"
  shows "split_old_body n V = split_old_body (Suc n) V"
proof (rule ext)
  fix node
  have "(unat j < 7 \<and> unat j < n) = (unat j < 7 \<and> unat j < Suc n)" for j :: u32
    using assms by auto
  then show "split_old_body n V node = split_old_body (Suc n) V node"
    unfolding split_old_body_def by simp
qed

lemma split_new_body_lt7:
  assumes "n \<le> 7"
  shows "split_new_body n V node = node"
proof -
  have "(if unat j < 7 \<and> unat j + 7 < n then V (j + 7) else leaf_body node j)
          = leaf_body node j" for j :: u32
    using assms by auto
  then show ?thesis unfolding split_new_body_def by simp
qed

lemma split_result_step_new:
  assumes "old \<noteq> new" "7 \<le> n" "n \<le> 13"
  shows "split_result n cursor key val old new
           (update_node new
              (set_leaf_node_cell ((of_nat n :: u32) mod 7)
                 (split_source cursor key val (node_at t old) (of_nat n))) t)
         = split_result (Suc n) cursor key val old new t"
proof -
  let ?V = "split_source cursor key val (node_at t old)"
  let ?G = "set_leaf_node_cell ((of_nat n :: u32) mod 7) (?V (of_nat n))"
  have "split_result n cursor key val old new (update_node new ?G t)
      = update_node new (split_new_body n ?V)
          (update_node old (split_old_body n ?V) (update_node new ?G t))"
    using assms(1) by (simp add: split_result_def node_at_update_node)
  also have "\<dots> = update_node new (split_new_body n ?V)
          (update_node new ?G (update_node old (split_old_body n ?V) t))"
    using assms(1) by (simp add: update_node_commute)
  also have "\<dots> = update_node new (\<lambda>node. split_new_body n ?V (?G node))
          (update_node old (split_old_body n ?V) t)"
    by (simp only: update_node_twice)
  also have "\<dots> = update_node new (split_new_body (Suc n) ?V)
          (update_node old (split_old_body (Suc n) ?V) t)"
    using split_old_body_ge7 [OF assms(2), of ?V] split_new_body_step [OF assms(2,3), of ?V]
    by simp
  finally show ?thesis by (simp add: split_result_def)
qed

lemma split_old_body_step:
  assumes "n < 7"
  shows "split_old_body n
           (split_source cursor key val
              (set_leaf_node_cell ((of_nat n :: u32) mod 7) X node))
           (set_leaf_node_cell ((of_nat n :: u32) mod 7) X node)
         = split_old_body (Suc n) (\<lambda>j. if j = of_nat n then X else split_source cursor key val node j) node"
proof -
  have n13: "n \<le> 13" using assms by simp
  have um: "unat ((of_nat n :: u32) mod 7) = n"
    using unat_mod7 [OF n13] assms by simp
  have un: "unat (of_nat n :: u32) = n" by (rule unat_small [OF n13])
  have idx: "(of_nat n :: u32) mod 7 = of_nat n"
    using um un by (simp add: word_unat_eq_iff)
  have V: "split_source cursor key val (set_leaf_node_cell (of_nat n) X node) j
             = split_source cursor key val node j" if "unat j < n" for j :: u32
  proof -
    have a: "j \<noteq> of_nat n" using that un by auto
    have b: "j - 1 \<noteq> of_nat n" if "cell_num cursor < j"
    proof -
      have "0 < unat j" using that by (metis unat_gt_0 word_not_simps(1) not_less_iff_gr_or_eq word_less_nat_alt not_less0)
      then have "unat (j - 1) = unat j - 1" by (simp add: unat_minus_one unat_gt_0)
      then show ?thesis using \<open>unat j < n\<close> un by auto
    qed
    show ?thesis using a b
      by (simp add: split_source_def leaf_node_cell_def set_leaf_node_cell_def)
  qed
  have "(if unat j < 7 \<and> unat j < n
           then split_source cursor key val (set_leaf_node_cell (of_nat n) X node) j
           else leaf_body (set_leaf_node_cell (of_nat n) X node) j)
        = (if unat j < 7 \<and> unat j < Suc n
           then (if j = of_nat n then X else split_source cursor key val node j)
           else leaf_body node j)" for j :: u32
  proof (cases "unat j < n")
    case True
    then have "j \<noteq> of_nat n" using un by auto
    then show ?thesis using True V [OF True] assms by simp
  next
    case False
    show ?thesis
    proof (cases "j = of_nat n")
      case True
      then show ?thesis using assms un by (simp add: set_leaf_node_cell_def)
    next
      case F2: False
      then have "unat j \<noteq> n" using un by (metis word_unat_eq_iff)
      then have "\<not> unat j < Suc n" using False by simp
      then show ?thesis using False F2 by (simp add: set_leaf_node_cell_def)
    qed
  qed
  then have "(\<lambda>j. if unat j < 7 \<and> unat j < n
           then split_source cursor key val (set_leaf_node_cell (of_nat n) X node) j
           else leaf_body (set_leaf_node_cell (of_nat n) X node) j)
        = (\<lambda>j. if unat j < 7 \<and> unat j < Suc n
           then (if j = of_nat n then X else split_source cursor key val node j)
           else leaf_body node j)"
    by (rule ext)
  then show ?thesis
    unfolding split_old_body_def idx by (simp add: set_leaf_node_cell_def)
qed

lemma split_old_body_cong:
  assumes "\<And>j. unat j < 7 \<Longrightarrow> unat j < n \<Longrightarrow> V j = V' j"
  shows "split_old_body n V node = split_old_body n V' node"
proof -
  have "(\<lambda>j. if unat j < 7 \<and> unat j < n then V j else leaf_body node j)
      = (\<lambda>j. if unat j < 7 \<and> unat j < n then V' j else leaf_body node j)"
    using assms by (auto simp: fun_eq_iff)
  then show ?thesis unfolding split_old_body_def by simp
qed

lemma split_result_step_old:
  assumes "old \<noteq> new" "n < 7"
  shows "split_result n cursor key val old new
           (update_node old
              (set_leaf_node_cell ((of_nat n :: u32) mod 7)
                 (split_source cursor key val (node_at t old) (of_nat n))) t)
         = split_result (Suc n) cursor key val old new t"
proof -
  let ?V = "split_source cursor key val (node_at t old)"
  let ?G = "set_leaf_node_cell ((of_nat n :: u32) mod 7) (?V (of_nat n))"
  let ?V' = "split_source cursor key val (?G (node_at t old))"
  have new_id: "update_node new (split_new_body m W) s = s" if "m \<le> 7" for m W s
    using that by (simp add: update_node_id split_new_body_lt7)
  have "split_result n cursor key val old new (update_node old ?G t)
      = update_node old (split_old_body n ?V') (update_node old ?G t)"
    using assms by (simp add: split_result_def node_at_update_node new_id)
  also have "\<dots> = update_node old (\<lambda>node. split_old_body n ?V' (?G node)) t"
    by (simp only: update_node_twice)
  also have "\<dots> = update_node old (split_old_body (Suc n) ?V) t"
  proof (rule update_node_cong)
    have "split_old_body n ?V' (?G (node_at t old))
        = split_old_body (Suc n) (\<lambda>j. if j = of_nat n then ?V (of_nat n) else ?V j) (node_at t old)"
      by (rule split_old_body_step [OF assms(2)])
    also have "\<dots> = split_old_body (Suc n) ?V (node_at t old)"
      by (rule split_old_body_cong) simp
    finally show "split_old_body n ?V' (?G (node_at t old))
        = split_old_body (Suc n) ?V (node_at t old)" .
  qed
  also have "\<dots> = split_result (Suc n) cursor key val old new t"
    using assms by (simp add: split_result_def new_id)
  finally show ?thesis .
qed

lemma split_loop_result:
  assumes "old \<noteq> new" "n \<le> 14"
  shows "split_loop (int n - 1) cursor key val old new t
           = split_result n cursor key val old new t"
  using assms(2)
proof (induction n arbitrary: t)
  case 0
  then show ?case by (simp add: split_loop_neg split_result_0)
next
  case (Suc n)
  have n13: "n \<le> 13" using Suc.prems by simp
  have "split_loop (int (Suc n) - 1) cursor key val old new t
      = split_loop (int n - 1) cursor key val old new
          (update_node (if (of_nat n :: u32) \<ge> 7 then new else old)
             (set_leaf_node_cell ((of_nat n :: u32) mod 7)
                (split_source cursor key val (node_at t old) (of_nat n))) t)"
    using split_loop_unfold [of n] by simp
  also have "\<dots> = split_result n cursor key val old new
          (update_node (if (of_nat n :: u32) \<ge> 7 then new else old)
             (set_leaf_node_cell ((of_nat n :: u32) mod 7)
                (split_source cursor key val (node_at t old) (of_nat n))) t)"
    using Suc.IH n13 by simp
  also have "\<dots> = split_result (Suc n) cursor key val old new t"
  proof (cases "7 \<le> n")
    case True
    then show ?thesis
      using split_result_step_new [OF assms(1) True n13] of_nat_ge7 [OF n13] by simp
  next
    case False
    then have "n < 7" by simp
    then show ?thesis
      using split_result_step_old [OF assms(1)] of_nat_ge7 [OF n13] by simp
  qed
  finally show ?case .
qed

lemma leaf_cells_nth:
  "i < unat (leaf_node_num_cells node) \<Longrightarrow> leaf_cells node ! i = leaf_node_cell node (of_nat i)"
  by (simp add: leaf_cells_def)

lemma length_leaf_cells [simp]: "length (leaf_cells node) = unat (leaf_node_num_cells node)"
  by (simp add: leaf_cells_def)

lemma insert_at_nth:
  assumes "c \<le> length xs" "i \<le> length xs"
  shows "insert_at c x xs ! i = (if i = c then x else if c < i then xs ! (i - 1) else xs ! i)"
proof -
  have len: "length (take c xs) = c" using assms(1) by simp
  consider (lt) "i < c" | (eq) "i = c" | (gt) "c < i" by linarith
  then show ?thesis
  proof cases
    case lt
    then show ?thesis using assms unfolding insert_at_def by (simp add: nth_append)
  next
    case eq
    then show ?thesis using assms unfolding insert_at_def by (simp add: nth_append min_def)
  next
    case gt
    then obtain k where k: "i = Suc (c + k)" by (metis less_iff_Suc_add)
    have "(take c xs @ x # drop c xs) ! i = (x # drop c xs) ! (i - c)"
      using gt assms by (simp add: nth_append min_def)
    also have "\<dots> = drop c xs ! k" using k by simp
    also have "\<dots> = xs ! (c + k)" using assms k by simp
    finally show ?thesis using gt k unfolding insert_at_def by simp
  qed
qed

lemma length_insert_at [simp]: "length (insert_at c x xs) = Suc (length xs)"
  by (simp add: insert_at_def)

lemma split_source_insert_at:
  assumes "leaf_node_num_cells node = 13" "cell_num cursor \<le> 13" "i \<le> 13"
  shows "split_source cursor key val node (of_nat i)
           = insert_at (unat (cell_num cursor)) (key, val) (leaf_cells node) ! i"
proof -
  have ui: "unat (of_nat i :: u32) = i" by (rule unat_small [OF assms(3)])
  have uc: "unat (cell_num cursor) \<le> 13" using assms(2) by (simp add: word_le_nat_alt)
  have e1: "((of_nat i :: u32) = cell_num cursor) = (i = unat (cell_num cursor))"
    using ui by (auto simp: word_unat_eq_iff)
  have e2: "((of_nat i :: u32) > cell_num cursor) = (unat (cell_num cursor) < i)"
    using ui by (simp add: word_less_nat_alt)
  have e3: "(of_nat i :: u32) - 1 = of_nat (i - 1)" if "0 < i"
    using that by (simp add: of_nat_diff)
  have "insert_at (unat (cell_num cursor)) (key, val) (leaf_cells node) ! i
      = (if i = unat (cell_num cursor) then (key, val)
         else if unat (cell_num cursor) < i then leaf_cells node ! (i - 1)
         else leaf_cells node ! i)"
    using assms uc by (intro insert_at_nth) simp_all
  also have "\<dots> = split_source cursor key val node (of_nat i)"
  proof -
    consider (lt) "i < unat (cell_num cursor)" | (eq) "i = unat (cell_num cursor)"
      | (gt) "unat (cell_num cursor) < i" by linarith
    then show ?thesis
    proof cases
      case lt
      then have "i < 13" using uc by simp
      then show ?thesis using lt assms(1) e1 e2
        by (simp add: split_source_def leaf_cells_nth)
    next
      case eq
      then show ?thesis using e1 by (simp add: split_source_def)
    next
      case gt
      then have "0 < i" "i - 1 < 13" using assms(3) by simp_all
      then show ?thesis using gt assms(1) e1 e2 e3
        by (simp add: split_source_def leaf_cells_nth)
    qed
  qed
  finally show ?thesis by simp
qed

lemma get_node_max_key_leaf:
  "get_node_type (node_at t n) = NODE_LEAF \<Longrightarrow>
     get_node_max_key t n
       = Some (Inr (leaf_node_key (node_at t n) (leaf_node_num_cells (node_at t n) - 1)), t)"
  by (subst get_node_max_key.simps) (simp add: Let_def)

lemma table_get_page_fresh:
  "unat (num_pages (pager t)) < TABLE_MAX_PAGES \<Longrightarrow>
     table_get_page t (num_pages (pager t))
       = Inr (t\<lparr>pager := (pager t)\<lparr>num_pages := num_pages (pager t) + 1,
                                    pages := (pages (pager t))(num_pages (pager t) := zero_page)\<rparr>\<rparr>)"
  by (simp add: table_get_page_def get_page_def)

lemma node_at_pager_update:
  "node_at (t\<lparr>pager := (pager t)\<lparr>num_pages := k, pages := (pages (pager t))(m := pg)\<rparr>\<rparr>) n
     = (if n = m then pg else node_at t n)"
  by (simp add: node_at_def)

lemma split_result_node_old:
  "old \<noteq> new \<Longrightarrow> node_at (split_result n cursor key val old new t) old
     = split_old_body n (split_source cursor key val (node_at t old)) (node_at t old)"
  by (simp add: split_result_def node_at_update_node)

lemma split_result_node_new:
  "old \<noteq> new \<Longrightarrow> node_at (split_result n cursor key val old new t) new
     = split_new_body n (split_source cursor key val (node_at t old)) (node_at t new)"
  by (simp add: split_result_def node_at_update_node)

lemma split_result_node_other:
  "m \<noteq> old \<Longrightarrow> m \<noteq> new \<Longrightarrow> node_at (split_result n cursor key val old new t) m = node_at t m"
  by (simp add: split_result_def node_at_update_node)

lemma split_source_cong:
  "leaf_body node = leaf_body node' \<Longrightarrow>
     split_source cursor key val node = split_source cursor key val node'"
  by (simp add: split_source_def fun_eq_iff leaf_node_cell_def)

lemma leaf_node_split_state:
  assumes "page_num cursor < num_pages (pager t)"
    and "unat (num_pages (pager t)) < TABLE_MAX_PAGES"
    and "get_node_type (node_at t (page_num cursor)) = NODE_LEAF"
  shows "\<exists>t'. leaf_node_split cursor key val t
           = Some (Inr (leaf_node_key (node_at t (page_num cursor))
                          (leaf_node_num_cells (node_at t (page_num cursor)) - 1),
                        num_pages (pager t)), t')
         \<and> node_at t' (page_num cursor)
             = set_leaf_node_num_cells 7
                 (split_old_body 14 (split_source cursor key val (node_at t (page_num cursor)))
                    (set_leaf_node_next_leaf (num_pages (pager t)) (node_at t (page_num cursor))))
         \<and> node_at t' (num_pages (pager t))
             = set_leaf_node_num_cells 7
                 (split_new_body 14 (split_source cursor key val (node_at t (page_num cursor)))
                    (set_leaf_node_next_leaf (leaf_node_next_leaf (node_at t (page_num cursor)))
                       (set_node_parent (node_parent (node_at t (page_num cursor)))
                          (initialize_leaf_node zero_page))))
         \<and> (\<forall>m. m \<noteq> page_num cursor \<and> m \<noteq> num_pages (pager t) \<longrightarrow> node_at t' m = node_at t m)
         \<and> num_pages (pager t') = num_pages (pager t) + 1
         \<and> root_page_num t' = root_page_num t"
proof -
  let ?old = "page_num cursor"
  let ?new = "num_pages (pager t)"
  have ne: "?old \<noteq> ?new" using assms(1) by auto
  have lt: "unat ?old < TABLE_MAX_PAGES" using assms(1,2) by (simp add: word_less_nat_alt)
  have sl: "split_loop (sint LEAF_NODE_MAX_CELLS) cursor key val ?old ?new s
          = split_result 14 cursor key val ?old ?new s" for s
    using split_loop_result [OF ne, of 14 cursor key val s] by (simp add: leaf_constants)
  have src: "split_source cursor key val (set_leaf_node_next_leaf v node)
           = split_source cursor key val node" for v node
    by (rule split_source_cong) (simp add: set_leaf_node_next_leaf_def)
  show ?thesis
    using ne assms
    apply (simp add: leaf_node_split_def Let_def table_get_page_existing lt
        get_node_max_key_leaf get_unused_page_num_def table_get_page_fresh sl)
    apply (simp add: node_at_update_node split_result_node_old split_result_node_new
        split_result_node_other node_at_pager_update leaf_constants src)
    apply (simp add: update_node_def split_result_def)
    done
qed

lemma leaf_cells_split_old:
  assumes "leaf_node_num_cells node = 13" "cell_num cursor \<le> 13"
    and "leaf_body node' = leaf_body node"
  shows "leaf_cells (set_leaf_node_num_cells 7
            (split_old_body 14 (split_source cursor key val node) node'))
         = take 7 (insert_at (unat (cell_num cursor)) (key, val) (leaf_cells node))"
proof (rule nth_equalityI)
  show "length (leaf_cells (set_leaf_node_num_cells 7
            (split_old_body 14 (split_source cursor key val node) node')))
      = length (take 7 (insert_at (unat (cell_num cursor)) (key, val) (leaf_cells node)))"
    using assms(1)
    by (simp add: set_leaf_node_num_cells_def leaf_node_num_cells_def split_old_body_def)
next
  fix i
  assume "i < length (leaf_cells (set_leaf_node_num_cells 7
            (split_old_body 14 (split_source cursor key val node) node')))"
  then have i7: "i < 7"
    by (simp add: set_leaf_node_num_cells_def leaf_node_num_cells_def split_old_body_def)
  then have i13: "i \<le> 13" by simp
  have ui: "unat (of_nat i :: u32) = i" by (rule unat_small [OF i13])
  have "leaf_cells (set_leaf_node_num_cells 7
            (split_old_body 14 (split_source cursor key val node) node')) ! i
      = split_source cursor key val node (of_nat i)"
    using i7 ui
    by (simp add: leaf_cells_def set_leaf_node_num_cells_def leaf_node_num_cells_def
          split_old_body_def leaf_node_cell_def)
  also have "\<dots> = insert_at (unat (cell_num cursor)) (key, val) (leaf_cells node) ! i"
    by (rule split_source_insert_at [OF assms(1,2) i13])
  finally show "leaf_cells (set_leaf_node_num_cells 7
            (split_old_body 14 (split_source cursor key val node) node')) ! i
      = take 7 (insert_at (unat (cell_num cursor)) (key, val) (leaf_cells node)) ! i"
    using i7 by simp
qed

lemma leaf_cells_split_new:
  assumes "leaf_node_num_cells node = 13" "cell_num cursor \<le> 13"
  shows "leaf_cells (set_leaf_node_num_cells 7
            (split_new_body 14 (split_source cursor key val node) node'))
         = drop 7 (insert_at (unat (cell_num cursor)) (key, val) (leaf_cells node))"
proof (rule nth_equalityI)
  show "length (leaf_cells (set_leaf_node_num_cells 7
            (split_new_body 14 (split_source cursor key val node) node')))
      = length (drop 7 (insert_at (unat (cell_num cursor)) (key, val) (leaf_cells node)))"
    using assms(1)
    by (simp add: set_leaf_node_num_cells_def leaf_node_num_cells_def split_new_body_def)
next
  fix i
  assume "i < length (leaf_cells (set_leaf_node_num_cells 7
            (split_new_body 14 (split_source cursor key val node) node')))"
  then have i7: "i < 7"
    by (simp add: set_leaf_node_num_cells_def leaf_node_num_cells_def split_new_body_def)
  then have i13: "i + 7 \<le> 13" by simp
  have ui: "unat (of_nat i :: u32) = i" using i7 by (intro unat_small) simp
  have "leaf_cells (set_leaf_node_num_cells 7
            (split_new_body 14 (split_source cursor key val node) node')) ! i
      = split_source cursor key val node (of_nat i + 7)"
    using i7 ui
    by (simp add: leaf_cells_def set_leaf_node_num_cells_def leaf_node_num_cells_def
          split_new_body_def leaf_node_cell_def)
  also have "\<dots> = split_source cursor key val node (of_nat (i + 7))" by simp
  also have "\<dots> = insert_at (unat (cell_num cursor)) (key, val) (leaf_cells node) ! (i + 7)"
    by (rule split_source_insert_at [OF assms(1,2) i13])
  also have "\<dots> = drop 7 (insert_at (unat (cell_num cursor)) (key, val) (leaf_cells node)) ! i"
  proof -
    have "7 \<le> length (insert_at (unat (cell_num cursor)) (key, val) (leaf_cells node))"
      using assms(1) by simp
    from nth_drop [OF this, of i] show ?thesis by (simp only: add.commute [of 7 i])
  qed
  finally show "leaf_cells (set_leaf_node_num_cells 7
            (split_new_body 14 (split_source cursor key val node) node')) ! i
      = drop 7 (insert_at (unat (cell_num cursor)) (key, val) (leaf_cells node)) ! i" .
qed

text \<open>\<open>leaf_node_split\<close> is \<^verbatim>\<open>leaf_node_split_and_insert\<close> up to and including the update of
  the two cell counts, that is, before the parent is created or updated. On a full leaf
  and a cursor cell number within \<open>[0, LEAF_NODE_MAX_CELLS]\<close> it returns, the new page is
  the next unused page, the old node holds the first \<open>LEAF_NODE_LEFT_SPLIT_COUNT\<close> cells and
  the new node the remaining cells of the old cells with \<open>(key, row)\<close> inserted at the
  cursor's cell number; the new node has the old node's parent and next-leaf references,
  the old node's next leaf is the new page, and the cell counts are the two split
  counts.\<close>

lemma leaf_node_split_phase:
  assumes "page_num cursor < num_pages (pager t)"
    and "unat (num_pages (pager t)) < TABLE_MAX_PAGES"
    and "get_node_type (node_at t (page_num cursor)) = NODE_LEAF"
    and "leaf_node_num_cells (node_at t (page_num cursor)) = LEAF_NODE_MAX_CELLS"
    and "cell_num cursor \<le> LEAF_NODE_MAX_CELLS"
  shows "\<exists>old_max t'.
           leaf_node_split cursor key val t = Some (Inr (old_max, num_pages (pager t)), t')
         \<and> leaf_cells (node_at t' (page_num cursor))
             = take (unat LEAF_NODE_LEFT_SPLIT_COUNT)
                 (insert_at (unat (cell_num cursor)) (key, val)
                    (leaf_cells (node_at t (page_num cursor))))
         \<and> leaf_cells (node_at t' (num_pages (pager t)))
             = drop (unat LEAF_NODE_LEFT_SPLIT_COUNT)
                 (insert_at (unat (cell_num cursor)) (key, val)
                    (leaf_cells (node_at t (page_num cursor))))
         \<and> node_parent (node_at t' (num_pages (pager t)))
             = node_parent (node_at t (page_num cursor))
         \<and> leaf_node_next_leaf (node_at t' (num_pages (pager t)))
             = leaf_node_next_leaf (node_at t (page_num cursor))
         \<and> leaf_node_next_leaf (node_at t' (page_num cursor)) = num_pages (pager t)
         \<and> leaf_node_num_cells (node_at t' (page_num cursor)) = LEAF_NODE_LEFT_SPLIT_COUNT
         \<and> leaf_node_num_cells (node_at t' (num_pages (pager t))) = LEAF_NODE_RIGHT_SPLIT_COUNT
         \<and> get_node_type (node_at t' (num_pages (pager t))) = NODE_LEAF"
proof -
  let ?old = "page_num cursor"
  let ?new = "num_pages (pager t)"
  from leaf_node_split_state [OF assms(1,2,3), of key val]
  obtain t' where t': "leaf_node_split cursor key val t
           = Some (Inr (leaf_node_key (node_at t ?old)
                          (leaf_node_num_cells (node_at t ?old) - 1), ?new), t')"
     "node_at t' ?old
             = set_leaf_node_num_cells 7
                 (split_old_body 14 (split_source cursor key val (node_at t ?old))
                    (set_leaf_node_next_leaf ?new (node_at t ?old)))"
     "node_at t' ?new
             = set_leaf_node_num_cells 7
                 (split_new_body 14 (split_source cursor key val (node_at t ?old))
                    (set_leaf_node_next_leaf (leaf_node_next_leaf (node_at t ?old))
                       (set_node_parent (node_parent (node_at t ?old))
                          (initialize_leaf_node zero_page))))"
    by blast
  have n13: "leaf_node_num_cells (node_at t ?old) = 13" "cell_num cursor \<le> 13"
    using assms(4,5) by (simp_all add: leaf_constants)
  have c1: "leaf_cells (node_at t' ?old)
      = take 7 (insert_at (unat (cell_num cursor)) (key, val) (leaf_cells (node_at t ?old)))"
    unfolding t'(2)
    by (rule leaf_cells_split_old [OF n13]) (simp add: set_leaf_node_next_leaf_def)
  have c2: "leaf_cells (node_at t' ?new)
      = drop 7 (insert_at (unat (cell_num cursor)) (key, val) (leaf_cells (node_at t ?old)))"
    unfolding t'(3) by (rule leaf_cells_split_new [OF n13])
  have hdr: "node_parent (node_at t' ?new) = node_parent (node_at t ?old)"
    "leaf_node_next_leaf (node_at t' ?new) = leaf_node_next_leaf (node_at t ?old)"
    "leaf_node_next_leaf (node_at t' ?old) = ?new"
    "leaf_node_num_cells (node_at t' ?old) = 7"
    "leaf_node_num_cells (node_at t' ?new) = 7"
    "get_node_type (node_at t' ?new) = NODE_LEAF"
    unfolding t'(2,3)
    by (simp_all add: set_leaf_node_num_cells_def split_old_body_def split_new_body_def
          set_leaf_node_next_leaf_def set_node_parent_def initialize_leaf_node_def
          set_node_root_def set_node_type_def node_parent_def leaf_node_next_leaf_def
          leaf_node_num_cells_def get_node_type_def)
  show ?thesis
    using t'(1) c1 c2 hdr by (simp add: leaf_constants)
qed

lemma example_full_table_simps:
  "num_pages (pager example_full_table) = 1"
  "node_at example_full_table 0 = example_full_leaf"
  "root_page_num example_full_table = 0"
  by (simp_all add: example_full_table_def node_at_def)

lemma example_full_leaf_simps:
  "leaf_node_num_cells example_full_leaf = 13"
  "leaf_node_cell example_full_leaf i = (10 * i, zero_row)"
  "get_node_type example_full_leaf = NODE_LEAF"
  "leaf_node_next_leaf example_full_leaf = 0"
  "node_parent example_full_leaf = 0"
  "is_node_root example_full_leaf"
  by (simp_all add: example_full_leaf_def leaf_node_num_cells_def leaf_node_key_def
        leaf_node_cell_def get_node_type_def leaf_node_next_leaf_def zero_page_def
        node_parent_def is_node_root_def)

lemma example_full_leaf_cells:
  "map fst (leaf_cells example_full_leaf) = [0, 10, 20, 30, 40, 50, 60, 70, 80, 90, 100, 110, 120]"
  by (simp add: leaf_cells_def example_full_leaf_simps upt_rec)

lemma leaf_node_split_phase_example:
  "page_num example_insert_cursor < num_pages (pager example_full_table)
   \<and> unat (num_pages (pager example_full_table)) < TABLE_MAX_PAGES
   \<and> get_node_type (node_at example_full_table (page_num example_insert_cursor)) = NODE_LEAF
   \<and> leaf_node_num_cells (node_at example_full_table (page_num example_insert_cursor))
        = LEAF_NODE_MAX_CELLS
   \<and> cell_num example_insert_cursor \<le> LEAF_NODE_MAX_CELLS
   \<and> (\<exists>old_max t'.
         leaf_node_split example_insert_cursor 25 zero_row example_full_table
           = Some (Inr (old_max, 1), t')
         \<and> map fst (leaf_cells (node_at t' 0)) = [0, 10, 20, 25, 30, 40, 50]
         \<and> map fst (leaf_cells (node_at t' 1)) = [60, 70, 80, 90, 100, 110, 120]
         \<and> leaf_node_next_leaf (node_at t' 0) = 1
         \<and> leaf_node_next_leaf (node_at t' 1) = 0)"
proof -
  have h1: "page_num example_insert_cursor < num_pages (pager example_full_table)"
    by (simp add: example_insert_cursor_def example_full_table_simps)
  have h2: "unat (num_pages (pager example_full_table)) < TABLE_MAX_PAGES"
    by (simp add: example_full_table_simps TABLE_MAX_PAGES_def)
  have p: "page_num example_insert_cursor = 0" "cell_num example_insert_cursor = 3"
    by (simp_all add: example_insert_cursor_def)
  have h3: "get_node_type (node_at example_full_table (page_num example_insert_cursor)) = NODE_LEAF"
    by (simp add: p example_full_table_simps example_full_leaf_simps)
  have h4: "leaf_node_num_cells (node_at example_full_table (page_num example_insert_cursor))
        = LEAF_NODE_MAX_CELLS"
    by (simp add: p example_full_table_simps example_full_leaf_simps leaf_constants)
  have h5: "cell_num example_insert_cursor \<le> LEAF_NODE_MAX_CELLS"
    by (simp add: p leaf_constants)
  from leaf_node_split_phase [OF h1 h2 h3 h4 h5, of 25 zero_row]
  obtain old_max t' where t':
    "leaf_node_split example_insert_cursor 25 zero_row example_full_table
       = Some (Inr (old_max, 1), t')"
    "leaf_cells (node_at t' 0)
       = take 7 (insert_at 3 (25, zero_row) (leaf_cells example_full_leaf))"
    "leaf_cells (node_at t' 1)
       = drop 7 (insert_at 3 (25, zero_row) (leaf_cells example_full_leaf))"
    "leaf_node_next_leaf (node_at t' 1) = 0"
    "leaf_node_next_leaf (node_at t' 0) = 1"
    unfolding p example_full_table_simps example_full_leaf_simps leaf_constants
    by auto
  have m0: "map fst (leaf_cells (node_at t' 0)) = [0, 10, 20, 25, 30, 40, 50]"
    unfolding t'(2) using example_full_leaf_cells
    by (simp add: insert_at_def take_map [symmetric] drop_map [symmetric]
          example_full_leaf_simps)
  have m1: "map fst (leaf_cells (node_at t' 1)) = [60, 70, 80, 90, 100, 110, 120]"
    unfolding t'(3) using example_full_leaf_cells
    by (simp add: insert_at_def take_map [symmetric] drop_map [symmetric]
          example_full_leaf_simps)
  show ?thesis
    by (intro conjI h1 h2 h3 h4 h5 exI [of _ old_max] exI [of _ t'] t'(1,4,5) m0 m1)
qed

subsection \<open>C5: promoting the root\<close>

lemma extends_refl: "extends s s"
  by (simp add: extends_def)

lemma extends_trans: "extends s s' \<Longrightarrow> extends s' s'' \<Longrightarrow> extends s s''"
  unfolding extends_def
  by (metis order_trans)

lemma table_get_page_extends:
  "table_get_page s n = Inr s' \<Longrightarrow> extends s s'"
  by (auto simp: table_get_page_def get_page_def extends_def node_at_def word_le_nat_alt
        TABLE_MAX_PAGES_def unat_word_ariths
           split: if_splits)

lemma table_get_page_Inr:
  assumes "table_get_page s n = Inr s'"
  shows "unat n < TABLE_MAX_PAGES" and "n < num_pages (pager s')"
    and "n < num_pages (pager s) \<Longrightarrow> s' = s"
    and "num_pages (pager s) \<le> n \<Longrightarrow> node_at s' n = zero_page \<and> num_pages (pager s') = n + 1"
  using assms
  by (auto simp: table_get_page_def get_page_def node_at_def word_less_nat_alt word_le_nat_alt
        TABLE_MAX_PAGES_def unat_word_ariths split: if_splits)

lemma get_node_max_key_extends_aux:
  assumes "get_node_max_key s n = Some y"
  shows "extends s (snd y)"
proof (rule get_node_max_key.raw_induct
    [where P = "\<lambda>s n y. extends s (snd y)", OF _ assms])
  fix f s n y
  assume IH: "\<And>s n y. f s n = Some y \<Longrightarrow> extends s (snd y)"
    and body: "(let node = node_at s n
      in case get_node_type node of
           NODE_LEAF \<Rightarrow> Some (Inr (leaf_node_key node (leaf_node_num_cells node - 1)), s)
         | NODE_INTERNAL \<Rightarrow>
             (let right_child = internal_node_right_child node
              in case table_get_page s right_child of
                   Inl e \<Rightarrow> Some (Inl e, s)
                 | Inr t1 \<Rightarrow> f t1 right_child)) = Some y"
  from body show "extends s (snd y)"
    by (auto simp: Let_def extends_refl split: NodeType.splits sum.splits
             dest!: IH table_get_page_extends intro: extends_trans)
qed

lemma get_node_max_key_extends:
  "get_node_max_key s n = Some (res, s') \<Longrightarrow> extends s s'"
  using get_node_max_key_extends_aux by fastforce

lemma extends_node_at:
  "extends s s' \<Longrightarrow> k < num_pages (pager s) \<Longrightarrow> node_at s' k = node_at s k"
  by (auto simp: extends_def)

lemma pager_update_node [simp]:
  "num_pages (pager (update_node n f t)) = num_pages (pager t)"
  "root_page_num (update_node n f t) = root_page_num t"
  by (simp_all add: update_node_def)

lemma create_new_root_steps:
  assumes rp: "root_page_num t = 0" and np: "0 < num_pages (pager t)"
    and ok: "create_new_root t r = Some (Inr (), t')"
  obtains t2 t3 m t10 where
    "table_get_page t r = Inr t2"
    "table_get_page t2 (num_pages (pager t2)) = Inr t3"
    "get_node_max_key
       (update_node 0 (set_internal_node_child 0 (num_pages (pager t2)))
         (update_node 0 (set_internal_node_num_keys 1)
           (update_node 0 (set_node_root True)
             (update_node 0 initialize_internal_node
               (update_node (num_pages (pager t2)) (set_node_root False)
                 (update_node (num_pages (pager t2)) (\<lambda>_. node_at t3 0) t3))))))
       (num_pages (pager t2)) = Some (Inr m, t10)"
    "t' = update_node r (set_node_parent 0)
           (update_node (num_pages (pager t2)) (set_node_parent 0)
             (update_node 0 (set_internal_node_right_child r)
               (update_node 0 (set_internal_node_key 0 m) t10)))"
proof -
  have g0: "table_get_page t 0 = Inr t"
    using np by (simp add: table_get_page_existing TABLE_MAX_PAGES_def)
  obtain t2 where t2: "table_get_page t r = Inr t2"
    using ok by (auto simp: create_new_root_def rp g0 split: sum.splits)
  obtain t3 where t3: "table_get_page t2 (num_pages (pager t2)) = Inr t3"
    using ok by (auto simp: create_new_root_def rp g0 t2 get_unused_page_num_def Let_def
                      split: sum.splits)
  let ?t9 = "update_node 0 (set_internal_node_child 0 (num_pages (pager t2)))
         (update_node 0 (set_internal_node_num_keys 1)
           (update_node 0 (set_node_root True)
             (update_node 0 initialize_internal_node
               (update_node (num_pages (pager t2)) (set_node_root False)
                 (update_node (num_pages (pager t2)) (\<lambda>_. node_at t3 0) t3)))))"
  have rp10: "root_page_num s' = 0" if "get_node_max_key ?t9 n = Some (x, s')" for n x s'
  proof -
    have "extends ?t9 s'" using that by (rule get_node_max_key_extends)
    moreover have "extends t t2" "extends t2 t3"
      using t2 t3 by (auto dest: table_get_page_extends)
    ultimately show ?thesis using rp by (simp add: extends_def)
  qed
  from ok obtain m t10 where m: "get_node_max_key ?t9 (num_pages (pager t2)) = Some (Inr m, t10)"
    and t': "t' = update_node r (set_node_parent (root_page_num t10))
           (update_node (num_pages (pager t2)) (set_node_parent (root_page_num t10))
             (update_node 0 (set_internal_node_right_child r)
               (update_node 0 (set_internal_node_key 0 m) t10)))"
    by (auto simp: create_new_root_def rp g0 t2 t3 get_unused_page_num_def Let_def
             split: sum.splits option.splits)
  show thesis
    using that [OF t2 t3 m] t' rp10 [OF m] by simp
qed

lemma create_new_root_result:
  assumes rp: "root_page_num t = 0" and np: "0 < num_pages (pager t)"
    and ok: "create_new_root t r = Some (Inr (), t')"
  shows "\<exists>L. num_pages (pager t) \<le> L \<and> L \<noteq> 0 \<and> L \<noteq> r
           \<and> node_at t' L = set_node_parent 0 (set_node_root False (node_at t 0))
           \<and> get_node_type (node_at t' 0) = NODE_INTERNAL
           \<and> is_node_root (node_at t' 0)
           \<and> internal_node_num_keys (node_at t' 0) = 1
           \<and> internal_node_child (node_at t' 0) 0 = L
           \<and> internal_node_right_child (node_at t' 0) = r
           \<and> node_parent (node_at t' L) = 0
           \<and> node_parent (node_at t' r) = 0
           \<and> (\<exists>s s'. get_node_max_key s L = Some (Inr (internal_node_key (node_at t' 0) 0), s')
                  \<and> node_at s L = set_node_root False (node_at t 0))
           \<and> (get_node_type (node_at t 0) = NODE_LEAF \<longrightarrow>
                 internal_node_key (node_at t' 0) 0
                   = leaf_node_key (node_at t 0) (leaf_node_num_cells (node_at t 0) - 1))"
proof -
  from create_new_root_steps [OF rp np ok]
  obtain t2 t3 m t10 where
    t2: "table_get_page t r = Inr t2" and
    t3: "table_get_page t2 (num_pages (pager t2)) = Inr t3" and
    m: "get_node_max_key
       (update_node 0 (set_internal_node_child 0 (num_pages (pager t2)))
         (update_node 0 (set_internal_node_num_keys 1)
           (update_node 0 (set_node_root True)
             (update_node 0 initialize_internal_node
               (update_node (num_pages (pager t2)) (set_node_root False)
                 (update_node (num_pages (pager t2)) (\<lambda>_. node_at t3 0) t3))))))
       (num_pages (pager t2)) = Some (Inr m, t10)" and
    t': "t' = update_node r (set_node_parent 0)
           (update_node (num_pages (pager t2)) (set_node_parent 0)
             (update_node 0 (set_internal_node_right_child r)
               (update_node 0 (set_internal_node_key 0 m) t10)))"
    by blast
  define L where "L = num_pages (pager t2)"
  let ?t9 = "update_node 0 (set_internal_node_child 0 L)
         (update_node 0 (set_internal_node_num_keys 1)
           (update_node 0 (set_node_root True)
             (update_node 0 initialize_internal_node
               (update_node L (set_node_root False)
                 (update_node L (\<lambda>_. node_at t3 0) t3)))))"
  have e12: "extends t t2" using t2 by (rule table_get_page_extends)
  have e23: "extends t2 t3" using t3 by (rule table_get_page_extends)
  have rL: "r < L" unfolding L_def using table_get_page_Inr(2) [OF t2] .
  have npL: "num_pages (pager t) \<le> L" unfolding L_def using e12 by (simp add: extends_def)
  have L0: "L \<noteq> 0" using npL np by auto
  have Lr: "L \<noteq> r" using rL by auto
  have uL: "unat L < TABLE_MAX_PAGES" unfolding L_def using table_get_page_Inr(1) [OF t3] .
  have n3: "num_pages (pager t3) = L + 1" and z3: "node_at t3 L = zero_page"
    using table_get_page_Inr(4) [OF t3] by (simp_all add: L_def)
  have L1: "L < L + 1" using uL
    by (simp add: word_less_nat_alt unat_word_ariths TABLE_MAX_PAGES_def)
  have lt3: "0 < L + 1" "r < L + 1" using L1 L0 rL
    by (auto simp: word_less_nat_alt unat_gt_0)
  have R3: "node_at t3 0 = node_at t 0"
  proof -
    have "node_at t2 0 = node_at t 0" using e12 np by (rule extends_node_at)
    moreover have "0 < num_pages (pager t2)" using L0 by (simp add: L_def word_neq_0_conv)
    ultimately show ?thesis using extends_node_at [OF e23, of 0] by simp
  qed
  have e910: "extends ?t9 t10" using m unfolding L_def by (rule get_node_max_key_extends)
  have np9: "num_pages (pager ?t9) = L + 1" by (simp add: n3)
  have keep: "node_at t10 k = node_at ?t9 k" if "k < L + 1" for k
    using extends_node_at [OF e910] that np9 by simp
  have n9L: "node_at ?t9 L = set_node_root False (node_at t 0)"
    using L0 by (simp add: node_at_update_node R3)
  have n90: "node_at ?t9 0 = set_internal_node_child 0 L (set_internal_node_num_keys 1
               (set_node_root True (initialize_internal_node (node_at t 0))))"
    using L0 by (simp add: node_at_update_node R3)
  have tL: "node_at t' L = set_node_parent 0 (set_node_root False (node_at t 0))"
    using L0 Lr keep [OF L1] n9L by (simp add: t' L_def [symmetric] node_at_update_node)
  have t0: "node_at t' 0 = (if r = 0 then set_node_parent 0 else (\<lambda>x. x))
              (set_internal_node_right_child r (set_internal_node_key 0 m (node_at ?t9 0)))"
    using L0 keep [OF lt3(1)] by (simp add: t' L_def [symmetric] node_at_update_node)
  have tr: "node_parent (node_at t' r) = 0"
    by (simp add: t' node_at_update_node node_parent_def set_node_parent_def)
  have root_facts: "get_node_type (node_at t' 0) = NODE_INTERNAL"
    "is_node_root (node_at t' 0)"
    "internal_node_num_keys (node_at t' 0) = 1"
    "internal_node_child (node_at t' 0) 0 = L"
    "internal_node_right_child (node_at t' 0) = r"
    "internal_node_key (node_at t' 0) 0 = m"
    unfolding t0 n90
    by (simp_all add: set_node_parent_def set_internal_node_right_child_def
          set_internal_node_key_def set_internal_node_cell_def internal_node_cell_def
          set_internal_node_child_def set_internal_node_num_keys_def set_node_root_def
          initialize_internal_node_def set_node_type_def get_node_type_def is_node_root_def
          internal_node_num_keys_def internal_node_child_def internal_node_right_child_def
          internal_node_key_def)
  have leaf: "m = leaf_node_key (node_at t 0) (leaf_node_num_cells (node_at t 0) - 1)"
    if "get_node_type (node_at t 0) = NODE_LEAF"
  proof -
    have "get_node_type (node_at ?t9 L) = NODE_LEAF"
      using that by (simp add: n9L get_node_type_def set_node_root_def)
    from get_node_max_key_leaf [OF this] m
    show ?thesis
      by (simp add: L_def [symmetric] n9L leaf_node_key_def leaf_node_cell_def
            leaf_node_num_cells_def set_node_root_def)
  qed
  have mk: "\<exists>s s'. get_node_max_key s L = Some (Inr m, s')
              \<and> node_at s L = set_node_root False (node_at t 0)"
    using m n9L unfolding L_def [symmetric] by blast
  have pL: "node_parent (node_at t' L) = 0"
    by (simp add: tL node_parent_def set_node_parent_def)
  show ?thesis
    using npL L0 Lr tL root_facts pL tr mk leaf
    by (intro exI [of _ L]) simp
qed

lemma create_new_root_returns:
  assumes rp: "root_page_num t = 0" and np: "0 < num_pages (pager t)"
    and r: "r < num_pages (pager t)" and room: "unat (num_pages (pager t)) < TABLE_MAX_PAGES"
    and leaf: "get_node_type (node_at t 0) = NODE_LEAF"
  shows "\<exists>t'. create_new_root t r = Some (Inr (), t')"
proof -
  let ?L = "num_pages (pager t)"
  have g0: "table_get_page t 0 = Inr t"
    using np by (simp add: table_get_page_existing TABLE_MAX_PAGES_def)
  have gr: "table_get_page t r = Inr t"
    using r room by (simp add: table_get_page_existing word_less_nat_alt)
  have L0: "?L \<noteq> 0" using np by auto
  show ?thesis
    using L0 leaf
    by (simp add: create_new_root_def rp g0 gr get_unused_page_num_def
          table_get_page_fresh [OF room] Let_def get_node_max_key_leaf
          node_at_update_node node_at_pager_update get_node_type_def set_node_root_def)
qed

text \<open>
  Claim C5. The root is on page 0. When \<^verbatim>\<open>create_new_root(table, r)\<close> returns, there is a
  page \<open>L\<close> that was not in use before (at or beyond the old page count, different from 0
  and from \<open>r\<close>) which holds the old root page unchanged except for the cleared root flag
  and the parent reference 0; page 0 is an internal node marked root with one key, child 0
  is \<open>L\<close>, the rightmost child is \<open>r\<close>, and both children have parent 0. The key is the value
  that \<^verbatim>\<open>get_node_max_key\<close> returned for the left child (the copy with the cleared flag);
  for a leaf root it is the key of the root's last cell. The call does return when the
  root is a leaf, \<open>r\<close> is an existing page and the page store has room for one more page.
\<close>

theorem create_new_root_promotes:
  assumes "root_page_num t = 0" and "0 < num_pages (pager t)"
  shows "(\<forall>t'. create_new_root t r = Some (Inr (), t') \<longrightarrow>
           (\<exists>L. num_pages (pager t) \<le> L \<and> L \<noteq> 0 \<and> L \<noteq> r
              \<and> node_at t' L = set_node_parent 0 (set_node_root False (node_at t 0))
              \<and> get_node_type (node_at t' 0) = NODE_INTERNAL
              \<and> is_node_root (node_at t' 0)
              \<and> internal_node_num_keys (node_at t' 0) = 1
              \<and> internal_node_child (node_at t' 0) 0 = L
              \<and> internal_node_right_child (node_at t' 0) = r
              \<and> node_parent (node_at t' L) = 0
              \<and> node_parent (node_at t' r) = 0
              \<and> (\<exists>s s'. get_node_max_key s L
                            = Some (Inr (internal_node_key (node_at t' 0) 0), s')
                     \<and> node_at s L = set_node_root False (node_at t 0))
              \<and> (get_node_type (node_at t 0) = NODE_LEAF \<longrightarrow>
                    internal_node_key (node_at t' 0) 0
                      = leaf_node_key (node_at t 0) (leaf_node_num_cells (node_at t 0) - 1))))
       \<and> (r < num_pages (pager t) \<and> unat (num_pages (pager t)) < TABLE_MAX_PAGES
            \<and> get_node_type (node_at t 0) = NODE_LEAF
            \<longrightarrow> (\<exists>t'. create_new_root t r = Some (Inr (), t')))"
  using create_new_root_result [OF assms] create_new_root_returns [OF assms]
  by blast

lemma example_two_leaves_simps:
  "num_pages (pager example_two_leaves) = 2"
  "node_at example_two_leaves 0 = example_leaf"
  "node_at example_two_leaves 1 = initialize_leaf_node zero_page"
  "root_page_num example_two_leaves = 0"
  by (simp_all add: example_two_leaves_def node_at_def)

theorem create_new_root_promotes_witness:
  "root_page_num example_two_leaves = 0 \<and> 0 < num_pages (pager example_two_leaves)
   \<and> (\<exists>t'. create_new_root example_two_leaves 1 = Some (Inr (), t')
          \<and> get_node_type (node_at t' 0) = NODE_INTERNAL
          \<and> is_node_root (node_at t' 0)
          \<and> internal_node_num_keys (node_at t' 0) = 1
          \<and> internal_node_right_child (node_at t' 0) = 1
          \<and> internal_node_key (node_at t' 0) 0 = 30)"
proof -
  have h1: "root_page_num example_two_leaves = 0" and h2: "0 < num_pages (pager example_two_leaves)"
    by (simp_all add: example_two_leaves_simps)
  note inst = create_new_root_promotes [OF h1 h2, of 1]
  have pre: "1 < num_pages (pager example_two_leaves)
        \<and> unat (num_pages (pager example_two_leaves)) < TABLE_MAX_PAGES
        \<and> get_node_type (node_at example_two_leaves 0) = NODE_LEAF"
    by (simp add: example_two_leaves_simps TABLE_MAX_PAGES_def example_leaf_simps)
  with inst obtain t' where t': "create_new_root example_two_leaves 1 = Some (Inr (), t')"
    by blast
  with inst obtain L where L: "get_node_type (node_at t' 0) = NODE_INTERNAL"
      "is_node_root (node_at t' 0)" "internal_node_num_keys (node_at t' 0) = 1"
      "internal_node_right_child (node_at t' 0) = 1"
      "get_node_type (node_at example_two_leaves 0) = NODE_LEAF \<longrightarrow>
         internal_node_key (node_at t' 0) 0
           = leaf_node_key (node_at example_two_leaves 0)
               (leaf_node_num_cells (node_at example_two_leaves 0) - 1)"
    by blast
  have "internal_node_key (node_at t' 0) 0 = 30"
    using L(5) pre by (simp add: example_two_leaves_simps example_leaf_simps)
  then show ?thesis using h1 h2 t' L(1-4) by blast
qed

subsection \<open>C7 and C4: inserting a child into an internal node\<close>

lemma word_pred_facts:
  fixes i index :: u32
  assumes "index < i"
  shows "i - 1 < i" and "index \<le> i - 1" and "(j \<le> i - 1) = (j < i)"
proof -
  have "unat index < unat i" using assms by (simp add: word_less_nat_alt)
  then have i0: "0 < unat i" by simp
  then have u: "unat (i - 1) = unat i - 1" by (simp add: unat_minus_one unat_gt_0)
  show "i - 1 < i" using u i0 by (simp add: word_less_nat_alt)
  show "index \<le> i - 1" using u assms by (simp add: word_less_nat_alt word_le_nat_alt)
  show "(j \<le> i - 1) = (j < i)" using u i0
    by (auto simp: word_less_nat_alt word_le_nat_alt)
qed

lemma internal_shift_loop_body:
  "internal_shift_loop i index node =
     node\<lparr>internal_body := (\<lambda>j. if index < j \<and> j \<le> i then internal_body node (j - 1)
                                 else internal_body node j)\<rparr>"
proof (induction i index node rule: internal_shift_loop.induct)
  case (1 i index parent)
  show ?case
  proof (cases "index < i")
    case False
    then have "(if index < j \<and> j \<le> i then internal_body parent (j - 1)
                 else internal_body parent j) = internal_body parent j" for j by auto
    then show ?thesis using False
      by (subst internal_shift_loop.simps) simp
  next
    case True
    note wf = word_pred_facts [OF True]
    let ?p1 = "set_internal_node_cell i (internal_node_cell parent (i - 1)) parent"
    have "internal_shift_loop i index parent = internal_shift_loop (i - 1) index ?p1"
      using True by (subst internal_shift_loop.simps) simp
    also have "\<dots> = ?p1\<lparr>internal_body := (\<lambda>j. if index < j \<and> j \<le> i - 1
                                 then internal_body ?p1 (j - 1) else internal_body ?p1 j)\<rparr>"
      using "1.IH" [OF True] .
    also have "\<dots> = parent\<lparr>internal_body := (\<lambda>j. if index < j \<and> j \<le> i
                                 then internal_body parent (j - 1) else internal_body parent j)\<rparr>"
    proof -
      have "(if index < j \<and> j \<le> i - 1 then internal_body ?p1 (j - 1) else internal_body ?p1 j)
          = (if index < j \<and> j \<le> i then internal_body parent (j - 1) else internal_body parent j)"
        for j
      proof (cases "index < j \<and> j < i")
        case T: True
        then have "j - 1 < j" using word_pred_facts(1) by blast
        then have "j - 1 \<noteq> i" using T by auto
        moreover have "j \<le> i" using T by (auto intro: order_less_imp_le)
        ultimately show ?thesis using T wf(3) [of j]
          by (simp add: set_internal_node_cell_def internal_node_cell_def)
      next
        case F: False
        show ?thesis
        proof (cases "j = i")
          case True
          then show ?thesis using wf(1) \<open>index < i\<close> wf(3) [of j]
            by (simp add: set_internal_node_cell_def internal_node_cell_def)
        next
          case False
          then have c2: "\<not> (index < j \<and> j \<le> i)" using F by auto
          have c1: "\<not> (index < j \<and> j \<le> i - 1)" using F wf(3) [of j] by simp
          have "internal_body ?p1 j = internal_body parent j"
            using False by (simp add: set_internal_node_cell_def internal_node_cell_def)
          then show ?thesis unfolding if_not_P [OF c1] if_not_P [OF c2] .
        qed
      qed
      then have "(\<lambda>j. if index < j \<and> j \<le> i - 1 then internal_body ?p1 (j - 1) else internal_body ?p1 j)
          = (\<lambda>j. if index < j \<and> j \<le> i then internal_body parent (j - 1) else internal_body parent j)"
        by (rule ext)
      then show ?thesis by (simp add: set_internal_node_cell_def)
    qed
    finally show ?thesis .
  qed
qed

lemma leaf_shift_loop_body:
  "leaf_shift_loop i c node =
     node\<lparr>leaf_body := (\<lambda>j. if c < j \<and> j \<le> i then leaf_body node (j - 1)
                             else leaf_body node j)\<rparr>"
proof (induction i c node rule: leaf_shift_loop.induct)
  case (1 i c node)
  show ?case
  proof (cases "c < i")
    case False
    then have "(if c < j \<and> j \<le> i then leaf_body node (j - 1)
                 else leaf_body node j) = leaf_body node j" for j by auto
    then show ?thesis using False
      by (subst leaf_shift_loop.simps) simp
  next
    case True
    note wf = word_pred_facts [OF True]
    let ?p1 = "set_leaf_node_cell i (leaf_node_cell node (i - 1)) node"
    have "leaf_shift_loop i c node = leaf_shift_loop (i - 1) c ?p1"
      using True by (subst leaf_shift_loop.simps) simp
    also have "\<dots> = ?p1\<lparr>leaf_body := (\<lambda>j. if c < j \<and> j \<le> i - 1
                                 then leaf_body ?p1 (j - 1) else leaf_body ?p1 j)\<rparr>"
      using "1.IH" [OF True] .
    also have "\<dots> = node\<lparr>leaf_body := (\<lambda>j. if c < j \<and> j \<le> i
                                 then leaf_body node (j - 1) else leaf_body node j)\<rparr>"
    proof -
      have "(if c < j \<and> j \<le> i - 1 then leaf_body ?p1 (j - 1) else leaf_body ?p1 j)
          = (if c < j \<and> j \<le> i then leaf_body node (j - 1) else leaf_body node j)"
        for j
      proof (cases "c < j \<and> j < i")
        case T: True
        then have "j - 1 < j" using word_pred_facts(1) by blast
        then have "j - 1 \<noteq> i" using T by auto
        moreover have "j \<le> i" using T by (auto intro: order_less_imp_le)
        ultimately show ?thesis using T wf(3) [of j]
          by (simp add: set_leaf_node_cell_def leaf_node_cell_def)
      next
        case F: False
        show ?thesis
        proof (cases "j = i")
          case True
          then show ?thesis using wf(1) \<open>c < i\<close> wf(3) [of j]
            by (simp add: set_leaf_node_cell_def leaf_node_cell_def)
        next
          case False
          then have c2: "\<not> (c < j \<and> j \<le> i)" using F by auto
          have c1: "\<not> (c < j \<and> j \<le> i - 1)" using F wf(3) [of j] by simp
          have "leaf_body ?p1 j = leaf_body node j"
            using False by (simp add: set_leaf_node_cell_def leaf_node_cell_def)
          then show ?thesis unfolding if_not_P [OF c1] if_not_P [OF c2] .
        qed
      qed
      then have "(\<lambda>j. if c < j \<and> j \<le> i - 1 then leaf_body ?p1 (j - 1) else leaf_body ?p1 j)
          = (\<lambda>j. if c < j \<and> j \<le> i then leaf_body node (j - 1) else leaf_body node j)"
        by (rule ext)
      then show ?thesis by (simp add: set_leaf_node_cell_def)
    qed
    finally show ?thesis .
  qed
qed

lemma find_child_loop_returns:
  fixes lo hi :: u32
  assumes "unat hi < 2 ^ 31" "lo \<le> hi"
  shows "\<exists>r. find_child_loop node k lo hi = Some r \<and> lo \<le> r \<and> r \<le> hi"
  using assms
proof (induction "unat hi - unat lo" arbitrary: lo hi rule: less_induct)
  case less
  show ?case
  proof (cases "lo = hi")
    case True
    then show ?thesis by (subst find_child_loop.simps) simp
  next
    case False
    define mid where "mid = (lo + hi) div 2"
    have um: "unat mid = (unat lo + unat hi) div 2"
      unfolding mid_def using less.prems by (rule mid_unat)
    have lt: "unat lo < unat hi" using False less.prems(2)
      by (simp add: word_le_nat_alt word_unat_eq_iff)
    have lom: "lo \<le> mid" and mhi: "mid < hi"
      using um lt by (simp_all add: word_le_nat_alt word_less_nat_alt)
    have um1: "unat (mid + 1) = unat mid + 1"
      using mhi less.prems(1) by (simp add: unat_word_ariths word_less_nat_alt)
    have m1: "mid + 1 \<le> hi" "lo \<le> mid + 1"
      using um1 mhi lom by (simp_all add: word_le_nat_alt word_less_nat_alt)
    have mid31: "unat mid < 2 ^ 31" using mhi less.prems(1) by (simp add: word_less_nat_alt)
    have d1: "unat mid - unat lo < unat hi - unat lo" using um lt by simp
    have d2: "unat hi - unat (mid + 1) < unat hi - unat lo" using um um1 lt by simp
    from less.hyps [OF d1 mid31 lom]
    obtain r1 where r1: "find_child_loop node k lo mid = Some r1" "lo \<le> r1" "r1 \<le> mid"
      by blast
    from less.hyps [OF d2 less.prems(1) m1(1)]
    obtain r2 where r2: "find_child_loop node k (mid + 1) hi = Some r2" "mid + 1 \<le> r2" "r2 \<le> hi"
      by blast
    have "r1 \<le> hi" using r1(3) mhi by simp
    moreover have "lo \<le> r2" using r2(2) m1(2) by simp
    ultimately show ?thesis using False r1 r2
      by (subst find_child_loop.simps) (simp add: mid_def Let_def)
  qed
qed

lemma internal_node_find_child_returns:
  assumes "unat (internal_node_num_keys node) < 2 ^ 31"
  shows "\<exists>r. internal_node_find_child node k = Some r \<and> r \<le> internal_node_num_keys node"
  using find_child_loop_returns [OF assms, of 0 node k]
  by (auto simp: internal_node_find_child_def)

lemma internal_node_insert_leaf_children:
  assumes p: "p < num_pages (pager t)" and c: "c < num_pages (pager t)"
    and rc: "internal_node_right_child (node_at t p) < num_pages (pager t)"
    and cap: "unat (num_pages (pager t)) \<le> TABLE_MAX_PAGES"
    and tp: "get_node_type (node_at t p) = NODE_INTERNAL"
    and tc: "get_node_type (node_at t c) = NODE_LEAF"
    and trc: "get_node_type (node_at t (internal_node_right_child (node_at t p))) = NODE_LEAF"
    and idx: "internal_node_find_child (node_at t p)
                (leaf_node_key (node_at t c) (leaf_node_num_cells (node_at t c) - 1)) = Some index"
    and le: "index \<le> internal_node_num_keys (node_at t p)"
    and nowrap: "internal_node_num_keys (node_at t p) < internal_node_num_keys (node_at t p) + 1"
  shows "internal_node_insert imax t p c =
     (let orig = internal_node_num_keys (node_at t p);
          right = internal_node_right_child (node_at t p);
          child_max = leaf_node_key (node_at t c) (leaf_node_num_cells (node_at t c) - 1);
          right_max = leaf_node_key (node_at t right) (leaf_node_num_cells (node_at t right) - 1)
      in if orig \<ge> imax
         then Some (Inl InternalNodeFull,
                    update_node p (set_internal_node_num_keys (orig + 1)) t)
         else if child_max > right_max
         then Some (Inr (), update_node p (appended_parent c right right_max) t)
         else Some (Inr (), update_node p (inserted_parent index c child_max) t))"
proof -
  let ?P = "node_at t p"
  let ?orig = "internal_node_num_keys ?P"
  let ?rc = "internal_node_right_child ?P"
  have lt: "unat p < TABLE_MAX_PAGES" "unat c < TABLE_MAX_PAGES" "unat ?rc < TABLE_MAX_PAGES"
    using p c rc cap by (simp_all add: word_less_nat_alt)
  have pc: "p \<noteq> c" and prc: "p \<noteq> ?rc" using tp tc trc by auto
  have gp: "table_get_page s p = Inr s" "table_get_page s c = Inr s" "table_get_page s ?rc = Inr s"
    if "num_pages (pager s) = num_pages (pager t)" for s
    using that p c rc lt by (simp_all add: table_get_page_existing)
  let ?t4 = "update_node p (set_internal_node_num_keys (?orig + 1)) t"
  have rc4: "internal_node_right_child (node_at ?t4 p) = ?rc"
    by (simp add: node_at_update_node internal_node_right_child_def
          set_internal_node_num_keys_def)
  have leaf4: "get_node_type (node_at ?t4 ?rc) = NODE_LEAF" "node_at ?t4 ?rc = node_at t ?rc"
    using prc trc by (simp_all add: node_at_update_node)
  have ne: "index \<noteq> ?orig + 1" "?orig \<noteq> ?orig + 1"
    using le nowrap by auto
  show ?thesis
  proof (cases "?orig \<ge> imax")
    case True
    then show ?thesis
      by (simp add: internal_node_insert_def gp get_node_max_key_leaf tc idx Let_def)
  next
    case False
    let ?cm = "leaf_node_key (node_at t c) (leaf_node_num_cells (node_at t c) - 1)"
    let ?rm = "leaf_node_key (node_at t ?rc) (leaf_node_num_cells (node_at t ?rc) - 1)"
    show ?thesis
    proof (cases "?cm > ?rm")
      case T: True
      let ?t7 = "update_node p (set_internal_node_child ?orig ?rc) ?t4"
      have leaf7: "get_node_type (node_at ?t7 ?rc) = NODE_LEAF" "node_at ?t7 ?rc = node_at t ?rc"
        using prc trc by (simp_all add: node_at_update_node)
      have fin: "update_node p (set_internal_node_right_child c)
                  (update_node p (set_internal_node_key ?orig ?rm) ?t7)
               = update_node p (appended_parent c ?rc ?rm) t"
        unfolding update_node_twice
        apply (rule update_node_cong)
        using ne(2)
        apply (simp add: appended_parent_def set_internal_node_right_child_def
            set_internal_node_key_def set_internal_node_child_def set_internal_node_cell_def
            internal_node_cell_def set_internal_node_num_keys_def internal_node_num_keys_def)
        done
      show ?thesis
        using False T
        by (simp add: internal_node_insert_def gp get_node_max_key_leaf tc trc idx Let_def rc4
              leaf4 leaf7 fin)
    next
      case F: False
      have fin: "update_node p (set_internal_node_key index ?cm)
                  (update_node p (set_internal_node_child index c)
                    (update_node p (internal_shift_loop ?orig index) ?t4))
               = update_node p (inserted_parent index c ?cm) t"
        unfolding update_node_twice
        apply (rule update_node_cong)
        using ne(1)
        apply (simp add: inserted_parent_def internal_shift_loop_body
            set_internal_node_key_def set_internal_node_child_def set_internal_node_cell_def
            internal_node_cell_def set_internal_node_num_keys_def internal_node_num_keys_def
            fun_eq_iff)
        done
      show ?thesis
        using False F
        by (simp add: internal_node_insert_def gp get_node_max_key_leaf tc trc idx Let_def rc4
              leaf4 fin)
    qed
  qed
qed

lemma length_internal_cells [simp]:
  "length (internal_cells node) = unat (internal_node_num_keys node)"
  by (simp add: internal_cells_def)

lemma internal_cells_nth:
  "i < unat (internal_node_num_keys node) \<Longrightarrow>
     internal_cells node ! i = internal_node_cell node (of_nat i)"
  by (simp add: internal_cells_def)

lemma unat_of_nat_le:
  fixes w :: u32
  assumes "i \<le> unat w"
  shows "unat (of_nat i :: u32) = i"
proof -
  have "unat w < 2 ^ 32" using unsigned_less [of w, where 'a = nat] by simp
  then have "i < 2 ^ 32" using assms by simp
  then show ?thesis by (simp add: unat_of_nat)
qed

lemma unat_succ:
  fixes w :: u32
  assumes "w < w + 1"
  shows "unat (w + 1) = Suc (unat w)"
proof -
  have "1 + w \<noteq> 0"
  proof
    assume "1 + w = 0"
    then have "w + 1 = 0" by (simp add: add.commute)
    then show False using assms by simp
  qed
  from unatSuc [OF this] show ?thesis by (simp add: add.commute)
qed

lemma internal_cells_appended:
  assumes "internal_node_num_keys parent < internal_node_num_keys parent + 1"
  shows "internal_cells (appended_parent child right right_max parent)
           = internal_cells parent @ [(right, right_max)]"
proof (rule nth_equalityI)
  have n: "unat (hdr_count parent + 1) = Suc (unat (hdr_count parent))"
    using unat_succ assms by (simp add: internal_node_num_keys_def)
  show "length (internal_cells (appended_parent child right right_max parent))
          = length (internal_cells parent @ [(right, right_max)])"
    by (simp add: appended_parent_def internal_node_num_keys_def n)
  fix i
  assume "i < length (internal_cells (appended_parent child right right_max parent))"
  then have i: "i \<le> unat (hdr_count parent)"
    by (simp add: appended_parent_def internal_node_num_keys_def n)
  have ui: "unat (of_nat i :: u32) = i" using i by (rule unat_of_nat_le)
  have eq: "((of_nat i :: u32) = hdr_count parent) = (i = unat (hdr_count parent))"
    using ui by (auto simp: word_unat_eq_iff)
  have "i < unat (internal_node_num_keys (appended_parent child right right_max parent))"
    using i by (simp add: appended_parent_def internal_node_num_keys_def n)
  then have "internal_cells (appended_parent child right right_max parent) ! i
      = internal_node_cell (appended_parent child right right_max parent) (of_nat i)"
    by (rule internal_cells_nth)
  also have "\<dots> = (if i = unat (hdr_count parent) then (right, right_max)
                     else internal_body parent (of_nat i))"
    by (simp add: appended_parent_def internal_node_cell_def eq)
  also have "\<dots> = (internal_cells parent @ [(right, right_max)]) ! i"
    using i
    by (auto simp: nth_append internal_cells_nth internal_node_num_keys_def
          internal_node_cell_def)
  finally show "internal_cells (appended_parent child right right_max parent) ! i
          = (internal_cells parent @ [(right, right_max)]) ! i" .
qed

lemma internal_cells_inserted:
  assumes "internal_node_num_keys parent < internal_node_num_keys parent + 1"
    and "index \<le> internal_node_num_keys parent"
  shows "internal_cells (inserted_parent index child child_max parent)
           = insert_at (unat index) (child, child_max) (internal_cells parent)"
proof (rule nth_equalityI)
  have n: "unat (hdr_count parent + 1) = Suc (unat (hdr_count parent))"
    using unat_succ assms(1) by (simp add: internal_node_num_keys_def)
  have ix: "unat index \<le> unat (hdr_count parent)"
    using assms(2) by (simp add: word_le_nat_alt internal_node_num_keys_def)
  show "length (internal_cells (inserted_parent index child child_max parent))
          = length (insert_at (unat index) (child, child_max) (internal_cells parent))"
    by (simp add: inserted_parent_def internal_node_num_keys_def n)
  fix i
  assume "i < length (internal_cells (inserted_parent index child child_max parent))"
  then have i: "i \<le> unat (hdr_count parent)"
    by (simp add: inserted_parent_def internal_node_num_keys_def n)
  have ui: "unat (of_nat i :: u32) = i" using i by (rule unat_of_nat_le)
  have e1: "((of_nat i :: u32) = index) = (i = unat index)"
    using ui by (auto simp: word_unat_eq_iff)
  have e2: "(index < (of_nat i :: u32)) = (unat index < i)"
    using ui by (simp add: word_less_nat_alt)
  have e3: "((of_nat i :: u32) \<le> hdr_count parent)"
    using ui i by (simp add: word_le_nat_alt)
  have e4: "(of_nat i :: u32) - 1 = of_nat (i - 1)" if "0 < i"
    using that by (simp add: of_nat_diff)
  have "internal_cells (inserted_parent index child child_max parent) ! i
      = (if i = unat index then (child, child_max)
         else if unat index < i then internal_body parent (of_nat (i - 1))
         else internal_body parent (of_nat i))"
  proof -
    have "i < unat (internal_node_num_keys (inserted_parent index child child_max parent))"
      using i by (simp add: inserted_parent_def internal_node_num_keys_def n)
    then have "internal_cells (inserted_parent index child child_max parent) ! i
        = internal_node_cell (inserted_parent index child child_max parent) (of_nat i)"
      by (rule internal_cells_nth)
    also have "\<dots> = (if i = unat index then (child, child_max)
         else if unat index < i then internal_body parent (of_nat (i - 1))
         else internal_body parent (of_nat i))"
      using e4 by (auto simp: inserted_parent_def internal_node_cell_def e1 e2 e3)
    finally show ?thesis .
  qed
  also have "\<dots> = insert_at (unat index) (child, child_max) (internal_cells parent) ! i"
  proof -
    have "insert_at (unat index) (child, child_max) (internal_cells parent) ! i
        = (if i = unat index then (child, child_max)
           else if unat index < i then internal_cells parent ! (i - 1)
           else internal_cells parent ! i)"
      using ix i by (intro insert_at_nth) (simp_all add: internal_node_num_keys_def)
    also have "\<dots> = (if i = unat index then (child, child_max)
         else if unat index < i then internal_body parent (of_nat (i - 1))
         else internal_body parent (of_nat i))"
      using i ix
      by (auto simp: internal_cells_nth internal_node_num_keys_def internal_node_cell_def)
    finally show ?thesis by simp
  qed
  finally show "internal_cells (inserted_parent index child child_max parent) ! i
          = insert_at (unat index) (child, child_max) (internal_cells parent) ! i" .
qed

lemma example_parent_table_simps:
  "num_pages (pager example_parent_table) = 6"
  "node_at example_parent_table 0 = example_parent"
  "node_at example_parent_table 4 = example_leaf1 40"
  "node_at example_parent_table 5 = example_leaf1 25"
  "root_page_num example_parent_table = 0"
  by (simp_all add: example_parent_table_def node_at_def)

lemma example_leaf1_simps:
  "get_node_type (example_leaf1 k) = NODE_LEAF"
  "leaf_node_num_cells (example_leaf1 k) = 1"
  "leaf_node_key (example_leaf1 k) i = k"
  by (simp_all add: example_leaf1_def get_node_type_def leaf_node_num_cells_def
        leaf_node_key_def leaf_node_cell_def)

lemma example_parent_simps:
  "get_node_type example_parent = NODE_INTERNAL"
  "internal_node_num_keys example_parent = 3"
  "internal_node_right_child example_parent = 4"
  "internal_node_key example_parent i = (if i = 0 then 10 else if i = 1 then 20 else 30)"
  "internal_node_cell example_parent i
     = (if i = 0 then (1, 10) else if i = 1 then (2, 20) else (3, 30))"
  by (simp_all add: example_parent_def get_node_type_def internal_node_num_keys_def
        internal_node_right_child_def internal_node_key_def internal_node_cell_def zero_page_def)

lemma example_parent_find_child: "internal_node_find_child example_parent 25 = Some 2"
  by (simp add: internal_node_find_child_def find_child_loop.simps example_parent_simps)

lemma example_parent_cells: "internal_cells example_parent = [(1, 10), (2, 20), (3, 30)]"
  by (simp add: internal_cells_def example_parent_simps upt_rec)

lemma internal_node_insert_never_returns_when_full:
  assumes "p < num_pages (pager t)"
    and "imax \<le> internal_node_num_keys (node_at t p)"
    and "internal_node_insert imax t p c = Some (res, t')"
  shows "res \<noteq> Inr ()"
proof
  assume r: "res = Inr ()"
  from assms(3) r obtain t1 t2 cm t3 index where
    s: "table_get_page t p = Inr t1" "table_get_page t1 c = Inr t2"
       "get_node_max_key t2 c = Some (Inr cm, t3)"
       "internal_node_find_child (node_at t3 p) cm = Some index"
    by (auto simp: internal_node_insert_def split: sum.splits option.splits prod.splits)
  have "extends t t3"
    using s(1,2,3) table_get_page_extends get_node_max_key_extends extends_trans by blast
  then have "node_at t3 p = node_at t p" using assms(1) by (rule extends_node_at)
  then show False
    using assms(2,3) r s
    by (auto simp: internal_node_insert_def Let_def split: sum.splits option.splits prod.splits)
qed

lemma no_wrap_below:
  fixes a b :: u32
  assumes "a < b"
  shows "a < a + 1"
proof -
  have "unat a < unat b" using assms by (simp add: word_less_nat_alt)
  moreover have "unat b < 2 ^ 32" using unsigned_less [of b, where 'a = nat] by simp
  ultimately have "unat a + 1 < 2 ^ 32" by simp
  then have "unat (a + 1) = unat a + 1"
    using unat_add_lem [of a 1] by simp
  then show ?thesis by (simp add: word_less_nat_alt)
qed

lemma no_wrap_31:
  fixes a :: u32
  assumes "unat a < 2 ^ 31"
  shows "a < a + 1"
proof -
  have "unat a + 1 < 2 ^ 32" using assms by simp
  then have "unat (a + 1) = unat a + 1"
    using unat_add_lem [of a 1] by simp
  then show ?thesis by (simp add: word_less_nat_alt)
qed

text \<open>
  Claim C7. The parent is an internal node below its capacity, the new child and the
  parent's rightmost child are leaves (internal nodes are never split, so the children of
  an internal node are leaves), and the pages exist. Then \<^verbatim>\<open>internal_node_insert\<close> returns,
  the key count grows by one and no other page changes. If the child's maximum key exceeds
  the maximum key of the rightmost child, the child becomes the rightmost child and the old
  rightmost child is appended as a cell whose key is its own maximum. Otherwise the
  rightmost child stays and the cell (child page, child's maximum key) is inserted at the
  index \<^verbatim>\<open>internal_node_find_child\<close> gives, the cells from there on moving up by one.
\<close>

theorem internal_node_insert_places_child:
  assumes "p < num_pages (pager t)" and "c < num_pages (pager t)"
    and "right = internal_node_right_child (node_at t p)"
    and "right < num_pages (pager t)"
    and "unat (num_pages (pager t)) \<le> TABLE_MAX_PAGES"
    and "get_node_type (node_at t p) = NODE_INTERNAL"
    and "get_node_type (node_at t c) = NODE_LEAF"
    and "get_node_type (node_at t right) = NODE_LEAF"
    and "child_max = leaf_node_key (node_at t c) (leaf_node_num_cells (node_at t c) - 1)"
    and "right_max = leaf_node_key (node_at t right) (leaf_node_num_cells (node_at t right) - 1)"
    and "unat (internal_node_num_keys (node_at t p)) < 2 ^ 31"
    and "internal_node_num_keys (node_at t p) < imax"
  shows "\<exists>t'. internal_node_insert imax t p c = Some (Inr (), t')
           \<and> internal_node_num_keys (node_at t' p) = internal_node_num_keys (node_at t p) + 1
           \<and> (\<forall>n. n \<noteq> p \<longrightarrow> node_at t' n = node_at t n)
           \<and> (child_max > right_max \<longrightarrow>
                 internal_node_right_child (node_at t' p) = c
                 \<and> internal_cells (node_at t' p)
                     = internal_cells (node_at t p) @ [(right, right_max)])
           \<and> (\<not> child_max > right_max \<longrightarrow>
                 internal_node_right_child (node_at t' p) = right
                 \<and> (\<exists>index. internal_node_find_child (node_at t p) child_max = Some index
                       \<and> internal_cells (node_at t' p)
                           = insert_at (unat index) (c, child_max)
                               (internal_cells (node_at t p))))"
proof -
  let ?P = "node_at t p"
  from internal_node_find_child_returns [OF assms(11), of child_max]
  obtain index where idx: "internal_node_find_child ?P child_max = Some index"
    and le: "index \<le> internal_node_num_keys ?P" by blast
  have nowrap: "internal_node_num_keys ?P < internal_node_num_keys ?P + 1"
    using assms(12) by (rule no_wrap_below)
  have full: "\<not> imax \<le> internal_node_num_keys ?P" using assms(12) by simp
  note eq = internal_node_insert_leaf_children [OF assms(1,2) assms(4) [unfolded assms(3)]
      assms(5,6,7) assms(8) [unfolded assms(3)] idx [unfolded assms(9)] le nowrap, of imax]
  show ?thesis
  proof (cases "child_max > right_max")
    case True
    have "internal_node_insert imax t p c
        = Some (Inr (), update_node p (appended_parent c right right_max) t)"
      using eq True full by (simp add: Let_def assms(3,9,10) [symmetric])
    moreover have "internal_cells (appended_parent c right right_max ?P)
        = internal_cells ?P @ [(right, right_max)]"
      using nowrap by (rule internal_cells_appended)
    ultimately show ?thesis using True
      by (simp add: node_at_update_node)
         (simp add: appended_parent_def internal_node_num_keys_def internal_node_right_child_def)
  next
    case False
    have "internal_node_insert imax t p c
        = Some (Inr (), update_node p (inserted_parent index c child_max) t)"
      using eq False full by (simp add: Let_def assms(3,9,10) [symmetric])
    moreover have "internal_cells (inserted_parent index c child_max ?P)
        = insert_at (unat index) (c, child_max) (internal_cells ?P)"
      using nowrap le by (rule internal_cells_inserted)
    ultimately show ?thesis using False idx
      by (simp add: node_at_update_node)
         (simp add: inserted_parent_def internal_node_num_keys_def internal_node_right_child_def
            assms(3))
  qed
qed

theorem internal_node_insert_places_child_witness:
  "(0::u32) < num_pages (pager example_parent_table)
   \<and> (5::u32) < num_pages (pager example_parent_table)
   \<and> internal_node_num_keys (node_at example_parent_table 0) < 4
   \<and> (\<exists>t'. internal_node_insert 4 example_parent_table 0 5 = Some (Inr (), t')
          \<and> internal_node_num_keys (node_at t' 0) = 4
          \<and> internal_node_right_child (node_at t' 0) = 4
          \<and> internal_cells (node_at t' 0) = [(1, 10), (2, 20), (5, 25), (3, 30)])"
proof -
  have h1: "(0::u32) < num_pages (pager example_parent_table)"
    and h2: "(5::u32) < num_pages (pager example_parent_table)"
    and h3: "(4::u32) = internal_node_right_child (node_at example_parent_table 0)"
    and h4: "(4::u32) < num_pages (pager example_parent_table)"
    and h5: "unat (num_pages (pager example_parent_table)) \<le> TABLE_MAX_PAGES"
    and h6: "get_node_type (node_at example_parent_table 0) = NODE_INTERNAL"
    and h7: "get_node_type (node_at example_parent_table 5) = NODE_LEAF"
    and h8: "get_node_type (node_at example_parent_table 4) = NODE_LEAF"
    and h9: "(25::u32) = leaf_node_key (node_at example_parent_table 5)
               (leaf_node_num_cells (node_at example_parent_table 5) - 1)"
    and h10: "(40::u32) = leaf_node_key (node_at example_parent_table 4)
               (leaf_node_num_cells (node_at example_parent_table 4) - 1)"
    and h11: "unat (internal_node_num_keys (node_at example_parent_table 0)) < 2 ^ 31"
    and h12: "internal_node_num_keys (node_at example_parent_table 0) < 4"
    by (simp_all add: example_parent_table_simps example_parent_simps example_leaf1_simps
          TABLE_MAX_PAGES_def)
  from internal_node_insert_places_child [OF h1 h2 h3 h4 h5 h6 h7 h8 h9 h10 h11 h12]
  obtain t' index where t':
    "internal_node_insert 4 example_parent_table 0 5 = Some (Inr (), t')"
    "internal_node_num_keys (node_at t' 0) = internal_node_num_keys (node_at example_parent_table 0) + 1"
    "internal_node_right_child (node_at t' 0) = 4"
    "internal_node_find_child (node_at example_parent_table 0) 25 = Some index"
    "internal_cells (node_at t' 0)
       = insert_at (unat index) (5, 25) (internal_cells (node_at example_parent_table 0))"
    by auto
  have "index = 2"
    using t'(4) by (simp add: example_parent_table_simps example_parent_find_child)
  then have "internal_cells (node_at t' 0) = [(1, 10), (2, 20), (5, 25), (3, 30)]"
    using t'(5) by (simp add: example_parent_table_simps example_parent_cells insert_at_def)
  moreover have "internal_node_num_keys (node_at t' 0) = 4"
    using t'(2) by (simp add: example_parent_table_simps example_parent_simps)
  ultimately show ?thesis
    by (intro conjI h1 h2 h12 exI [of _ t'] t'(1,3))
qed

text \<open>
  Claim C4, as amended. On a parent whose key count is at least the capacity,
  \<^verbatim>\<open>internal_node_insert\<close> never returns normally. In the situation of claim C7 it exits with
  the capacity condition, and at that moment the table is the one it was called with
  except for one field: the parent's key count, which has already been incremented.
\<close>

theorem internal_node_insert_full_parent:
  assumes "p < num_pages (pager t)"
    and "imax \<le> internal_node_num_keys (node_at t p)"
  shows "(\<forall>res t'. internal_node_insert imax t p c = Some (res, t') \<longrightarrow> res \<noteq> Inr ())
       \<and> (c < num_pages (pager t)
            \<and> internal_node_right_child (node_at t p) < num_pages (pager t)
            \<and> unat (num_pages (pager t)) \<le> TABLE_MAX_PAGES
            \<and> get_node_type (node_at t p) = NODE_INTERNAL
            \<and> get_node_type (node_at t c) = NODE_LEAF
            \<and> get_node_type (node_at t (internal_node_right_child (node_at t p))) = NODE_LEAF
            \<and> unat (internal_node_num_keys (node_at t p)) < 2 ^ 31
            \<longrightarrow> internal_node_insert imax t p c
                  = Some (Inl InternalNodeFull,
                          update_node p
                            (set_internal_node_num_keys (internal_node_num_keys (node_at t p) + 1))
                            t))"
proof (intro conjI allI impI)
  fix res t'
  assume "internal_node_insert imax t p c = Some (res, t')"
  with assms show "res \<noteq> Inr ()" by (rule internal_node_insert_never_returns_when_full)
next
  assume a: "c < num_pages (pager t)
            \<and> internal_node_right_child (node_at t p) < num_pages (pager t)
            \<and> unat (num_pages (pager t)) \<le> TABLE_MAX_PAGES
            \<and> get_node_type (node_at t p) = NODE_INTERNAL
            \<and> get_node_type (node_at t c) = NODE_LEAF
            \<and> get_node_type (node_at t (internal_node_right_child (node_at t p))) = NODE_LEAF
            \<and> unat (internal_node_num_keys (node_at t p)) < 2 ^ 31"
  let ?cm = "leaf_node_key (node_at t c) (leaf_node_num_cells (node_at t c) - 1)"
  from a internal_node_find_child_returns [of "node_at t p" ?cm]
  obtain index where idx: "internal_node_find_child (node_at t p) ?cm = Some index"
    and le: "index \<le> internal_node_num_keys (node_at t p)" by blast
  have nowrap: "internal_node_num_keys (node_at t p) < internal_node_num_keys (node_at t p) + 1"
    using a by (intro no_wrap_31) simp
  from a have b: "c < num_pages (pager t)"
      "internal_node_right_child (node_at t p) < num_pages (pager t)"
      "unat (num_pages (pager t)) \<le> TABLE_MAX_PAGES"
      "get_node_type (node_at t p) = NODE_INTERNAL"
      "get_node_type (node_at t c) = NODE_LEAF"
      "get_node_type (node_at t (internal_node_right_child (node_at t p))) = NODE_LEAF"
    by simp_all
  from internal_node_insert_leaf_children [OF assms(1) b idx le nowrap, of imax] assms(2)
  show "internal_node_insert imax t p c
          = Some (Inl InternalNodeFull,
                  update_node p
                    (set_internal_node_num_keys (internal_node_num_keys (node_at t p) + 1)) t)"
    by (simp add: Let_def)
qed

text \<open>
  Claim C4 as stated (the key count is unchanged when the failure is raised) fails: a
  parent with three keys and capacity three is left with a key count of four.
\<close>

theorem internal_node_insert_full_parent_counterexample:
  "internal_node_insert 3 example_parent_table 0 5
     = Some (Inl InternalNodeFull,
             update_node 0 (set_internal_node_num_keys 4) example_parent_table)
   \<and> internal_node_num_keys (node_at example_parent_table 0) = 3
   \<and> internal_node_num_keys
        (node_at (update_node 0 (set_internal_node_num_keys 4) example_parent_table) 0) = 4"
proof -
  have h: "(0::u32) < num_pages (pager example_parent_table)"
      "(5::u32) < num_pages (pager example_parent_table)"
      "internal_node_right_child (node_at example_parent_table 0)
         < num_pages (pager example_parent_table)"
      "unat (num_pages (pager example_parent_table)) \<le> TABLE_MAX_PAGES"
      "get_node_type (node_at example_parent_table 0) = NODE_INTERNAL"
      "get_node_type (node_at example_parent_table 5) = NODE_LEAF"
      "get_node_type (node_at example_parent_table
         (internal_node_right_child (node_at example_parent_table 0))) = NODE_LEAF"
      "internal_node_find_child (node_at example_parent_table 0)
         (leaf_node_key (node_at example_parent_table 5)
            (leaf_node_num_cells (node_at example_parent_table 5) - 1)) = Some 2"
      "(2::u32) \<le> internal_node_num_keys (node_at example_parent_table 0)"
      "internal_node_num_keys (node_at example_parent_table 0)
         < internal_node_num_keys (node_at example_parent_table 0) + 1"
    by (simp_all add: example_parent_table_simps example_parent_simps example_leaf1_simps
          TABLE_MAX_PAGES_def example_parent_find_child)
  from internal_node_insert_leaf_children [OF h, of 3]
  have "internal_node_insert 3 example_parent_table 0 5
     = Some (Inl InternalNodeFull,
             update_node 0 (set_internal_node_num_keys 4) example_parent_table)"
    by (simp add: Let_def example_parent_table_simps example_parent_simps)
  moreover have "internal_node_num_keys (node_at example_parent_table 0) = 3"
    by (simp add: example_parent_table_simps example_parent_simps)
  moreover have "internal_node_num_keys
        (node_at (update_node 0 (set_internal_node_num_keys 4) example_parent_table) 0) = 4"
    by (simp add: node_at_update_node set_internal_node_num_keys_def internal_node_num_keys_def)
  ultimately show ?thesis by simp
qed

theorem internal_node_insert_full_parent_witness:
  "(0::u32) < num_pages (pager example_parent_table)
   \<and> (3::u32) \<le> internal_node_num_keys (node_at example_parent_table 0)
   \<and> internal_node_insert 3 example_parent_table 0 5
       = Some (Inl InternalNodeFull,
               update_node 0 (set_internal_node_num_keys 4) example_parent_table)"
proof -
  have h1: "(0::u32) < num_pages (pager example_parent_table)"
    and h2: "(3::u32) \<le> internal_node_num_keys (node_at example_parent_table 0)"
    by (simp_all add: example_parent_table_simps example_parent_simps)
  have pre: "(5::u32) < num_pages (pager example_parent_table)
            \<and> internal_node_right_child (node_at example_parent_table 0)
                < num_pages (pager example_parent_table)
            \<and> unat (num_pages (pager example_parent_table)) \<le> TABLE_MAX_PAGES
            \<and> get_node_type (node_at example_parent_table 0) = NODE_INTERNAL
            \<and> get_node_type (node_at example_parent_table 5) = NODE_LEAF
            \<and> get_node_type (node_at example_parent_table
                 (internal_node_right_child (node_at example_parent_table 0))) = NODE_LEAF
            \<and> unat (internal_node_num_keys (node_at example_parent_table 0)) < 2 ^ 31"
    by (simp add: example_parent_table_simps example_parent_simps example_leaf1_simps
          TABLE_MAX_PAGES_def)
  from internal_node_insert_full_parent [OF h1 h2, of 5] pre
  have "internal_node_insert 3 example_parent_table 0 5
       = Some (Inl InternalNodeFull,
               update_node 0 (set_internal_node_num_keys
                 (internal_node_num_keys (node_at example_parent_table 0) + 1))
                 example_parent_table)"
    by blast
  then show ?thesis using h1 h2
    by (simp add: example_parent_table_simps example_parent_simps)
qed

subsection \<open>C9: one root, on page 0\<close>

lemma zero_page_not_root: "\<not> is_node_root zero_page"
  by (simp add: is_node_root_def zero_page_def)

lemma rii_extends:
  assumes "root_inv_internal T t" and "extends t t'"
  shows "root_inv_internal T t'"
proof -
  have rp: "root_page_num t = 0" and np: "0 < num_pages (pager t)"
    and fl: "\<And>k. is_node_root (node_at t k) \<longleftrightarrow> k = 0"
    and ty: "T \<longrightarrow> get_node_type (node_at t 0) = NODE_INTERNAL"
    using assms(1) by (simp_all add: root_inv_internal_def root_inv_def)
  have e1: "root_page_num t' = root_page_num t"
    and e2: "num_pages (pager t) \<le> num_pages (pager t')"
    and e3: "\<And>k. node_at t' k = node_at t k
                \<or> (num_pages (pager t) \<le> k \<and> node_at t' k = zero_page)"
    using assms(2) by (simp_all add: extends_def)
  have z: "node_at t' 0 = node_at t 0" using e3 [of 0] np by auto
  have "is_node_root (node_at t' k) \<longleftrightarrow> k = 0" for k
  proof (cases "node_at t' k = node_at t k")
    case True
    then show ?thesis using fl by simp
  next
    case False
    then have "num_pages (pager t) \<le> k" "node_at t' k = zero_page" using e3 [of k] by auto
    then show ?thesis using np zero_page_not_root by auto
  qed
  moreover have "0 < num_pages (pager t')" using np e2 by (rule order_less_le_trans)
  ultimately show ?thesis using e1 rp ty z
    by (simp add: root_inv_internal_def root_inv_def)
qed

lemma rii_get_page:
  "root_inv_internal T t \<Longrightarrow> table_get_page t n = Inr t' \<Longrightarrow> root_inv_internal T t'"
  using rii_extends table_get_page_extends by blast

lemma rii_max_key:
  "root_inv_internal T t \<Longrightarrow> get_node_max_key t n = Some (res, t') \<Longrightarrow> root_inv_internal T t'"
  using rii_extends get_node_max_key_extends by blast

lemma rii_update_node:
  assumes "root_inv_internal T t"
    and "n = 0 \<Longrightarrow> hdr_is_root (f (node_at t 0))
                  \<and> (T \<longrightarrow> hdr_type (f (node_at t 0)) = NODE_INTERNAL)"
    and "n \<noteq> 0 \<Longrightarrow> \<not> hdr_is_root (f (node_at t n))"
  shows "root_inv_internal T (update_node n f t)"
  using assms
  by (auto simp: root_inv_internal_def root_inv_def node_at_update_node is_node_root_def
        get_node_type_def)

lemma rii_update_safe:
  assumes "root_inv_internal T t" and "header_safe f"
  shows "root_inv_internal T (update_node n f t)"
  using assms
  by (auto simp: root_inv_internal_def root_inv_def node_at_update_node is_node_root_def
        get_node_type_def header_safe_def)

lemma header_safe_setters:
  "header_safe (set_node_parent v)"
  "header_safe (set_leaf_node_num_cells v)"
  "header_safe (set_leaf_node_next_leaf v)"
  "header_safe (set_leaf_node_cell i c)"
  "header_safe (set_leaf_node_key i k)"
  "header_safe (set_leaf_node_value i r)"
  "header_safe (set_internal_node_num_keys v)"
  "header_safe (set_internal_node_right_child v)"
  "header_safe (set_internal_node_cell i d)"
  "header_safe (set_internal_node_key i k)"
  "header_safe (set_internal_node_child i v)"
  "header_safe (internal_shift_loop a b)"
  "header_safe (leaf_shift_loop a b)"
  "header_safe (\<lambda>node. set_leaf_node_num_cells (leaf_node_num_cells node + 1) node)"
  by (simp_all add: header_safe_def set_node_parent_def set_leaf_node_num_cells_def
        set_leaf_node_next_leaf_def set_leaf_node_cell_def set_leaf_node_key_def
        set_leaf_node_value_def set_internal_node_num_keys_def
        set_internal_node_right_child_def set_internal_node_cell_def
        set_internal_node_key_def set_internal_node_child_def
        internal_shift_loop_body leaf_shift_loop_body)

lemma leaf_node_find_extends:
  "leaf_node_find fresh t p k = Some (res, t') \<Longrightarrow> extends t t'"
  by (auto simp: leaf_node_find_def Let_def extends_refl split: sum.splits option.splits
           dest: table_get_page_extends)

lemma internal_node_find_extends_aux:
  assumes "internal_node_find fresh t p k = Some y"
  shows "extends t (snd y)"
proof (rule internal_node_find.raw_induct
    [where P = "\<lambda>fresh t p k y. extends t (snd y)", OF _ assms])
  fix find fresh t p k y
  assume IH: "\<And>fresh t p k y. find fresh t p k = Some y \<Longrightarrow> extends t (snd y)"
    and body: "(case table_get_page t p of
        Inl e \<Rightarrow> Some (Inl e, t)
      | Inr t1 \<Rightarrow>
          (case internal_node_find_child (node_at t1 p) k of
             None \<Rightarrow> None
           | Some child_index \<Rightarrow>
               (let child_num = internal_node_child (node_at t1 p) child_index
                in case table_get_page t1 child_num of
                     Inl e \<Rightarrow> Some (Inl e, t1)
                   | Inr t2 \<Rightarrow>
                       (case get_node_type (node_at t2 child_num) of
                          NODE_LEAF \<Rightarrow> leaf_node_find fresh t2 child_num k
                        | NODE_INTERNAL \<Rightarrow> find fresh t2 child_num k)))) = Some y"
  show "extends t (snd y)"
  proof (cases "table_get_page t p")
    case (Inl e)
    then show ?thesis using body by (auto simp: extends_refl)
  next
    case (Inr t1)
    note e1 = table_get_page_extends [OF Inr]
    from body Inr obtain ci where ci: "internal_node_find_child (node_at t1 p) k = Some ci"
      by (auto split: option.splits)
    let ?cn = "internal_node_child (node_at t1 p) ci"
    show ?thesis
    proof (cases "table_get_page t1 ?cn")
      case (Inl e)
      then show ?thesis using body Inr ci e1 by (auto simp: Let_def)
    next
      case I2: (Inr t2)
      note e2 = table_get_page_extends [OF I2]
      have e12: "extends t t2" using e1 e2 by (rule extends_trans)
      show ?thesis
      proof (cases "get_node_type (node_at t2 ?cn)")
        case NODE_LEAF
        then have "leaf_node_find fresh t2 ?cn k = Some y"
          using body Inr ci I2 by (simp add: Let_def)
        then have "extends t2 (snd y)" using leaf_node_find_extends [of fresh t2 ?cn k "fst y" "snd y"]
          by simp
        then show ?thesis using e12 extends_trans by blast
      next
        case NODE_INTERNAL
        then have "find fresh t2 ?cn k = Some y"
          using body Inr ci I2 by (simp add: Let_def)
        then have "extends t2 (snd y)" by (rule IH)
        then show ?thesis using e12 extends_trans by blast
      qed
    qed
  qed
qed

lemma internal_node_find_extends:
  "internal_node_find fresh t p k = Some (res, t') \<Longrightarrow> extends t t'"
  using internal_node_find_extends_aux by fastforce

lemma table_find_extends:
  assumes "table_find fresh t k = Some (res, t')"
  shows "extends t t'"
proof (cases "table_get_page t (root_page_num t)")
  case (Inl e)
  then show ?thesis using assms by (auto simp: table_find_def extends_refl)
next
  case (Inr t1)
  note e1 = table_get_page_extends [OF Inr]
  have "extends t1 t'"
    using assms Inr leaf_node_find_extends internal_node_find_extends
    by (auto simp: table_find_def Let_def split: if_splits)
  then show ?thesis using e1 extends_trans by blast
qed

lemma table_start_extends:
  assumes "table_start fresh t = Some (res, t')"
  shows "extends t t'"
proof -
  from assms obtain r1 t1 where f: "table_find fresh t 0 = Some (r1, t1)"
    by (auto simp: table_start_def split: option.splits)
  note e1 = table_find_extends [OF f]
  show ?thesis
  proof (cases r1)
    case (Inl e)
    then show ?thesis using assms f e1 by (auto simp: table_start_def)
  next
    case (Inr cursor)
    show ?thesis
    proof (cases "table_get_page t1 (page_num cursor)")
      case (Inl e)
      then show ?thesis using assms f Inr e1 by (auto simp: table_start_def)
    next
      case I2: (Inr t2)
      then have "t' = t2" using assms f Inr by (auto simp: table_start_def Let_def)
      then show ?thesis using e1 table_get_page_extends [OF I2] extends_trans by blast
    qed
  qed
qed

lemma cursor_advance_extends:
  "cursor_advance cursor t = (res, t') \<Longrightarrow> extends t t'"
  by (auto simp: cursor_advance_def Let_def extends_refl split: sum.splits if_splits
           dest: table_get_page_extends)

lemma cursor_value_extends:
  "cursor_value cursor t = (res, t') \<Longrightarrow> extends t t'"
  by (auto simp: cursor_value_def Let_def extends_refl split: sum.splits
           dest: table_get_page_extends)

lemma rii_update_internal_node_key:
  "root_inv_internal T t \<Longrightarrow> update_internal_node_key n ok nk t = Some t'
     \<Longrightarrow> root_inv_internal T t'"
  by (auto simp: update_internal_node_key_def header_safe_setters split: option.splits
           intro: rii_update_safe)

lemma rii_internal_node_insert:
  assumes "root_inv_internal T t" and "internal_node_insert imax t p c = Some (res, t')"
  shows "root_inv_internal T t'"
proof (cases "table_get_page t p")
  case (Inl e)
  then show ?thesis using assms by (auto simp: internal_node_insert_def)
next
  case (Inr t1)
  note i1 = rii_get_page [OF assms(1) Inr]
  show ?thesis
  proof (cases "table_get_page t1 c")
    case (Inl e)
    then show ?thesis using assms(2) Inr i1 by (auto simp: internal_node_insert_def)
  next
    case I2: (Inr t2)
    note i2 = rii_get_page [OF i1 I2]
    from assms(2) Inr I2 obtain r3 t3 where m3: "get_node_max_key t2 c = Some (r3, t3)"
      by (auto simp: internal_node_insert_def split: option.splits)
    note i3 = rii_max_key [OF i2 m3]
    show ?thesis
    proof (cases r3)
      case (Inl e)
      then show ?thesis using assms(2) Inr I2 m3 i3 by (auto simp: internal_node_insert_def)
    next
      case R3: (Inr child_max_key)
      from assms(2) Inr I2 m3 R3 obtain index where
        idx: "internal_node_find_child (node_at t3 p) child_max_key = Some index"
        by (auto simp: internal_node_insert_def split: option.splits)
      let ?orig = "internal_node_num_keys (node_at t3 p)"
      let ?t4 = "update_node p (set_internal_node_num_keys (?orig + 1)) t3"
      have i4: "root_inv_internal T ?t4"
        using i3 by (intro rii_update_safe header_safe_setters)
      show ?thesis
      proof (cases "imax \<le> ?orig")
        case True
        then show ?thesis using assms(2) Inr I2 m3 R3 idx i4
          by (auto simp: internal_node_insert_def Let_def)
      next
        case False
        let ?rc = "internal_node_right_child (node_at ?t4 p)"
        show ?thesis
        proof (cases "table_get_page ?t4 ?rc")
          case (Inl e)
          then show ?thesis using assms(2) Inr I2 m3 R3 idx i4 False
            by (auto simp: internal_node_insert_def Let_def)
        next
          case I5: (Inr t5)
          note i5 = rii_get_page [OF i4 I5]
          from assms(2) Inr I2 m3 R3 idx False I5 obtain r6 t6 where
            m6: "get_node_max_key t5 ?rc = Some (r6, t6)"
            by (auto simp: internal_node_insert_def Let_def split: option.splits)
          note i6 = rii_max_key [OF i5 m6]
          show ?thesis
          proof (cases r6)
            case (Inl e)
            then show ?thesis using assms(2) Inr I2 m3 R3 idx False I5 m6 i6
              by (auto simp: internal_node_insert_def Let_def)
          next
            case R6: (Inr right_max)
            show ?thesis
            proof (cases "child_max_key > right_max")
              case True
              let ?t7 = "update_node p (set_internal_node_child ?orig ?rc) t6"
              have i7: "root_inv_internal T ?t7"
                using i6 by (intro rii_update_safe header_safe_setters)
              from assms(2) Inr I2 m3 R3 idx False I5 m6 R6 True obtain r8 t8 where
                m8: "get_node_max_key ?t7 ?rc = Some (r8, t8)"
                by (auto simp: internal_node_insert_def Let_def split: option.splits)
              note i8 = rii_max_key [OF i7 m8]
              show ?thesis
              proof (cases r8)
                case (Inl e)
                then show ?thesis using assms(2) Inr I2 m3 R3 idx False I5 m6 R6 True m8 i8
                  by (auto simp: internal_node_insert_def Let_def)
              next
                case R8: (Inr rm')
                have "t' = update_node p (set_internal_node_right_child c)
                             (update_node p (set_internal_node_key ?orig rm') t8)"
                  using assms(2) Inr I2 m3 R3 idx False I5 m6 R6 True m8 R8
                  by (auto simp: internal_node_insert_def Let_def)
                then show ?thesis using i8
                  by (auto intro!: rii_update_safe header_safe_setters)
              qed
            next
              case F: False
              have "t' = update_node p (set_internal_node_key index child_max_key)
                           (update_node p (set_internal_node_child index c)
                              (update_node p (internal_shift_loop ?orig index) t6))"
                using assms(2) Inr I2 m3 R3 idx False I5 m6 R6 F
                by (auto simp: internal_node_insert_def Let_def)
              then show ?thesis using i6
                by (auto intro!: rii_update_safe header_safe_setters)
            qed
          qed
        qed
      qed
    qed
  qed
qed

lemma rii_create_new_root:
  assumes "root_inv_internal T t" and "create_new_root t r = Some (res, t')"
  shows "root_inv_internal T t'"
proof -
  have rp: "root_page_num t = 0" using assms(1) by (simp add: root_inv_internal_def root_inv_def)
  show ?thesis
  proof (cases "table_get_page t 0")
    case (Inl e)
    then show ?thesis using assms by (auto simp: create_new_root_def rp)
  next
    case (Inr t1)
    note i1 = rii_get_page [OF assms(1) Inr]
    show ?thesis
    proof (cases "table_get_page t1 r")
      case (Inl e)
      then show ?thesis using assms(2) Inr i1 by (auto simp: create_new_root_def rp)
    next
      case I2: (Inr t2)
      note i2 = rii_get_page [OF i1 I2]
      let ?L = "num_pages (pager t2)"
      have L0: "?L \<noteq> 0" using i2 by (auto simp: root_inv_internal_def root_inv_def)
      show ?thesis
      proof (cases "table_get_page t2 ?L")
        case (Inl e)
        then show ?thesis using assms(2) Inr I2 i2
          by (auto simp: create_new_root_def rp get_unused_page_num_def Let_def)
      next
        case I3: (Inr t3)
        note i3 = rii_get_page [OF i2 I3]
        let ?t5 = "update_node ?L (\<lambda>node. set_node_root False (node_at t3 0)) t3"
        let ?t9 = "update_node 0 (\<lambda>node. set_internal_node_child 0 ?L
                     (set_internal_node_num_keys 1
                        (set_node_root True (initialize_internal_node node)))) ?t5"
        have i5: "root_inv_internal T ?t5"
          by (rule rii_update_node [OF i3]) (use L0 in \<open>simp_all add: set_node_root_def\<close>)
        have i9: "root_inv_internal T ?t9"
          by (rule rii_update_node [OF i5])
            (simp_all add: set_node_root_def set_internal_node_child_def
               set_internal_node_num_keys_def initialize_internal_node_def set_node_type_def
               set_internal_node_right_child_def set_internal_node_cell_def)
        have t9: "update_node 0 (set_internal_node_child 0 ?L)
                   (update_node 0 (set_internal_node_num_keys 1)
                     (update_node 0 (set_node_root True)
                       (update_node 0 initialize_internal_node
                         (update_node ?L (set_node_root False)
                           (update_node ?L (\<lambda>_. node_at t3 0) t3))))) = ?t9"
          by (simp add: update_node_twice)
        from assms(2) Inr I2 I3 obtain r10 t10 where
          m: "get_node_max_key ?t9 ?L = Some (r10, t10)"
          by (auto simp: create_new_root_def rp get_unused_page_num_def Let_def t9
                   split: option.splits)
        note i10 = rii_max_key [OF i9 m]
        show ?thesis
        proof (cases r10)
          case (Inl e)
          then show ?thesis using assms(2) Inr I2 I3 m i10
            by (auto simp: create_new_root_def rp get_unused_page_num_def Let_def t9)
        next
          case R: (Inr k)
          have "t' = update_node r (set_node_parent (root_page_num t10))
                   (update_node ?L (set_node_parent (root_page_num t10))
                     (update_node 0 (set_internal_node_right_child r)
                       (update_node 0 (set_internal_node_key 0 k) t10)))"
            using assms(2) Inr I2 I3 m R
            by (auto simp: create_new_root_def rp get_unused_page_num_def Let_def t9)
          then show ?thesis using i10
            by (auto intro!: rii_update_safe header_safe_setters)
        qed
      qed
    qed
  qed
qed

lemma create_new_root_internal:
  assumes "root_inv t" and "create_new_root t r = Some (Inr (), t')"
  shows "get_node_type (node_at t' 0) = NODE_INTERNAL"
proof -
  have "root_page_num t = 0" "0 < num_pages (pager t)"
    using assms(1) by (simp_all add: root_inv_def)
  from create_new_root_result [OF this assms(2)] show ?thesis by blast
qed

lemma rii_split_loop_nat:
  "root_inv_internal T t \<Longrightarrow>
     root_inv_internal T (split_loop (int n - 1) cursor key val old new t)"
proof (induction n arbitrary: t)
  case 0
  then show ?case by (simp add: split_loop_neg)
next
  case (Suc n)
  let ?t1 = "update_node (if (of_nat n :: u32) \<ge> 7 then new else old)
          (set_leaf_node_cell ((of_nat n :: u32) mod 7)
             (split_source cursor key val (node_at t old) (of_nat n))) t"
  have "root_inv_internal T ?t1"
    using Suc.prems by (intro rii_update_safe header_safe_setters)
  then have "root_inv_internal T (split_loop (int n - 1) cursor key val old new ?t1)"
    by (rule Suc.IH)
  then show ?case using split_loop_unfold [of n cursor key val old new t] by simp
qed

lemma rii_split_loop:
  assumes "root_inv_internal T t"
  shows "root_inv_internal T (split_loop i cursor key val old new t)"
proof (cases "i < 0")
  case True
  then show ?thesis using assms by (simp add: split_loop_neg)
next
  case False
  then have "i = int (Suc (nat i)) - 1" by simp
  then show ?thesis using rii_split_loop_nat [OF assms, of "Suc (nat i)"] by metis
qed

lemma rii_leaf_node_split:
  assumes "root_inv_internal T t" and "leaf_node_split cursor key val t = Some (res, t')"
  shows "root_inv_internal T t'"
proof (cases "table_get_page t (page_num cursor)")
  case (Inl e)
  then show ?thesis using assms by (auto simp: leaf_node_split_def)
next
  case (Inr t1)
  note i1 = rii_get_page [OF assms(1) Inr]
  from assms(2) Inr obtain r2 t2 where m: "get_node_max_key t1 (page_num cursor) = Some (r2, t2)"
    by (auto simp: leaf_node_split_def Let_def split: option.splits)
  note i2 = rii_max_key [OF i1 m]
  show ?thesis
  proof (cases r2)
    case (Inl e)
    then show ?thesis using assms(2) Inr m i2 by (auto simp: leaf_node_split_def Let_def)
  next
    case R: (Inr old_max)
    let ?N = "num_pages (pager t2)"
    have N0: "?N \<noteq> 0" using i2 by (auto simp: root_inv_internal_def root_inv_def)
    show ?thesis
    proof (cases "table_get_page t2 ?N")
      case (Inl e)
      then show ?thesis using assms(2) Inr m R i2
        by (auto simp: leaf_node_split_def get_unused_page_num_def Let_def)
    next
      case I3: (Inr t3)
      note i3 = rii_get_page [OF i2 I3]
      let ?old = "page_num cursor"
      define t4 where "t4 = update_node ?N initialize_leaf_node t3"
      have i4: "root_inv_internal T t4"
        unfolding t4_def
        by (rule rii_update_node [OF i3])
           (use N0 in \<open>simp_all add: initialize_leaf_node_def set_leaf_node_next_leaf_def
              set_leaf_node_num_cells_def set_node_root_def set_node_type_def\<close>)
      define t7 where "t7 = update_node ?old (set_leaf_node_next_leaf ?N)
                  (update_node ?N (set_leaf_node_next_leaf (leaf_node_next_leaf
                       (node_at (update_node ?N (set_node_parent (node_parent (node_at t4 ?old))) t4) ?old)))
                    (update_node ?N (set_node_parent (node_parent (node_at t4 ?old))) t4))"
      have i7: "root_inv_internal T t7"
        unfolding t7_def using i4 by (intro rii_update_safe header_safe_setters)
      have "t' = update_node ?N (set_leaf_node_num_cells LEAF_NODE_RIGHT_SPLIT_COUNT)
                   (update_node ?old (set_leaf_node_num_cells LEAF_NODE_LEFT_SPLIT_COUNT)
                      (split_loop (sint LEAF_NODE_MAX_CELLS) cursor key val ?old ?N t7))"
        using assms(2) Inr m R I3
        by (auto simp: leaf_node_split_def get_unused_page_num_def Let_def t7_def t4_def)
      then show ?thesis using i7
        by (auto intro!: rii_update_safe header_safe_setters rii_split_loop)
    qed
  qed
qed

lemma rii_leaf_node_split_and_insert:
  assumes "root_inv_internal T t"
    and "leaf_node_split_and_insert imax cursor key val t = Some (res, t')"
  shows "root_inv_internal T t'"
proof -
  from assms(2) obtain r1 t1 where s: "leaf_node_split cursor key val t = Some (r1, t1)"
    by (auto simp: leaf_node_split_and_insert_def split: option.splits)
  note i1 = rii_leaf_node_split [OF assms(1) s]
  show ?thesis
  proof (cases r1)
    case (Inl e)
    then show ?thesis using assms(2) s i1 by (auto simp: leaf_node_split_and_insert_def)
  next
    case (Inr pr)
    obtain old_max new_page_num where pr: "pr = (old_max, new_page_num)" by (cases pr)
    let ?old = "page_num cursor"
    show ?thesis
    proof (cases "is_node_root (node_at t1 ?old)")
      case True
      then have "create_new_root t1 new_page_num = Some (res, t')"
        using assms(2) s Inr pr by (simp add: leaf_node_split_and_insert_def)
      then show ?thesis using i1 rii_create_new_root by blast
    next
      case False
      from assms(2) s Inr pr False obtain r2 t2 where
        m: "get_node_max_key t1 ?old = Some (r2, t2)"
        by (auto simp: leaf_node_split_and_insert_def Let_def split: option.splits)
      note i2 = rii_max_key [OF i1 m]
      show ?thesis
      proof (cases r2)
        case (Inl e)
        then show ?thesis using assms(2) s Inr pr False m i2
          by (auto simp: leaf_node_split_and_insert_def Let_def)
      next
        case R: (Inr new_max)
        let ?pp = "node_parent (node_at t1 ?old)"
        show ?thesis
        proof (cases "table_get_page t2 ?pp")
          case (Inl e)
          then show ?thesis using assms(2) s Inr pr False m R i2
            by (auto simp: leaf_node_split_and_insert_def Let_def)
        next
          case I3: (Inr t3)
          note i3 = rii_get_page [OF i2 I3]
          from assms(2) s Inr pr False m R I3 obtain t4 where
            u: "update_internal_node_key ?pp old_max new_max t3 = Some t4"
            and ins: "internal_node_insert imax t4 ?pp new_page_num = Some (res, t')"
            by (auto simp: leaf_node_split_and_insert_def Let_def split: option.splits)
          note i4 = rii_update_internal_node_key [OF i3 u]
          show ?thesis using i4 ins by (rule rii_internal_node_insert)
        qed
      qed
    qed
  qed
qed

lemma rii_leaf_node_insert:
  assumes "root_inv_internal T t"
    and "leaf_node_insert imax cursor key val t = Some (res, t')"
  shows "root_inv_internal T t'"
proof (cases "table_get_page t (page_num cursor)")
  case (Inl e)
  then show ?thesis using assms by (auto simp: leaf_node_insert_def)
next
  case (Inr t1)
  note i1 = rii_get_page [OF assms(1) Inr]
  show ?thesis
  proof (cases "LEAF_NODE_MAX_CELLS \<le> leaf_node_num_cells (node_at t1 (page_num cursor))")
    case True
    then have "leaf_node_split_and_insert imax cursor key val t1 = Some (res, t')"
      using assms(2) Inr by (simp add: leaf_node_insert_def Let_def)
    then show ?thesis using i1 rii_leaf_node_split_and_insert by blast
  next
    case False
    let ?p = "page_num cursor"
    let ?n = "leaf_node_num_cells (node_at t1 ?p)"
    define t2 where "t2 = (if cell_num cursor < ?n
               then update_node ?p (leaf_shift_loop ?n (cell_num cursor)) t1 else t1)"
    have i2: "root_inv_internal T t2"
      unfolding t2_def using i1 by (auto intro!: rii_update_safe header_safe_setters)
    have "t' = update_node ?p (set_leaf_node_value (cell_num cursor) val)
                 (update_node ?p (set_leaf_node_key (cell_num cursor) key)
                    (update_node ?p
                       (\<lambda>node. set_leaf_node_num_cells (leaf_node_num_cells node + 1) node) t2))"
      using assms(2) Inr False by (auto simp: leaf_node_insert_def Let_def t2_def)
    then show ?thesis using i2
      by (auto intro!: rii_update_safe header_safe_setters)
  qed
qed

lemma db_open_new: "db_open new_pager = (Inr (), opened_table)"
  by (simp add: db_open_def new_pager_def table_get_page_def get_page_def TABLE_MAX_PAGES_def
        update_node_def node_at_def opened_table_def)

lemma root_inv_opened: "root_inv opened_table"
  by (auto simp: root_inv_def opened_table_def node_at_def is_node_root_def set_node_root_def
        zero_page_def)

lemma rii_db_open:
  assumes "root_inv_internal T t" and "db_open (pager t) = (res, t')"
  shows "root_inv_internal T t'"
proof -
  have "num_pages (pager t) \<noteq> 0" "root_page_num t = 0"
    using assms(1) by (auto simp: root_inv_internal_def root_inv_def)
  then have "t' = t" using assms(2) by (cases t) (auto simp: db_open_def)
  then show ?thesis using assms(1) by simp
qed


lemma rii_table_insert:
  assumes "root_inv_internal T t" and "table_insert imax fresh k v t = Some (res, t')"
  shows "root_inv_internal T t'"
proof -
  from assms(2) obtain r1 t1 where f: "table_find fresh t k = Some (r1, t1)"
    by (auto simp: table_insert_def split: option.splits)
  have i1: "root_inv_internal T t1"
    using assms(1) table_find_extends [OF f] by (rule rii_extends)
  show ?thesis
  proof (cases r1)
    case (Inl e)
    then have "t' = t1" using assms(2) f by (simp add: table_insert_def)
    then show ?thesis using i1 by (simp only:)
  next
    case (Inr cur)
    then have "leaf_node_insert imax cur k v t1 = Some (res, t')"
      using assms(2) f by (simp add: table_insert_def)
    with i1 show ?thesis by (rule rii_leaf_node_insert)
  qed
qed

lemma rii_step:
  assumes "step imax t ok t'" and "root_inv_internal T t"
  shows "root_inv_internal T t'"
  using assms
proof (cases rule: step.cases)
  case (find fresh key res)
  then show ?thesis using assms(2) rii_extends table_find_extends by blast
next
  case (start fresh res)
  then show ?thesis using assms(2) rii_extends table_start_extends by blast
next
  case (advance cursor res)
  then show ?thesis using assms(2) rii_extends cursor_advance_extends by blast
next
  case (cvalue cursor res')
  then show ?thesis using assms(2) rii_extends cursor_value_extends by blast
next
  case (insert fresh key val res'')
  then show ?thesis using assms(2) rii_table_insert by blast
next
  case (reopen res'')
  then show ?thesis using assms(2) rii_db_open by blast
qed

lemma reachable_root_inv: "reachable imax t \<Longrightarrow> root_inv t"
proof (induction rule: reachable.induct)
  case (open_new t)
  then show ?case using db_open_new root_inv_opened by simp
next
  case (after_step t t')
  then show ?case using rii_step [of imax t True t' False] by (simp add: root_inv_internal_def)
qed

subsection \<open>C2: ascending traversal\<close>

text \<open>The proof keeps the invariant \<open>tree_inv\<close> along the insertions: an insertion into a
  leaf with room (the root or a child), the split of a full leaf root with the promotion
  of the root, and the split of a full child leaf with the update of the parent. An
  insertion that returns has found the pages and the parent capacity it needs, since the
  lack of either is a fatal exit. The scan of a table with the invariant follows the chain
  of the leaves and returns its cells.\<close>

lemma leaf_cells_inserted:
  assumes "leaf_node_num_cells node < leaf_node_num_cells node + 1"
    and "c \<le> leaf_node_num_cells node"
  shows "leaf_cells (inserted_leaf c x node) = insert_at (unat c) x (leaf_cells node)"
proof (rule nth_equalityI)
  have n: "unat (hdr_count node + 1) = Suc (unat (hdr_count node))"
    using unat_succ assms(1) by (simp add: leaf_node_num_cells_def)
  have ix: "unat c \<le> unat (hdr_count node)"
    using assms(2) by (simp add: word_le_nat_alt leaf_node_num_cells_def)
  show "length (leaf_cells (inserted_leaf c x node))
          = length (insert_at (unat c) x (leaf_cells node))"
    by (simp add: inserted_leaf_def leaf_node_num_cells_def n)
  fix i
  assume "i < length (leaf_cells (inserted_leaf c x node))"
  then have i: "i \<le> unat (hdr_count node)"
    by (simp add: inserted_leaf_def leaf_node_num_cells_def n)
  have ui: "unat (of_nat i :: u32) = i" using i by (rule unat_of_nat_le)
  have e1: "((of_nat i :: u32) = c) = (i = unat c)"
    using ui by (auto simp: word_unat_eq_iff)
  have e2: "(c < (of_nat i :: u32)) = (unat c < i)"
    using ui by (simp add: word_less_nat_alt)
  have e3: "((of_nat i :: u32) \<le> hdr_count node)"
    using ui i by (simp add: word_le_nat_alt)
  have e4: "(of_nat i :: u32) - 1 = of_nat (i - 1)" if "0 < i"
    using that by (simp add: of_nat_diff)
  have "leaf_cells (inserted_leaf c x node) ! i
      = (if i = unat c then x
         else if unat c < i then leaf_body node (of_nat (i - 1))
         else leaf_body node (of_nat i))"
  proof -
    have "i < unat (leaf_node_num_cells (inserted_leaf c x node))"
      using i by (simp add: inserted_leaf_def leaf_node_num_cells_def n)
    then have "leaf_cells (inserted_leaf c x node) ! i
        = leaf_node_cell (inserted_leaf c x node) (of_nat i)"
      by (rule leaf_cells_nth)
    also have "\<dots> = (if i = unat c then x
         else if unat c < i then leaf_body node (of_nat (i - 1))
         else leaf_body node (of_nat i))"
      using e4 by (auto simp: inserted_leaf_def leaf_node_cell_def e1 e2 e3)
    finally show ?thesis .
  qed
  also have "\<dots> = insert_at (unat c) x (leaf_cells node) ! i"
  proof -
    have "insert_at (unat c) x (leaf_cells node) ! i
        = (if i = unat c then x
           else if unat c < i then leaf_cells node ! (i - 1)
           else leaf_cells node ! i)"
      using ix i by (intro insert_at_nth) (simp_all add: leaf_node_num_cells_def)
    also have "\<dots> = (if i = unat c then x
         else if unat c < i then leaf_body node (of_nat (i - 1))
         else leaf_body node (of_nat i))"
      using i ix
      by (auto simp: leaf_cells_nth leaf_node_num_cells_def leaf_node_cell_def)
    finally show ?thesis by simp
  qed
  finally show "leaf_cells (inserted_leaf c x node) ! i
          = insert_at (unat c) x (leaf_cells node) ! i" .
qed

lemma leaf_node_insert_plain:
  assumes p: "page_num cursor < num_pages (pager t)"
    and cap: "unat (num_pages (pager t)) \<le> TABLE_MAX_PAGES"
    and room: "leaf_node_num_cells (node_at t (page_num cursor)) < LEAF_NODE_MAX_CELLS"
    and c: "cell_num cursor \<le> leaf_node_num_cells (node_at t (page_num cursor))"
  shows "leaf_node_insert imax cursor key val t
           = Some (Inr (), update_node (page_num cursor)
                             (inserted_leaf (cell_num cursor) (key, val)) t)"
proof -
  let ?p = "page_num cursor"
  let ?n = "leaf_node_num_cells (node_at t ?p)"
  have lt: "unat ?p < TABLE_MAX_PAGES" using p cap by (simp add: word_less_nat_alt)
  have g: "table_get_page t ?p = Inr t" using p lt by (rule table_get_page_existing)
  have nf: "\<not> LEAF_NODE_MAX_CELLS \<le> ?n" using room by simp
  have nowrap: "?n < ?n + 1" using room by (rule no_wrap_below)
  have ne: "cell_num cursor \<noteq> ?n + 1" using c nowrap by auto
  have shift_id: "leaf_shift_loop ?n (cell_num cursor) node = node"
    if "\<not> cell_num cursor < ?n" for node
    using that by (subst leaf_shift_loop.simps) simp
  have fin: "update_node ?p (set_leaf_node_value (cell_num cursor) val)
               (update_node ?p (set_leaf_node_key (cell_num cursor) key)
                  (update_node ?p
                     (\<lambda>node. set_leaf_node_num_cells (leaf_node_num_cells node + 1) node)
                     (update_node ?p (leaf_shift_loop ?n (cell_num cursor)) t)))
           = update_node ?p (inserted_leaf (cell_num cursor) (key, val)) t"
    unfolding update_node_twice
    apply (rule update_node_cong)
    apply (simp add: inserted_leaf_def leaf_shift_loop_body set_leaf_node_value_def
        set_leaf_node_key_def set_leaf_node_cell_def leaf_node_cell_def
        set_leaf_node_num_cells_def leaf_node_num_cells_def fun_eq_iff)
    done
  show ?thesis
  proof (cases "cell_num cursor < ?n")
    case True
    then show ?thesis using nf fin
      by (simp add: leaf_node_insert_def g Let_def)
  next
    case False
    have "update_node ?p (leaf_shift_loop ?n (cell_num cursor)) t = t"
      using shift_id [OF False] by (simp add: update_node_id)
    then show ?thesis using nf fin False
      by (simp add: leaf_node_insert_def g Let_def)
  qed
qed

lemma length_leaf_keys [simp]: "length (leaf_keys node) = unat (leaf_node_num_cells node)"
  by (simp add: leaf_keys_def)

lemma length_separators [simp]: "length (separators node) = unat (internal_node_num_keys node)"
  by (simp add: separators_def)

lemma length_children [simp]: "length (children node) = Suc (unat (internal_node_num_keys node))"
  by (simp add: children_def)

lemma of_nat_unat_u32: "(of_nat (unat (i :: u32)) :: u32) = i"
  by simp

lemma leaf_node_key_nth:
  "i < leaf_node_num_cells node \<Longrightarrow> leaf_node_key node i = leaf_keys node ! unat i"
  by (simp add: leaf_keys_def leaf_cells_def leaf_node_key_def word_less_nat_alt)

lemma internal_node_key_nth:
  "i < internal_node_num_keys node \<Longrightarrow> internal_node_key node i = separators node ! unat i"
  by (simp add: separators_def internal_cells_def internal_node_key_def word_less_nat_alt)

lemma children_nth:
  "i \<le> internal_node_num_keys node \<Longrightarrow> internal_node_child node i = children node ! unat i"
  by (auto simp: children_def internal_cells_def internal_node_child_def word_less_nat_alt
        word_le_nat_alt nth_append internal_node_cell_def word_unat_eq_iff)

lemma leaf_find_list_ge:
  assumes p: "p < num_pages (pager t)" and cap: "unat (num_pages (pager t)) \<le> TABLE_MAX_PAGES"
    and n31: "unat (leaf_node_num_cells (node_at t p)) < 2 ^ 31"
    and srt: "sorted_wrt (<) (leaf_keys (node_at t p))"
  shows "\<exists>j. leaf_node_find fresh t p k
               = Some (Inr (fresh\<lparr>page_num := p, cell_num := j\<rparr>), t)
           \<and> j \<le> leaf_node_num_cells (node_at t p)
           \<and> (\<forall>x \<in> set (take (unat j) (leaf_keys (node_at t p))). x < k)
           \<and> (\<forall>x \<in> set (drop (unat j) (leaf_keys (node_at t p))). k \<le> x)"
proof -
  let ?node = "node_at t p"
  let ?n = "leaf_node_num_cells ?node"
  let ?ks = "leaf_keys ?node"
  have lt: "unat p < TABLE_MAX_PAGES" using p cap by (simp add: word_less_nat_alt)
  have g: "table_get_page t p = Inr t" using p lt by (rule table_get_page_existing)
  have s: "\<forall>i j. i < j \<and> j < ?n \<longrightarrow> leaf_node_key ?node i < leaf_node_key ?node j"
  proof (intro allI impI, elim conjE)
    fix i j :: u32 assume a: "i < j" "j < ?n"
    then have "i < ?n" by simp
    moreover have "unat i < unat j" "unat j < length ?ks"
      using a by (simp_all add: word_less_nat_alt)
    ultimately show "leaf_node_key ?node i < leaf_node_key ?node j"
      using srt a(2) by (simp add: leaf_node_key_nth sorted_wrt_iff_nth_less)
  qed
  have "\<exists>r. leaf_find_loop ?node k 0 ?n = Some r \<and> r \<le> ?n
           \<and> (\<forall>i. i < r \<longrightarrow> leaf_node_key ?node i < k)
           \<and> (\<forall>i. r < i \<and> i < ?n \<longrightarrow> k < leaf_node_key ?node i)
           \<and> (r < ?n \<longrightarrow> k \<le> leaf_node_key ?node r)"
    using n31 s by (intro leaf_find_loop_correct) auto
  then obtain r where r: "leaf_find_loop ?node k 0 ?n = Some r" "r \<le> ?n"
      "\<forall>i. i < r \<longrightarrow> leaf_node_key ?node i < k"
      "\<forall>i. r < i \<and> i < ?n \<longrightarrow> k < leaf_node_key ?node i"
      "r < ?n \<longrightarrow> k \<le> leaf_node_key ?node r"
    by blast
  have ur: "unat r \<le> length ?ks" using r(2) by (simp add: word_le_nat_alt)
  have below: "x < k" if "x \<in> set (take (unat r) ?ks)" for x
  proof -
    from that obtain a where a: "a < unat r" "x = ?ks ! a"
      using ur by (auto simp: in_set_conv_nth)
    have ua: "unat (of_nat a :: u32) = a" using a(1) by (intro unat_of_nat_le [of a r]) simp
    then have "(of_nat a :: u32) < r" using a(1) by (simp add: word_less_nat_alt)
    moreover have "(of_nat a :: u32) < ?n" using calculation r(2) by simp
    ultimately show ?thesis using r(3) a(2) ua by (auto simp: leaf_node_key_nth)
  qed
  have above: "k \<le> x" if "x \<in> set (drop (unat r) ?ks)" for x
  proof -
    from that obtain i where i: "i < length ?ks - unat r" "x = ?ks ! (unat r + i)"
      by (auto simp: in_set_conv_nth)
    define a where "a = unat r + i"
    have a: "unat r \<le> a" "a < length ?ks" "x = ?ks ! a"
      using i by (simp_all add: a_def)
    have ua: "unat (of_nat a :: u32) = a" using a(2) by (intro unat_of_nat_le [of a ?n]) simp
    then have an: "(of_nat a :: u32) < ?n" using a(2) by (simp add: word_less_nat_alt)
    have ra: "r \<le> (of_nat a :: u32)" using a(1) ua by (simp add: word_le_nat_alt)
    show "k \<le> x"
    proof (cases "r = of_nat a")
      case True
      then show ?thesis using r(5) an a(3) ua by (auto simp: leaf_node_key_nth)
    next
      case False
      then have "r < of_nat a" using ra by simp
      then show ?thesis using r(4) an a(3) ua by (auto simp: leaf_node_key_nth intro: less_imp_le)
    qed
  qed
  have "leaf_node_find fresh t p k = Some (Inr (fresh\<lparr>page_num := p, cell_num := r\<rparr>), t)"
    using r(1) by (simp add: leaf_node_find_def g Let_def)
  then show ?thesis using r(2) below above by blast
qed

lemma leaf_find_list:
  assumes p: "p < num_pages (pager t)" and cap: "unat (num_pages (pager t)) \<le> TABLE_MAX_PAGES"
    and n31: "unat (leaf_node_num_cells (node_at t p)) < 2 ^ 31"
    and srt: "sorted_wrt (<) (leaf_keys (node_at t p))"
    and nin: "k \<notin> set (leaf_keys (node_at t p))"
  shows "\<exists>j. leaf_node_find fresh t p k
               = Some (Inr (fresh\<lparr>page_num := p, cell_num := j\<rparr>), t)
           \<and> j \<le> leaf_node_num_cells (node_at t p)
           \<and> (\<forall>x \<in> set (take (unat j) (leaf_keys (node_at t p))). x < k)
           \<and> (\<forall>x \<in> set (drop (unat j) (leaf_keys (node_at t p))). k < x)"
proof -
  from leaf_find_list_ge [OF p cap n31 srt, where k = k and fresh = fresh]
  obtain j where j: "leaf_node_find fresh t p k
               = Some (Inr (fresh\<lparr>page_num := p, cell_num := j\<rparr>), t)"
      "j \<le> leaf_node_num_cells (node_at t p)"
      "\<forall>x \<in> set (take (unat j) (leaf_keys (node_at t p))). x < k"
      "\<forall>x \<in> set (drop (unat j) (leaf_keys (node_at t p))). k \<le> x"
    by blast
  have "k < x" if "x \<in> set (drop (unat j) (leaf_keys (node_at t p)))" for x
  proof -
    have "x \<in> set (leaf_keys (node_at t p))" using that by (rule in_set_dropD)
    then have "x \<noteq> k" using nin by auto
    then show ?thesis using j(4) that by auto
  qed
  then show ?thesis using j(1,2,3) by (intro exI [of _ j]) simp
qed

lemma sorted_insert_mid:
  assumes "sorted_wrt (<) (map fst (A @ X @ Y @ B))"
    and "\<forall>y \<in> set A \<union> set X. fst y < k" and "\<forall>y \<in> set Y \<union> set B. k < fst y"
  shows "sorted_wrt (<) (map fst (A @ X @ (k, v) # Y @ B))"
  using assms by (auto simp: sorted_wrt_append)

lemma sorted_insert_at:
  assumes "sorted_wrt (<) (map fst (A @ L @ B))"
    and "\<forall>y \<in> set A. fst y < k" and "\<forall>y \<in> set B. k < fst y"
    and "\<forall>y \<in> set (take j L). fst y < k" and "\<forall>y \<in> set (drop j L). k < fst y"
  shows "sorted_wrt (<) (map fst (A @ insert_at j (k, v) L @ B))"
proof -
  have "A @ L @ B = A @ take j L @ drop j L @ B" by simp
  then have "sorted_wrt (<) (map fst (A @ take j L @ drop j L @ B))"
    using assms(1) by (simp only:)
  then have "sorted_wrt (<) (map fst (A @ take j L @ (k, v) # drop j L @ B))"
    using assms(2-5) by (intro sorted_insert_mid) auto
  then show ?thesis by (simp add: insert_at_def)
qed

lemma set_insert_at: "set (insert_at j x L) = insert x (set L)"
proof -
  have "set (take j L @ x # drop j L) = insert x (set (take j L @ drop j L))"
    by (simp only: set_append set_simps) auto
  then show ?thesis by (simp add: insert_at_def)
qed

lemma sorted_le_last:
  fixes A :: "(u32 \<times> 'b) list"
  assumes "sorted_wrt (<) (map fst A)" and "y \<in> set A"
  shows "fst y \<le> fst (last A)"
proof -
  from assms(2) obtain i where i: "i < length A" "A ! i = y" by (auto simp: in_set_conv_nth)
  have ne: "A \<noteq> []" using assms(2) by auto
  show ?thesis
  proof (cases "i = length A - 1")
    case True
    then have "last A = y" using i ne by (simp add: last_conv_nth)
    then show ?thesis by simp
  next
    case False
    then have "i < length A - 1" using i by simp
    then have "map fst A ! i < map fst A ! (length A - 1)"
      using assms(1) i ne by (simp add: sorted_wrt_iff_nth_less del: nth_map)
    then show ?thesis using i ne by (simp add: last_conv_nth)
  qed
qed

lemma inserted_leaf_fields:
  "get_node_type (inserted_leaf c x node) = get_node_type node"
  "is_node_root (inserted_leaf c x node) = is_node_root node"
  "node_parent (inserted_leaf c x node) = node_parent node"
  "leaf_node_next_leaf (inserted_leaf c x node) = leaf_node_next_leaf node"
  "leaf_node_num_cells (inserted_leaf c x node) = leaf_node_num_cells node + 1"
  by (simp_all add: inserted_leaf_def get_node_type_def is_node_root_def node_parent_def
        leaf_node_next_leaf_def leaf_node_num_cells_def)

lemma header_safe_inserted_leaf: "header_safe (inserted_leaf c x)"
  by (simp add: header_safe_def inserted_leaf_def)

lemma root_inv_update_safe:
  "root_inv t \<Longrightarrow> header_safe f \<Longrightarrow> root_inv (update_node n f t)"
  using rii_update_safe [of False t f n] by (simp add: root_inv_internal_def)

lemma find_then_insert_plain:
  assumes p: "p < num_pages (pager t)" and cap: "unat (num_pages (pager t)) \<le> TABLE_MAX_PAGES"
    and room: "leaf_node_num_cells (node_at t p) < LEAF_NODE_MAX_CELLS"
    and srt: "sorted_wrt (<) (leaf_keys (node_at t p))"
    and nin: "k \<notin> set (leaf_keys (node_at t p))"
  shows "\<exists>cur j. leaf_node_find fresh t p k = Some (Inr cur, t)
           \<and> leaf_node_insert imax cur k v t
                = Some (Inr (), update_node p (inserted_leaf j (k, v)) t)
           \<and> j \<le> leaf_node_num_cells (node_at t p)
           \<and> leaf_cells (inserted_leaf j (k, v) (node_at t p))
                = insert_at (unat j) (k, v) (leaf_cells (node_at t p))
           \<and> (\<forall>x \<in> set (take (unat j) (leaf_keys (node_at t p))). x < k)
           \<and> (\<forall>x \<in> set (drop (unat j) (leaf_keys (node_at t p))). k < x)"
proof -
  let ?n = "leaf_node_num_cells (node_at t p)"
  have n13: "?n < 13" using room by (simp add: leaf_constants)
  then have n31: "unat ?n < 2 ^ 31" by (simp add: word_less_nat_alt)
  from leaf_find_list [OF p cap n31 srt nin, of fresh]
  obtain j where j: "leaf_node_find fresh t p k
               = Some (Inr (fresh\<lparr>page_num := p, cell_num := j\<rparr>), t)"
      "j \<le> ?n"
      "\<forall>x \<in> set (take (unat j) (leaf_keys (node_at t p))). x < k"
      "\<forall>x \<in> set (drop (unat j) (leaf_keys (node_at t p))). k < x"
    by blast
  let ?cur = "fresh\<lparr>page_num := p, cell_num := j\<rparr>"
  have ins: "leaf_node_insert imax ?cur k v t
         = Some (Inr (), update_node (page_num ?cur) (inserted_leaf (cell_num ?cur) (k, v)) t)"
    by (rule leaf_node_insert_plain) (use p cap room j(2) in simp_all)
  have nowrap: "?n < ?n + 1" using room by (rule no_wrap_below)
  have cells: "leaf_cells (inserted_leaf j (k, v) (node_at t p))
                = insert_at (unat j) (k, v) (leaf_cells (node_at t p))"
    using nowrap j(2) by (rule leaf_cells_inserted)
  show ?thesis using j ins cells by (intro exI [of _ ?cur] exI [of _ j]) simp
qed

lemma table_find_leaf_root:
  assumes "root_inv t" and "unat (num_pages (pager t)) \<le> TABLE_MAX_PAGES"
    and "get_node_type (node_at t 0) = NODE_LEAF"
  shows "table_find fresh t k = leaf_node_find fresh t 0 k"
proof -
  have "root_page_num t = 0" "0 < num_pages (pager t)"
    using assms(1) by (simp_all add: root_inv_def)
  moreover have "table_get_page t 0 = Inr t"
    using calculation(2) by (simp add: table_get_page_existing TABLE_MAX_PAGES_def)
  ultimately show ?thesis using assms(3) by (simp add: table_find_def)
qed

lemma plus1_le_13:
  fixes n :: u32
  assumes "n < 13"
  shows "n + 1 \<le> 13" and "0 < n + 1" and "m \<le> n \<Longrightarrow> m \<le> n + 1"
proof -
  have "unat n < 13" using assms by (simp add: word_less_nat_alt)
  then have u: "unat (n + 1) = unat n + 1" by (simp add: unat_word_ariths)
  show "n + 1 \<le> 13" using u \<open>unat n < 13\<close> by (simp add: word_le_nat_alt)
  show "0 < n + 1" using u by (simp add: word_less_nat_alt)
  show "m \<le> n + 1" if "m \<le> n" using that u by (simp add: word_le_nat_alt)
qed

lemma insert_leaf_root_plain:
  assumes inv: "tree_inv t cs" and lr: "leaf_root t cs"
    and room: "leaf_node_num_cells (node_at t 0) < LEAF_NODE_MAX_CELLS"
    and nin: "k \<notin> fst ` set cs"
  shows "\<exists>t' cs'. table_insert imax fresh k v t = Some (Inr (), t')
           \<and> tree_inv t' cs' \<and> set cs' = insert (k, v) (set cs)"
proof -
  have ri: "root_inv t" and cap: "unat (num_pages (pager t)) \<le> TABLE_MAX_PAGES"
    and srt: "sorted_wrt (<) (map fst cs)"
    using inv by (simp_all add: tree_inv_def)
  have ty: "get_node_type (node_at t 0) = NODE_LEAF"
    and nx: "leaf_node_next_leaf (node_at t 0) = 0"
    and cells: "leaf_cells (node_at t 0) = cs"
    using lr by (simp_all add: leaf_root_def)
  have p: "0 < num_pages (pager t)" using ri by (simp add: root_inv_def)
  have ks: "leaf_keys (node_at t 0) = map fst cs" by (simp add: leaf_keys_def cells)
  from find_then_insert_plain [OF p cap room, of k fresh imax v] srt nin ks
  obtain cur j where f: "leaf_node_find fresh t 0 k = Some (Inr cur, t)"
    and i: "leaf_node_insert imax cur k v t
                = Some (Inr (), update_node 0 (inserted_leaf j (k, v)) t)"
    and c': "leaf_cells (inserted_leaf j (k, v) (node_at t 0)) = insert_at (unat j) (k, v) cs"
    and lo: "\<forall>x \<in> set (take (unat j) (map fst cs)). x < k"
    and hi: "\<forall>x \<in> set (drop (unat j) (map fst cs)). k < x"
    by (auto simp: cells)
  let ?t' = "update_node 0 (inserted_leaf j (k, v)) t"
  let ?cs' = "insert_at (unat j) (k, v) cs"
  have ti: "table_insert imax fresh k v t = Some (Inr (), ?t')"
    using f i by (simp add: table_insert_def table_find_leaf_root [OF ri cap ty])
  have s': "sorted_wrt (<) (map fst ?cs')"
    using sorted_insert_at [of "[]" cs "[]" k "unat j" v] srt lo hi
    by (simp add: take_map drop_map)
  have n13: "leaf_node_num_cells (node_at t 0) < 13" using room by (simp add: leaf_constants)
  have np: "num_pages (pager t) = 1" using lr by (simp add: leaf_root_def)
  have lr': "leaf_root ?t' ?cs'"
    using ty nx c' plus1_le_13(1) [OF n13] np
    by (simp add: leaf_root_def node_at_update_node inserted_leaf_fields leaf_constants)
  have inv': "tree_inv ?t' ?cs'"
    using ri cap s' lr'
    by (simp add: tree_inv_def root_inv_update_safe header_safe_inserted_leaf)
  show ?thesis
    by (intro exI [of _ ?t'] exI [of _ ?cs'] conjI ti inv' set_insert_at)
qed

lemma create_new_root_leaf_state:
  assumes rp: "root_page_num t = 0" and np: "0 < num_pages (pager t)"
    and r: "r < num_pages (pager t)" and r0: "r \<noteq> 0"
    and room: "unat (num_pages (pager t)) < TABLE_MAX_PAGES"
    and leaf: "get_node_type (node_at t 0) = NODE_LEAF"
  shows "\<exists>t'. create_new_root t r = Some (Inr (), t')
           \<and> num_pages (pager t') = num_pages (pager t) + 1
           \<and> node_at t' (num_pages (pager t))
                = set_node_parent 0 (set_node_root False (node_at t 0))
           \<and> node_at t' r = set_node_parent 0 (node_at t r)
           \<and> get_node_type (node_at t' 0) = NODE_INTERNAL
           \<and> internal_node_num_keys (node_at t' 0) = 1
           \<and> children (node_at t' 0) = [num_pages (pager t), r]
           \<and> separators (node_at t' 0)
                = [leaf_node_key (node_at t 0) (leaf_node_num_cells (node_at t 0) - 1)]
           \<and> (\<forall>n. n \<noteq> 0 \<and> n \<noteq> r \<and> n \<noteq> num_pages (pager t)
                  \<longrightarrow> node_at t' n = node_at t n)"
proof -
  let ?L = "num_pages (pager t)"
  let ?R = "node_at t 0"
  let ?m = "leaf_node_key ?R (leaf_node_num_cells ?R - 1)"
  have g0: "table_get_page t 0 = Inr t"
    using np by (simp add: table_get_page_existing TABLE_MAX_PAGES_def)
  have gr: "table_get_page t r = Inr t"
    using r room by (simp add: table_get_page_existing word_less_nat_alt)
  have L0: "?L \<noteq> 0" using np by auto
  have Lr: "?L \<noteq> r" using r by auto
  define t3 where "t3 = t\<lparr>pager := (pager t)\<lparr>num_pages := ?L + 1,
                                    pages := (pages (pager t))(?L := zero_page)\<rparr>\<rparr>"
  have g3: "table_get_page t ?L = Inr t3"
    unfolding t3_def by (rule table_get_page_fresh [OF room])
  have n3: "node_at t3 n = (if n = ?L then zero_page else node_at t n)" for n
    by (simp add: t3_def node_at_def)
  have rp3: "root_page_num t3 = 0" "num_pages (pager t3) = ?L + 1"
    using rp by (simp_all add: t3_def)
  define root' where "root' = set_internal_node_right_child r
     (set_internal_node_key 0 ?m
        (set_internal_node_child 0 ?L
           (set_internal_node_num_keys 1
              (set_node_root True (initialize_internal_node ?R)))))"
  let ?t9 = "update_node 0 (set_internal_node_child 0 ?L)
               (update_node 0 (set_internal_node_num_keys 1)
                 (update_node 0 (set_node_root True)
                   (update_node 0 initialize_internal_node
                     (update_node ?L (set_node_root False)
                       (update_node ?L (\<lambda>_. node_at t3 0) t3)))))"
  have n9L: "node_at ?t9 ?L = set_node_root False ?R"
    using L0 by (simp add: node_at_update_node n3)
  have ty9: "get_node_type (node_at ?t9 ?L) = NODE_LEAF"
    using leaf by (simp add: n9L get_node_type_def set_node_root_def)
  have mk: "get_node_max_key ?t9 ?L = Some (Inr ?m, ?t9)"
    using get_node_max_key_leaf [OF ty9]
    by (simp add: n9L leaf_node_key_def leaf_node_cell_def leaf_node_num_cells_def
          set_node_root_def)
  define t' where "t' = update_node r (set_node_parent 0)
               (update_node ?L (set_node_parent 0)
                 (update_node 0 (set_internal_node_right_child r)
                   (update_node 0 (set_internal_node_key 0 ?m) ?t9)))"
  have res: "create_new_root t r = Some (Inr (), t')"
    by (simp add: create_new_root_def rp g0 gr get_unused_page_num_def g3 Let_def mk rp3
          t'_def)
  have nodes: "node_at t' ?L = set_node_parent 0 (set_node_root False ?R)"
      "node_at t' r = set_node_parent 0 (node_at t r)"
      "node_at t' 0 = root'"
      "\<forall>n. n \<noteq> 0 \<and> n \<noteq> r \<and> n \<noteq> ?L \<longrightarrow> node_at t' n = node_at t n"
    using L0 Lr r0 by (simp_all add: t'_def node_at_update_node n3 root'_def)
  have rt: "get_node_type root' = NODE_INTERNAL" "internal_node_num_keys root' = 1"
      "internal_node_right_child root' = r" "internal_node_cell root' 0 = (?L, ?m)"
    by (simp_all add: root'_def set_internal_node_right_child_def
          set_internal_node_key_def set_internal_node_cell_def internal_node_cell_def
          set_internal_node_child_def set_internal_node_num_keys_def set_node_root_def
          initialize_internal_node_def set_node_type_def get_node_type_def
          internal_node_num_keys_def internal_node_right_child_def)
  have ic: "internal_cells root' = [(?L, ?m)]"
    by (simp add: internal_cells_def rt)
  have "children root' = [?L, r]" "separators root' = [?m]"
    by (simp_all add: children_def separators_def ic rt)
  moreover have "num_pages (pager t') = ?L + 1"
    by (simp add: t'_def rp3)
  ultimately show ?thesis using res nodes rt(1,2)
    by (intro exI [of _ t']) simp
qed

lemmas codec_defs =
  node_parent_def set_node_parent_def get_node_type_def set_node_type_def is_node_root_def
  set_node_root_def leaf_node_num_cells_def set_leaf_node_num_cells_def
  leaf_node_next_leaf_def set_leaf_node_next_leaf_def internal_node_num_keys_def
  set_internal_node_num_keys_def internal_node_right_child_def
  set_internal_node_right_child_def initialize_leaf_node_def initialize_internal_node_def

lemma leaf_cells_cong:
  "hdr_count a = hdr_count b \<Longrightarrow> leaf_body a = leaf_body b \<Longrightarrow> leaf_cells a = leaf_cells b"
  by (simp add: leaf_cells_def leaf_node_num_cells_def leaf_node_cell_def)

lemma leaf_keys_cong:
  "hdr_count a = hdr_count b \<Longrightarrow> leaf_body a = leaf_body b \<Longrightarrow> leaf_keys a = leaf_keys b"
  by (simp add: leaf_keys_def leaf_cells_cong [of a b])

lemma last_leaf_keys:
  assumes "0 < leaf_node_num_cells node"
  shows "last (leaf_keys node) = leaf_node_key node (leaf_node_num_cells node - 1)"
proof -
  let ?n = "leaf_node_num_cells node"
  have u: "0 < unat ?n" using assms by (simp add: word_less_nat_alt)
  then have ne: "leaf_keys node \<noteq> []" by (metis length_leaf_keys length_greater_0_conv)
  have lt: "?n - 1 < ?n" using u
    by (simp add: word_less_nat_alt unat_minus_one unat_gt_0)
  have "last (leaf_keys node) = leaf_keys node ! (unat ?n - 1)"
    using ne by (simp add: last_conv_nth)
  also have "unat ?n - 1 = unat (?n - 1)"
    using u by (simp add: unat_minus_one unat_gt_0)
  also have "leaf_keys node ! unat (?n - 1) = leaf_node_key node (?n - 1)"
    using lt by (simp add: leaf_node_key_nth)
  finally show ?thesis .
qed

lemma split_body_fields:
  "hdr_type (split_old_body n V node) = hdr_type node"
  "hdr_is_root (split_old_body n V node) = hdr_is_root node"
  "hdr_parent (split_old_body n V node) = hdr_parent node"
  "hdr_count (split_old_body n V node) = hdr_count node"
  "hdr_link (split_old_body n V node) = hdr_link node"
  "hdr_type (split_new_body n V node) = hdr_type node"
  "hdr_is_root (split_new_body n V node) = hdr_is_root node"
  "hdr_parent (split_new_body n V node) = hdr_parent node"
  "hdr_count (split_new_body n V node) = hdr_count node"
  "hdr_link (split_new_body n V node) = hdr_link node"
  by (simp_all add: split_old_body_def split_new_body_def)

lemma root_inv_table_insert:
  assumes "root_inv t" and "table_insert imax fresh k v t = Some (res, t')"
  shows "root_inv t'"
proof -
  from assms(2) obtain r1 t1 where f: "table_find fresh t k = Some (r1, t1)"
    by (auto simp: table_insert_def split: option.splits)
  have i0: "root_inv_internal False t" using assms(1) by (simp add: root_inv_internal_def)
  have i1: "root_inv_internal False t1"
    using i0 table_find_extends [OF f] by (rule rii_extends)
  show ?thesis
  proof (cases r1)
    case (Inl e)
    then have "t' = t1" using assms(2) f by (simp add: table_insert_def)
    moreover have "root_inv t1" using i1 unfolding root_inv_internal_def by (rule conjunct1)
    ultimately show ?thesis by (simp only:)
  next
    case (Inr cur)
    then have "leaf_node_insert imax cur k v t1 = Some (res, t')"
      using assms(2) f by (simp add: table_insert_def)
    from rii_leaf_node_insert [OF i1 this] show ?thesis
      unfolding root_inv_internal_def by (rule conjunct1)
  qed
qed

lemma take_drop_7_nonempty:
  assumes "length xs = 14"
  shows "take 7 xs \<noteq> []" and "drop 7 xs \<noteq> []" and "last (drop 7 xs) = last xs"
    and "last (take 7 xs) = xs ! 6"
proof -
  have l: "length (take 7 xs) = 7" "length (drop 7 xs) = 7" using assms by simp_all
  show t: "take 7 xs \<noteq> []" and d: "drop 7 xs \<noteq> []" using l by auto
  have xs: "xs \<noteq> []" using assms by auto
  show "last (drop 7 xs) = last xs" using assms by simp
  show "last (take 7 xs) = xs ! 6" using t l by (simp add: last_conv_nth)
qed

lemma word_succ_facts:
  fixes N :: u32
  assumes "unat N + 2 \<le> TABLE_MAX_PAGES"
  shows "N < N + 1" and "unat (N + 1) = unat N + 1" and "unat (N + 1 + 1) = unat N + 2"
    and "N + 1 \<noteq> 0" and "N + 1 \<noteq> N" and "N < N + 1 + 1" and "N + 1 < N + 1 + 1"
proof -
  have b: "unat N + 2 < 2 ^ 32" using assms by (simp add: TABLE_MAX_PAGES_def)
  show u1: "unat (N + 1) = unat N + 1" using b by (simp add: unat_word_ariths)
  show u2: "unat (N + 1 + 1) = unat N + 2" using b u1 by (simp add: unat_word_ariths)
  show "N < N + 1" using u1 by (simp add: word_less_nat_alt)
  show "N + 1 \<noteq> 0" using u1 by (metis Suc_eq_plus1 nat.distinct(1) unat_0)
  show "N + 1 \<noteq> N" using u1 by (metis n_not_Suc_n Suc_eq_plus1)
  show "N < N + 1 + 1" using u2 by (simp add: word_less_nat_alt)
  show "N + 1 < N + 1 + 1" using u1 u2 by (simp add: word_less_nat_alt)
qed

lemma insert_leaf_root_split:
  assumes inv: "tree_inv t cs" and lr: "leaf_root t cs"
    and full: "leaf_node_num_cells (node_at t 0) = LEAF_NODE_MAX_CELLS"
    and nin: "k \<notin> fst ` set cs"
    and room: "unat (num_pages (pager t)) + 2 \<le> TABLE_MAX_PAGES"
  shows "\<exists>t' cs'. table_insert imax fresh k v t = Some (Inr (), t')
           \<and> tree_inv t' cs' \<and> set cs' = insert (k, v) (set cs)"
proof -
  let ?N = "num_pages (pager t)"
  let ?R = "node_at t 0"
  have ri: "root_inv t" and cap: "unat ?N \<le> TABLE_MAX_PAGES"
    and srt: "sorted_wrt (<) (map fst cs)"
    using inv by (simp_all add: tree_inv_def)
  have ty: "get_node_type ?R = NODE_LEAF"
    and nx: "leaf_node_next_leaf ?R = 0"
    and cells: "leaf_cells ?R = cs"
    using lr by (simp_all add: leaf_root_def)
  have p: "0 < ?N" and rp: "root_page_num t = 0" and isr: "is_node_root ?R"
    using ri by (simp_all add: root_inv_def)
  have n13: "leaf_node_num_cells ?R = 13" using full by (simp add: leaf_constants)
  have "length (leaf_cells ?R) = 13" by (simp add: n13)
  then have len: "length cs = 13" by (simp add: cells)
  have ks: "leaf_keys ?R = map fst cs" by (simp add: leaf_keys_def cells)
  have n31: "unat (leaf_node_num_cells ?R) < 2 ^ 31" by (simp add: n13)
  from leaf_find_list [OF p cap n31, of k fresh] srt nin ks
  obtain j where f: "leaf_node_find fresh t 0 k
               = Some (Inr (fresh\<lparr>page_num := 0, cell_num := j\<rparr>), t)"
    and j13: "j \<le> 13"
    and lo: "\<forall>x \<in> set (take (unat j) (map fst cs)). x < k"
    and hi: "\<forall>x \<in> set (drop (unat j) (map fst cs)). k < x"
    by (auto simp: n13)
  let ?cur = "fresh\<lparr>page_num := 0, cell_num := j\<rparr>"
  let ?ins = "insert_at (unat j) (k, v) cs"
  have g0: "table_get_page t 0 = Inr t"
    using p by (simp add: table_get_page_existing TABLE_MAX_PAGES_def)
  have room1: "unat ?N < TABLE_MAX_PAGES" using room by simp
  note wf = word_succ_facts [OF room]
  from leaf_node_split_state [of ?cur t key val for key val, simplified, OF p room1 ty, of k v]
  obtain t1 where s: "leaf_node_split ?cur k v t
           = Some (Inr (leaf_node_key ?R (leaf_node_num_cells ?R - 1), ?N), t1)"
    and o1: "node_at t1 0 = set_leaf_node_num_cells 7
                 (split_old_body 14 (split_source ?cur k v ?R)
                    (set_leaf_node_next_leaf ?N ?R))"
    and n1: "node_at t1 ?N = set_leaf_node_num_cells 7
                 (split_new_body 14 (split_source ?cur k v ?R)
                    (set_leaf_node_next_leaf (leaf_node_next_leaf ?R)
                       (set_node_parent (node_parent ?R) (initialize_leaf_node zero_page))))"
    and oth1: "\<forall>m. m \<noteq> 0 \<and> m \<noteq> ?N \<longrightarrow> node_at t1 m = node_at t m"
    and np1: "num_pages (pager t1) = ?N + 1"
    and rp1: "root_page_num t1 = root_page_num t"
    by auto
  have c13: "cell_num ?cur \<le> 13" using j13 by simp
  have lc_old: "leaf_cells (node_at t1 0) = take 7 ?ins"
    unfolding o1 using leaf_cells_split_old [OF n13 c13, of "set_leaf_node_next_leaf ?N ?R" k v]
    by (simp add: set_leaf_node_next_leaf_def cells)
  have lc_new: "leaf_cells (node_at t1 ?N) = drop 7 ?ins"
    unfolding n1 using leaf_cells_split_new [OF n13 c13, of k v] by (simp add: cells)
  have root1: "is_node_root (node_at t1 0)" "get_node_type (node_at t1 0) = NODE_LEAF"
    using isr ty by (simp_all add: o1 codec_defs split_body_fields)
  have N0: "?N \<noteq> 0" using p by auto
  have pre: "root_page_num t1 = 0" "0 < num_pages (pager t1)" "?N < num_pages (pager t1)"
      "unat (num_pages (pager t1)) < TABLE_MAX_PAGES"
    using rp rp1 np1 wf room by (simp_all add: word_less_nat_alt)
  from create_new_root_leaf_state [OF pre(1,2,3) N0 pre(4) root1(2)]
  obtain t2 where c: "create_new_root t1 ?N = Some (Inr (), t2)"
    and np2: "num_pages (pager t2) = ?N + 1 + 1"
    and L2: "node_at t2 (?N + 1) = set_node_parent 0 (set_node_root False (node_at t1 0))"
    and N2: "node_at t2 ?N = set_node_parent 0 (node_at t1 ?N)"
    and ty2: "get_node_type (node_at t2 0) = NODE_INTERNAL"
    and nk2: "internal_node_num_keys (node_at t2 0) = 1"
    and ch2: "children (node_at t2 0) = [?N + 1, ?N]"
    and sp2: "separators (node_at t2 0)
                = [leaf_node_key (node_at t1 0) (leaf_node_num_cells (node_at t1 0) - 1)]"
    by (auto simp: np1)
  have ti: "table_insert imax fresh k v t = Some (Inr (), t2)"
    using f s c root1(1) n13
    by (simp add: table_insert_def table_find_leaf_root [OF ri cap ty]
          leaf_node_insert_def g0 Let_def leaf_constants leaf_node_split_and_insert_def)
  have ri2: "root_inv t2" using ri ti by (rule root_inv_table_insert)
  have cap2: "unat (num_pages (pager t2)) \<le> TABLE_MAX_PAGES"
    using np2 wf(3) room by simp
  have s': "sorted_wrt (<) (map fst ?ins)"
    using sorted_insert_at [of "[]" cs "[]" k "unat j" v] srt lo hi
    by (simp add: take_map drop_map)
  have len': "length ?ins = 14" using len by simp
  have "leaf_cells (node_at t2 (?N + 1)) = leaf_cells (node_at t1 0)"
    unfolding L2 by (rule leaf_cells_cong) (simp_all add: codec_defs)
  then have lcL: "leaf_cells (node_at t2 (?N + 1)) = take 7 ?ins"
    using lc_old by simp
  have "leaf_cells (node_at t2 ?N) = leaf_cells (node_at t1 ?N)"
    unfolding N2 by (rule leaf_cells_cong) (simp_all add: codec_defs)
  then have lcN: "leaf_cells (node_at t2 ?N) = drop 7 ?ins"
    using lc_new by simp
  have okL: "leaf_ok t2 (?N + 1)"
    using wf ty
    by (simp add: leaf_ok_def np2 L2 o1 codec_defs split_body_fields leaf_constants)
  have okN: "leaf_ok t2 ?N"
    using wf N0
    by (simp add: leaf_ok_def np2 N2 n1 codec_defs split_body_fields leaf_constants)
  have cnt1: "leaf_node_num_cells (node_at t1 0) = 7" by (simp add: o1 codec_defs)
  have sep: "leaf_node_key (node_at t1 0) (leaf_node_num_cells (node_at t1 0) - 1)
           = last (leaf_keys (node_at t2 (?N + 1)))"
  proof -
    have "last (leaf_keys (node_at t1 0))
        = leaf_node_key (node_at t1 0) (leaf_node_num_cells (node_at t1 0) - 1)"
      by (rule last_leaf_keys) (simp add: cnt1)
    moreover have "leaf_keys (node_at t2 (?N + 1)) = leaf_keys (node_at t1 0)"
      unfolding L2 by (rule leaf_keys_cong) (simp_all add: codec_defs)
    ultimately show ?thesis by simp
  qed
  have nxt: "leaf_node_next_leaf (node_at t2 (?N + 1)) = ?N"
      "leaf_node_next_leaf (node_at t2 ?N) = 0"
    using nx by (simp_all add: L2 N2 o1 n1 codec_defs split_body_fields)
  have pu: "unat ?N = 1" using lr by (simp add: leaf_root_def)
  have ir: "internal_root t2 ?ins"
    unfolding internal_root_def Let_def ch2
    using ty2 nk2 wf(5) okL okN lcL lcN sp2 sep nxt np2 wf(3) pu
    by simp
  have inv2: "tree_inv t2 ?ins"
    using ri2 cap2 s' ir by (simp add: tree_inv_def)
  show ?thesis
    by (intro exI [of _ t2] exI [of _ ?ins] conjI ti inv2 set_insert_at)
qed

lemma concat_nth_split:
  "i < length Ls \<Longrightarrow> concat Ls = concat (take i Ls) @ Ls ! i @ concat (drop (Suc i) Ls)"
proof -
  assume "i < length Ls"
  then have "Ls = take i Ls @ Ls ! i # drop (Suc i) Ls" by (rule id_take_nth_drop)
  then have "concat Ls = concat (take i Ls @ Ls ! i # drop (Suc i) Ls)" by (simp only:)
  then show ?thesis by simp
qed

lemma map_update_distinct:
  assumes "distinct chs" and "i < length chs"
    and "\<forall>c. c \<noteq> chs ! i \<longrightarrow> g c = f c" and "g (chs ! i) = X"
  shows "map g chs = (map f chs)[i := X]"
proof (rule nth_equalityI)
  show "length (map g chs) = length ((map f chs)[i := X])" by simp
  fix m assume "m < length (map g chs)"
  then have m: "m < length chs" by simp
  show "map g chs ! m = (map f chs)[i := X] ! m"
  proof (cases "m = i")
    case True then show ?thesis using assms(2,4) by simp
  next
    case False
    then have "chs ! m \<noteq> chs ! i" using assms(1,2) m by (simp add: nth_eq_iff_index_eq)
    then show ?thesis using assms(3) m False by simp
  qed
qed

lemma map_same_distinct:
  assumes "\<forall>c \<in> set chs. g c = f c"
  shows "map g chs = map f chs"
  using assms by simp

lemma sorted_concat_inner:
  fixes Ls :: "(u32 \<times> 'b) list list"
  assumes "sorted_wrt (<) (map fst (concat Ls))" and "i < length Ls"
  shows "sorted_wrt (<) (map fst (Ls ! i))"
proof -
  have "sorted_wrt (<) (map fst (concat (take i Ls) @ Ls ! i @ concat (drop (Suc i) Ls)))"
    using assms concat_nth_split [OF assms(2)] by simp
  then show ?thesis by (simp add: sorted_wrt_append)
qed

lemma sorted_concat_across:
  fixes Ls :: "(u32 \<times> 'b) list list"
  assumes "sorted_wrt (<) (map fst (concat Ls))" and "i < j" and "j < length Ls"
    and "x \<in> set (Ls ! i)" and "y \<in> set (Ls ! j)"
  shows "fst x < fst y"
proof -
  have i: "i < length Ls" using assms(2,3) by simp
  have "Ls ! j \<in> set (drop (Suc i) Ls)"
    using assms(2,3) by (auto simp: in_set_conv_nth intro!: exI [of _ "j - Suc i"])
  then have y: "y \<in> set (concat (drop (Suc i) Ls))" using assms(5) by auto
  have "sorted_wrt (<) (map fst (concat (take i Ls) @ Ls ! i @ concat (drop (Suc i) Ls)))"
    using assms(1) concat_nth_split [OF i] by simp
  then have "\<forall>a \<in> set (Ls ! i). \<forall>b \<in> set (concat (drop (Suc i) Ls)). fst a < fst b"
    by (simp add: sorted_wrt_append)
  then show ?thesis using assms(4) y by blast
qed

lemma in_concat_take:
  "y \<in> set (concat (take i Ls)) \<Longrightarrow> \<exists>m < i. m < length Ls \<and> y \<in> set (Ls ! m)"
proof -
  assume "y \<in> set (concat (take i Ls))"
  then obtain X where X: "X \<in> set (take i Ls)" "y \<in> set X" by auto
  then obtain n where n: "n < length (take i Ls)" "take i Ls ! n = X"
    by (auto simp: in_set_conv_nth)
  then have "n < i" "n < length Ls" "Ls ! n = X" by auto
  then show ?thesis using X(2) by (intro exI [of _ n]) simp
qed

lemma in_concat_drop:
  "y \<in> set (concat (drop (Suc i) Ls)) \<Longrightarrow> \<exists>m > i. m < length Ls \<and> y \<in> set (Ls ! m)"
proof -
  assume "y \<in> set (concat (drop (Suc i) Ls))"
  then obtain X where X: "X \<in> set (drop (Suc i) Ls)" "y \<in> set X" by auto
  then obtain n where n: "n < length (drop (Suc i) Ls)" "drop (Suc i) Ls ! n = X"
    by (auto simp: in_set_conv_nth)
  then have "Suc i + n < length Ls" "Ls ! (Suc i + n) = X" by auto
  then show ?thesis using X(2) by (intro exI [of _ "Suc i + n"]) simp
qed

lemma find_child_list:
  assumes n31: "unat (internal_node_num_keys node) < 2 ^ 31"
    and srt: "sorted_wrt (<) (separators node)"
  shows "\<exists>i. internal_node_find_child node k = Some i
           \<and> i \<le> internal_node_num_keys node
           \<and> (\<forall>m < unat i. separators node ! m < k)
           \<and> (\<forall>m. unat i \<le> m \<and> m < length (separators node) \<longrightarrow> k \<le> separators node ! m)"
proof -
  let ?n = "internal_node_num_keys node"
  have s: "\<forall>i j. i \<le> j \<and> j < ?n \<longrightarrow> internal_node_key node i \<le> internal_node_key node j"
  proof (intro allI impI, elim conjE)
    fix i j :: u32 assume a: "i \<le> j" "j < ?n"
    then have i: "i < ?n" by simp
    have u: "unat i \<le> unat j" "unat j < length (separators node)"
      using a by (simp_all add: word_less_nat_alt word_le_nat_alt)
    have "separators node ! unat i \<le> separators node ! unat j"
    proof (cases "unat i = unat j")
      case True then show ?thesis by simp
    next
      case False
      then have "unat i < unat j" using u(1) by simp
      then have "separators node ! unat i < separators node ! unat j"
        using srt u(2) by (simp add: sorted_wrt_iff_nth_less)
      then show ?thesis by simp
    qed
    then show "internal_node_key node i \<le> internal_node_key node j"
      using i a(2) by (simp add: internal_node_key_nth)
  qed
  have "\<exists>r. find_child_loop node k 0 ?n = Some r \<and> r \<le> ?n
           \<and> (\<forall>i. i < r \<longrightarrow> internal_node_key node i < k)
           \<and> (\<forall>i. r \<le> i \<and> i < ?n \<longrightarrow> k \<le> internal_node_key node i)"
    by (rule find_child_loop_correct [OF n31 _ _ s]) auto
  then obtain r where r: "internal_node_find_child node k = Some r" "r \<le> ?n"
      "\<forall>i. i < r \<longrightarrow> internal_node_key node i < k"
      "\<forall>i. r \<le> i \<and> i < ?n \<longrightarrow> k \<le> internal_node_key node i"
    by (auto simp: internal_node_find_child_def)
  have lo: "\<forall>m < unat r. separators node ! m < k"
  proof (intro allI impI)
    fix m assume m: "m < unat r"
    have mr: "m \<le> unat r" using m by simp
    have um: "unat (of_nat m :: u32) = m" using mr by (rule unat_of_nat_le)
    have lt: "(of_nat m :: u32) < r" using um m by (simp add: word_less_nat_alt)
    then have "(of_nat m :: u32) < ?n" using r(2) by simp
    then have "internal_node_key node (of_nat m) = separators node ! m"
      using um by (simp add: internal_node_key_nth)
    then show "separators node ! m < k" using r(3) lt by auto
  qed
  have hi: "\<forall>m. unat r \<le> m \<and> m < length (separators node) \<longrightarrow> k \<le> separators node ! m"
  proof (intro allI impI, elim conjE)
    fix m assume m: "unat r \<le> m" "m < length (separators node)"
    have mn: "m \<le> unat ?n" using m(2) by simp
    have um: "unat (of_nat m :: u32) = m" using mn by (rule unat_of_nat_le)
    have lt: "(of_nat m :: u32) < ?n" using um m(2) by (simp add: word_less_nat_alt)
    have ge: "r \<le> (of_nat m :: u32)" using um m(1) by (simp add: word_le_nat_alt)
    have "internal_node_key node (of_nat m) = separators node ! m"
      using lt um by (simp add: internal_node_key_nth)
    then show "k \<le> separators node ! m" using r(4) lt ge by auto
  qed
  show ?thesis using r(1,2) lo hi by (intro exI [of _ r]) simp
qed

lemma length_leaves [simp]:
  "length (leaves t) = Suc (unat (internal_node_num_keys (node_at t 0)))"
  by (simp add: leaves_def)

lemma leaves_nth:
  "i \<le> unat (internal_node_num_keys (node_at t 0)) \<Longrightarrow>
     leaves t ! i = leaf_cells (node_at t (children (node_at t 0) ! i))"
  by (simp add: leaves_def)

lemma internal_rootD:
  assumes "internal_root t cs"
  shows "get_node_type (node_at t 0) = NODE_INTERNAL"
    and "0 < internal_node_num_keys (node_at t 0)"
    and "distinct (children (node_at t 0))"
    and "\<And>c. c \<in> set (children (node_at t 0)) \<Longrightarrow> leaf_ok t c"
    and "cs = concat (leaves t)"
    and "\<And>i. i < unat (internal_node_num_keys (node_at t 0)) \<Longrightarrow>
           separators (node_at t 0) ! i
             = last (leaf_keys (node_at t (children (node_at t 0) ! i)))"
    and "separators (node_at t 0)
           = map (\<lambda>c. last (leaf_keys (node_at t c))) (butlast (children (node_at t 0)))"
    and "map (\<lambda>c. leaf_node_next_leaf (node_at t c)) (children (node_at t 0))
           = tl (children (node_at t 0)) @ [0]"
    and "unat (internal_node_num_keys (node_at t 0)) + 2 = unat (num_pages (pager t))"
proof -
  show s: "separators (node_at t 0)
           = map (\<lambda>c. last (leaf_keys (node_at t c))) (butlast (children (node_at t 0)))"
    using assms by (simp add: internal_root_def Let_def)
  show "separators (node_at t 0) ! i
             = last (leaf_keys (node_at t (children (node_at t 0) ! i)))"
    if "i < unat (internal_node_num_keys (node_at t 0))" for i
  proof -
    have "i < length (butlast (children (node_at t 0)))" using that by simp
    then have "map (\<lambda>c. last (leaf_keys (node_at t c))) (butlast (children (node_at t 0))) ! i
        = last (leaf_keys (node_at t (children (node_at t 0) ! i)))"
      by (simp add: nth_butlast del: length_children)
    then show ?thesis using s by simp
  qed
qed (use assms in \<open>simp_all add: internal_root_def Let_def leaves_def\<close>)

lemma child_leaf_ok:
  assumes "internal_root t cs" and "i \<le> unat (internal_node_num_keys (node_at t 0))"
  shows "leaf_ok t (children (node_at t 0) ! i)"
proof -
  have "children (node_at t 0) ! i \<in> set (children (node_at t 0))"
    using assms(2) by (intro nth_mem) simp
  then show ?thesis by (rule internal_rootD(4) [OF assms(1)])
qed

lemma leaf_okD:
  assumes "leaf_ok t c"
  shows "c \<noteq> 0" and "c < num_pages (pager t)"
    and "get_node_type (node_at t c) = NODE_LEAF"
    and "node_parent (node_at t c) = 0"
    and "0 < leaf_node_num_cells (node_at t c)"
    and "leaf_node_num_cells (node_at t c) \<le> 13"
    and "leaf_cells (node_at t c) \<noteq> []"
    and "7 \<le> leaf_node_num_cells (node_at t c)"
proof -
  show b: "7 \<le> leaf_node_num_cells (node_at t c)"
    using assms by (simp add: leaf_ok_def leaf_constants)
  have "(0 :: u32) < 7" by simp
  then have pos: "0 < leaf_node_num_cells (node_at t c)" using b by (rule less_le_trans)
  show a: "c \<noteq> 0" "c < num_pages (pager t)" "get_node_type (node_at t c) = NODE_LEAF"
    "node_parent (node_at t c) = 0" "0 < leaf_node_num_cells (node_at t c)"
    "leaf_node_num_cells (node_at t c) \<le> 13"
    using assms pos by (simp_all add: leaf_ok_def leaf_constants)
  have "0 < length (leaf_cells (node_at t c))" using a(5) by (simp add: word_less_nat_alt)
  then show "leaf_cells (node_at t c) \<noteq> []" by (auto simp del: length_leaf_cells)
qed

lemma last_leaf_keys_cells:
  "leaf_cells node \<noteq> [] \<Longrightarrow> last (leaf_keys node) = fst (last (leaf_cells node))"
  by (simp add: leaf_keys_def last_map)

lemma separators_sorted:
  assumes ir: "internal_root t cs" and srt: "sorted_wrt (<) (map fst cs)"
  shows "sorted_wrt (<) (separators (node_at t 0))"
proof -
  let ?R = "node_at t 0"
  let ?nk = "unat (internal_node_num_keys ?R)"
  have cs: "sorted_wrt (<) (map fst (concat (leaves t)))"
    using srt internal_rootD(5) [OF ir] by simp
  have "separators ?R ! a < separators ?R ! b" if ab: "a < b" "b < ?nk" for a b
  proof -
    have a: "a < ?nk" using ab by simp
    have la: "leaf_cells (node_at t (children ?R ! a)) \<noteq> []"
      and lb: "leaf_cells (node_at t (children ?R ! b)) \<noteq> []"
      using child_leaf_ok [OF ir, of a] child_leaf_ok [OF ir, of b] a ab(2)
      by (simp_all add: leaf_okD(7))
    have "last (leaves t ! a) \<in> set (leaves t ! a)" "last (leaves t ! b) \<in> set (leaves t ! b)"
      using la lb a ab(2) by (simp_all add: leaves_nth)
    then have "fst (last (leaves t ! a)) < fst (last (leaves t ! b))"
      using cs ab by (intro sorted_concat_across [of "leaves t" a b]) simp_all
    then show ?thesis
      using a ab(2) la lb
      by (simp add: internal_rootD(6) [OF ir] last_leaf_keys_cells leaves_nth)
  qed
  then show ?thesis by (simp add: sorted_wrt_iff_nth_less)
qed

lemma num_keys_small:
  assumes "internal_root t cs" and "unat (num_pages (pager t)) \<le> TABLE_MAX_PAGES"
  shows "unat (internal_node_num_keys (node_at t 0)) + 2 \<le> 100"
    and "unat (internal_node_num_keys (node_at t 0)) < 2 ^ 31"
    and "internal_node_num_keys (node_at t 0) < internal_node_num_keys (node_at t 0) + 1"
proof -
  show a: "unat (internal_node_num_keys (node_at t 0)) + 2 \<le> 100"
    using internal_rootD(9) [OF assms(1)] assms(2) by (simp add: TABLE_MAX_PAGES_def)
  then show b: "unat (internal_node_num_keys (node_at t 0)) < 2 ^ 31" by simp
  have "unat (internal_node_num_keys (node_at t 0) + 1)
      = unat (internal_node_num_keys (node_at t 0)) + 1"
    using a by (simp add: unat_word_ariths)
  then show "internal_node_num_keys (node_at t 0) < internal_node_num_keys (node_at t 0) + 1"
    by (simp add: word_less_nat_alt)
qed

lemma table_find_internal_root:
  assumes inv: "tree_inv t cs" and ir: "internal_root t cs"
  shows "\<exists>i. internal_node_find_child (node_at t 0) k = Some i
           \<and> i \<le> internal_node_num_keys (node_at t 0)
           \<and> (\<forall>m < unat i. separators (node_at t 0) ! m < k)
           \<and> (\<forall>m. unat i \<le> m \<and> m < unat (internal_node_num_keys (node_at t 0))
                  \<longrightarrow> k \<le> separators (node_at t 0) ! m)
           \<and> table_find fresh t k
                = leaf_node_find fresh t (children (node_at t 0) ! unat i) k"
proof -
  let ?R = "node_at t 0"
  have ri: "root_inv t" and cap: "unat (num_pages (pager t)) \<le> TABLE_MAX_PAGES"
    and srt: "sorted_wrt (<) (map fst cs)"
    using inv by (simp_all add: tree_inv_def)
  have rp: "root_page_num t = 0" and p0: "0 < num_pages (pager t)"
    using ri by (simp_all add: root_inv_def)
  have g0: "table_get_page t 0 = Inr t"
    using p0 by (simp add: table_get_page_existing TABLE_MAX_PAGES_def)
  have ty: "get_node_type ?R = NODE_INTERNAL" by (rule internal_rootD(1) [OF ir])
  from find_child_list [OF num_keys_small(2) [OF ir cap] separators_sorted [OF ir srt], of k]
  obtain i where i: "internal_node_find_child ?R k = Some i"
      "i \<le> internal_node_num_keys ?R"
      "\<forall>m < unat i. separators ?R ! m < k"
      "\<forall>m. unat i \<le> m \<and> m < length (separators ?R) \<longrightarrow> k \<le> separators ?R ! m"
    by blast
  let ?c = "children ?R ! unat i"
  have ch: "internal_node_child ?R i = ?c" using i(2) by (rule children_nth)
  have ok: "leaf_ok t ?c"
    using i(2) by (intro child_leaf_ok [OF ir]) (simp add: word_le_nat_alt)
  have cl: "?c < num_pages (pager t)" "get_node_type (node_at t ?c) = NODE_LEAF"
    using ok by (simp_all add: leaf_okD)
  have gc: "table_get_page t ?c = Inr t"
    using cl(1) cap by (intro table_get_page_existing) (simp_all add: word_less_nat_alt)
  have "internal_node_find fresh t 0 k = leaf_node_find fresh t ?c k"
    by (subst internal_node_find.simps) (simp add: g0 i(1) ch gc cl(2) Let_def)
  then have "table_find fresh t k = leaf_node_find fresh t ?c k"
    using ty by (simp add: table_find_def rp g0)
  then show ?thesis using i by (intro exI [of _ i]) simp
qed

lemma leaf_in_cs:
  assumes ir: "internal_root t cs" and "m \<le> unat (internal_node_num_keys (node_at t 0))"
    and "y \<in> set (leaves t ! m)"
  shows "y \<in> set cs"
proof -
  have "leaves t ! m \<in> set (leaves t)" using assms(2) by (intro nth_mem) simp
  then show ?thesis using assms(3) internal_rootD(5) [OF ir] by auto
qed

lemma separator_is_last:
  assumes ir: "internal_root t cs" and m: "m < unat (internal_node_num_keys (node_at t 0))"
  shows "separators (node_at t 0) ! m = fst (last (leaves t ! m))"
    and "last (leaves t ! m) \<in> set (leaves t ! m)"
    and "leaves t ! m \<noteq> []"
proof -
  have ok: "leaf_ok t (children (node_at t 0) ! m)"
    using m by (intro child_leaf_ok [OF ir]) simp
  show ne: "leaves t ! m \<noteq> []" using leaf_okD(7) [OF ok] m by (simp add: leaves_nth)
  then show "last (leaves t ! m) \<in> set (leaves t ! m)" by simp
  show "separators (node_at t 0) ! m = fst (last (leaves t ! m))"
    using internal_rootD(6) [OF ir m] leaf_okD(7) [OF ok] m
    by (simp add: leaves_nth last_leaf_keys_cells)
qed

lemma locate_internal:
  assumes inv: "tree_inv t cs" and ir: "internal_root t cs" and nin: "k \<notin> fst ` set cs"
  shows "\<exists>i j. i \<le> unat (internal_node_num_keys (node_at t 0))
      \<and> table_find fresh t k
           = Some (Inr (fresh\<lparr>page_num := children (node_at t 0) ! i, cell_num := j\<rparr>), t)
      \<and> j \<le> leaf_node_num_cells (node_at t (children (node_at t 0) ! i))
      \<and> (\<forall>y \<in> set (concat (take i (leaves t))). fst y < k)
      \<and> (\<forall>y \<in> set (concat (drop (Suc i) (leaves t))). k < fst y)
      \<and> (\<forall>y \<in> set (take (unat j) (leaves t ! i)). fst y < k)
      \<and> (\<forall>y \<in> set (drop (unat j) (leaves t ! i)). k < fst y)
      \<and> (\<forall>m < i. separators (node_at t 0) ! m < k)
      \<and> (\<forall>m. i \<le> m \<and> m < unat (internal_node_num_keys (node_at t 0))
             \<longrightarrow> k < separators (node_at t 0) ! m)"
proof -
  let ?R = "node_at t 0"
  let ?nk = "unat (internal_node_num_keys ?R)"
  have cap: "unat (num_pages (pager t)) \<le> TABLE_MAX_PAGES"
    and srt: "sorted_wrt (<) (map fst cs)"
    using inv by (simp_all add: tree_inv_def)
  have cs: "sorted_wrt (<) (map fst (concat (leaves t)))"
    using srt internal_rootD(5) [OF ir] by simp
  from table_find_internal_root [OF inv ir, of k fresh]
  obtain iw where iw: "iw \<le> internal_node_num_keys ?R"
      "\<forall>m < unat iw. separators ?R ! m < k"
      "\<forall>m. unat iw \<le> m \<and> m < ?nk \<longrightarrow> k \<le> separators ?R ! m"
      "table_find fresh t k = leaf_node_find fresh t (children ?R ! unat iw) k"
    by blast
  define i where "i = unat iw"
  have i: "i \<le> ?nk" using iw(1) by (simp add: i_def word_le_nat_alt)
  let ?c = "children ?R ! i"
  have ok: "leaf_ok t ?c" using i by (rule child_leaf_ok [OF ir])
  have Li: "leaves t ! i = leaf_cells (node_at t ?c)" using i by (rule leaves_nth)
  have sL: "sorted_wrt (<) (map fst (leaves t ! i))"
    using cs i by (intro sorted_concat_inner) simp_all
  have ks: "leaf_keys (node_at t ?c) = map fst (leaves t ! i)" by (simp add: leaf_keys_def Li)
  have ninL: "k \<notin> set (leaf_keys (node_at t ?c))"
  proof
    assume "k \<in> set (leaf_keys (node_at t ?c))"
    then obtain y where y: "y \<in> set (leaves t ! i)" "fst y = k" by (auto simp: ks)
    have "y \<in> set cs" using y(1) by (rule leaf_in_cs [OF ir i])
    then have "fst y \<in> fst ` set cs" by (rule imageI)
    then show False using nin y(2) by simp
  qed
  have n31: "unat (leaf_node_num_cells (node_at t ?c)) < 2 ^ 31"
    using leaf_okD(6) [OF ok] by (simp add: word_le_nat_alt)
  from leaf_find_list [OF leaf_okD(2) [OF ok] cap n31 _ ninL, of fresh] sL ks
  obtain j where j: "leaf_node_find fresh t ?c k
               = Some (Inr (fresh\<lparr>page_num := ?c, cell_num := j\<rparr>), t)"
      "j \<le> leaf_node_num_cells (node_at t ?c)"
      "\<forall>x \<in> set (take (unat j) (map fst (leaves t ! i))). x < k"
      "\<forall>x \<in> set (drop (unat j) (map fst (leaves t ! i))). k < x"
    by auto
  have strict: "k < separators ?R ! m" if m: "i \<le> m" "m < ?nk" for m
  proof -
    have "k \<le> separators ?R ! m" using iw(3) m by (simp add: i_def)
    moreover have "separators ?R ! m \<noteq> k"
    proof
      assume e: "separators ?R ! m = k"
      have "last (leaves t ! m) \<in> set cs"
        using separator_is_last(2) [OF ir m(2)] m(2) by (intro leaf_in_cs [OF ir]) simp_all
      then have "fst (last (leaves t ! m)) \<in> fst ` set cs" by (rule imageI)
      then show False using nin e separator_is_last(1) [OF ir m(2)] by simp
    qed
    ultimately show ?thesis by simp
  qed
  have A: "fst y < k" if "y \<in> set (concat (take i (leaves t)))" for y
  proof -
    from in_concat_take [OF that] obtain m where m: "m < i" "y \<in> set (leaves t ! m)" by blast
    have mk: "m < ?nk" using m(1) i by simp
    have "sorted_wrt (<) (map fst (leaves t ! m))"
      using cs mk by (intro sorted_concat_inner) simp_all
    then have "fst y \<le> fst (last (leaves t ! m))" using m(2) by (rule sorted_le_last)
    also have "\<dots> = separators ?R ! m" using separator_is_last(1) [OF ir mk] by simp
    also have "\<dots> < k" using iw(2) m(1) by (simp add: i_def)
    finally show ?thesis .
  qed
  have B: "k < fst y" if "y \<in> set (concat (drop (Suc i) (leaves t)))" for y
  proof -
    from in_concat_drop [OF that] obtain m where
      m: "i < m" "m < length (leaves t)" "y \<in> set (leaves t ! m)" by blast
    have ik: "i < ?nk" using m(1,2) by simp
    have "k < separators ?R ! i" using strict [of i] ik by simp
    also have "\<dots> = fst (last (leaves t ! i))" by (rule separator_is_last(1) [OF ir ik])
    also have "\<dots> < fst y"
      using cs m separator_is_last(2) [OF ir ik]
      by (intro sorted_concat_across [of "leaves t" i m]) simp_all
    finally show ?thesis .
  qed
  have tf: "table_find fresh t k
           = Some (Inr (fresh\<lparr>page_num := ?c, cell_num := j\<rparr>), t)"
    using iw(4) j(1) by (simp add: i_def)
  have lo: "\<forall>y \<in> set (take (unat j) (leaves t ! i)). fst y < k"
    using j(3) by (simp add: take_map)
  have hi: "\<forall>y \<in> set (drop (unat j) (leaves t ! i)). k < fst y"
    using j(4) by (simp add: drop_map)
  have sl: "\<forall>m < i. separators ?R ! m < k" using iw(2) by (simp add: i_def)
  show ?thesis
    using i tf j(2) A B lo hi sl strict
    by (intro exI [of _ i] exI [of _ j]) simp
qed

lemma internal_rootI:
  assumes "get_node_type (node_at t 0) = NODE_INTERNAL"
    and "0 < internal_node_num_keys (node_at t 0)"
    and "distinct (children (node_at t 0))"
    and "\<And>c. c \<in> set (children (node_at t 0)) \<Longrightarrow> leaf_ok t c"
    and "cs = concat (leaves t)"
    and "separators (node_at t 0)
           = map (\<lambda>c. last (leaf_keys (node_at t c))) (butlast (children (node_at t 0)))"
    and "map (\<lambda>c. leaf_node_next_leaf (node_at t c)) (children (node_at t 0))
           = tl (children (node_at t 0)) @ [0]"
    and "unat (internal_node_num_keys (node_at t 0)) + 2 = unat (num_pages (pager t))"
  shows "internal_root t cs"
  unfolding internal_root_def Let_def
  using assms by (simp add: leaves_def del: length_children)

lemma last_insert_at:
  "j < length L \<Longrightarrow> last (insert_at j x L) = last L"
  by (simp add: insert_at_def)

lemma concat_update:
  "i < length Ls \<Longrightarrow>
     concat (Ls[i := X]) = concat (take i Ls) @ X @ concat (drop (Suc i) Ls)"
  by (simp add: upd_conv_take_nth_drop)

lemma map_cong_list: "(\<And>c. c \<in> set xs \<Longrightarrow> g c = f c) \<Longrightarrow> map g xs = map f xs"
  by simp

lemma insert_child_plain:
  assumes inv: "tree_inv t cs" and ir: "internal_root t cs"
    and i: "i \<le> unat (internal_node_num_keys (node_at t 0))"
    and tf: "table_find fresh t k
           = Some (Inr (fresh\<lparr>page_num := children (node_at t 0) ! i, cell_num := j\<rparr>), t)"
    and j: "j \<le> leaf_node_num_cells (node_at t (children (node_at t 0) ! i))"
    and A: "\<forall>y \<in> set (concat (take i (leaves t))). fst y < k"
    and B: "\<forall>y \<in> set (concat (drop (Suc i) (leaves t))). k < fst y"
    and lo: "\<forall>y \<in> set (take (unat j) (leaves t ! i)). fst y < k"
    and hi: "\<forall>y \<in> set (drop (unat j) (leaves t ! i)). k < fst y"
    and sp: "\<forall>m. i \<le> m \<and> m < unat (internal_node_num_keys (node_at t 0))
             \<longrightarrow> k < separators (node_at t 0) ! m"
    and room: "leaf_node_num_cells (node_at t (children (node_at t 0) ! i))
                 < LEAF_NODE_MAX_CELLS"
  shows "\<exists>t' cs'. table_insert imax fresh k v t = Some (Inr (), t')
           \<and> tree_inv t' cs' \<and> set cs' = insert (k, v) (set cs)"
proof -
  let ?R = "node_at t 0"
  let ?chs = "children ?R"
  let ?c = "?chs ! i"
  let ?L = "leaves t ! i"
  let ?ins = "insert_at (unat j) (k, v) ?L"
  let ?t' = "update_node ?c (inserted_leaf j (k, v)) t"
  let ?cs' = "concat (take i (leaves t)) @ ?ins @ concat (drop (Suc i) (leaves t))"
  have ri: "root_inv t" and cap: "unat (num_pages (pager t)) \<le> TABLE_MAX_PAGES"
    and srt: "sorted_wrt (<) (map fst cs)"
    using inv by (simp_all add: tree_inv_def)
  have ok: "leaf_ok t ?c" using i by (rule child_leaf_ok [OF ir])
  note okD = leaf_okD [OF ok]
  have Li: "?L = leaf_cells (node_at t ?c)" using i by (rule leaves_nth)
  have il: "i < length ?chs" "i < length (leaves t)" using i by simp_all
  have cs: "cs = concat (take i (leaves t)) @ ?L @ concat (drop (Suc i) (leaves t))"
    using internal_rootD(5) [OF ir] concat_nth_split [OF il(2)] by simp
  have cur: "page_num (fresh\<lparr>page_num := ?c, cell_num := j\<rparr>) = ?c"
    "cell_num (fresh\<lparr>page_num := ?c, cell_num := j\<rparr>) = j" by simp_all
  have ins: "leaf_node_insert imax (fresh\<lparr>page_num := ?c, cell_num := j\<rparr>) k v t
               = Some (Inr (), ?t')"
    using leaf_node_insert_plain [of "fresh\<lparr>page_num := ?c, cell_num := j\<rparr>" t imax k v]
      okD(2) cap room j
    by (simp only: cur)
  have ti: "table_insert imax fresh k v t = Some (Inr (), ?t')"
    using tf ins by (simp add: table_insert_def)
  have nowrap: "leaf_node_num_cells (node_at t ?c) < leaf_node_num_cells (node_at t ?c) + 1"
    using room by (rule no_wrap_below)
  have lc: "leaf_cells (inserted_leaf j (k, v) (node_at t ?c)) = ?ins"
    using leaf_cells_inserted [OF nowrap j, of "(k, v)"] by (simp add: Li)
  have R': "node_at ?t' 0 = ?R" using okD(1) by (simp add: node_at_update_node)
  have other: "node_at ?t' c = node_at t c" if "c \<noteq> ?c" for c
    using that by (simp add: node_at_update_node)
  have self: "node_at ?t' ?c = inserted_leaf j (k, v) (node_at t ?c)"
    by (simp add: node_at_update_node)
  have "map (\<lambda>c. leaf_cells (node_at ?t' c)) ?chs
          = (map (\<lambda>c. leaf_cells (node_at t c)) ?chs)[i := ?ins]"
    by (rule map_update_distinct [OF internal_rootD(3) [OF ir] il(1)])
       (simp_all add: other self lc)
  then have lv: "leaves ?t' = (leaves t)[i := ?ins]"
    by (simp add: leaves_def R')
  have cs': "?cs' = concat (leaves ?t')"
    using concat_update [OF il(2), of ?ins] lv by simp
  have s': "sorted_wrt (<) (map fst ?cs')"
    using srt A B lo hi unfolding cs by (intro sorted_insert_at) simp_all
  have set': "set ?cs' = insert (k, v) (set cs)"
    unfolding cs by (simp add: set_insert_at)
  have n13: "leaf_node_num_cells (node_at t ?c) < 13" using room by (simp add: leaf_constants)
  have ok': "leaf_ok ?t' c" if c: "c \<in> set ?chs" for c
  proof (cases "c = ?c")
    case True
    show ?thesis
      using okD plus1_le_13 [OF n13]
      by (simp add: True leaf_ok_def self inserted_leaf_fields leaf_constants)
  next
    case False
    have "leaf_ok t c" using c by (rule internal_rootD(4) [OF ir])
    then show ?thesis using False by (simp add: leaf_ok_def other)
  qed
  have lastk: "last (leaf_keys (node_at ?t' c)) = last (leaf_keys (node_at t c))"
    if c: "c \<in> set (butlast ?chs)" for c
  proof (cases "c = ?c")
    case False
    then show ?thesis by (simp add: other)
  next
    case True
    obtain m where m: "m < length (butlast ?chs)" "butlast ?chs ! m = c"
      using c by (auto simp: in_set_conv_nth)
    have mk: "m < unat (internal_node_num_keys ?R)" using m(1) by simp
    have "?chs ! m = ?chs ! i" using m True by (simp add: nth_butlast del: length_children)
    then have mi: "m = i"
      using internal_rootD(3) [OF ir] mk il(1) by (simp add: nth_eq_iff_index_eq)
    have "k < separators ?R ! i" using sp mk mi by simp
    then have kl: "k < fst (last ?L)" using separator_is_last(1) [OF ir mk] mi by simp
    have ne: "?L \<noteq> []" using okD(7) by (simp add: Li)
    have jl: "unat j < length ?L"
    proof (rule ccontr)
      assume "\<not> unat j < length ?L"
      then have "take (unat j) ?L = ?L" by simp
      then have "last ?L \<in> set (take (unat j) ?L)" using ne by simp
      then have "fst (last ?L) < k" using lo by blast
      then show False using kl by simp
    qed
    have "last (leaf_keys (node_at ?t' ?c)) = fst (last ?ins)"
      using lc by (simp add: self leaf_keys_def last_map insert_at_def)
    also have "\<dots> = fst (last ?L)" using jl by (simp add: last_insert_at)
    also have "\<dots> = last (leaf_keys (node_at t ?c))"
      using ne by (simp add: leaf_keys_def last_map Li)
    finally show ?thesis by (simp add: True)
  qed
  have nxt: "leaf_node_next_leaf (node_at ?t' c) = leaf_node_next_leaf (node_at t c)" for c
    by (simp add: node_at_update_node inserted_leaf_fields)
  have ir': "internal_root ?t' ?cs'"
  proof (rule internal_rootI)
    show "get_node_type (node_at ?t' 0) = NODE_INTERNAL"
      unfolding R' by (rule internal_rootD(1) [OF ir])
    show "0 < internal_node_num_keys (node_at ?t' 0)"
      unfolding R' by (rule internal_rootD(2) [OF ir])
    show "distinct (children (node_at ?t' 0))"
      unfolding R' by (rule internal_rootD(3) [OF ir])
    show "leaf_ok ?t' c" if "c \<in> set (children (node_at ?t' 0))" for c
      using that unfolding R' by (rule ok')
    show "?cs' = concat (leaves ?t')" by (rule cs')
    show "separators (node_at ?t' 0)
           = map (\<lambda>c. last (leaf_keys (node_at ?t' c))) (butlast (children (node_at ?t' 0)))"
      unfolding R' using internal_rootD(7) [OF ir] lastk by (simp cong: map_cong)
    show "map (\<lambda>c. leaf_node_next_leaf (node_at ?t' c)) (children (node_at ?t' 0))
           = tl (children (node_at ?t' 0)) @ [0]"
      unfolding R' nxt by (rule internal_rootD(8) [OF ir])
    show "unat (internal_node_num_keys (node_at ?t' 0)) + 2 = unat (num_pages (pager ?t'))"
      unfolding R' using internal_rootD(9) [OF ir] by simp
  qed
  have inv': "tree_inv ?t' ?cs'"
    using ri cap s' ir'
    by (simp add: tree_inv_def root_inv_update_safe header_safe_inserted_leaf)
  show ?thesis
    by (intro exI [of _ ?t'] exI [of _ ?cs'] conjI ti inv' set')
qed

lemma split_child_prefix:
  assumes ri: "root_inv t" and cap: "unat (num_pages (pager t)) \<le> TABLE_MAX_PAGES"
    and ok: "leaf_ok t c"
    and full: "leaf_node_num_cells (node_at t c) = 13" and j: "j \<le> 13"
    and room: "unat (num_pages (pager t)) < TABLE_MAX_PAGES"
  shows "\<exists>t1. leaf_node_insert imax (fresh\<lparr>page_num := c, cell_num := j\<rparr>) k v t
           = (case update_internal_node_key 0 (leaf_node_key (node_at t c) 12)
                     (leaf_node_key (node_at t1 c) 6) t1 of
                None \<Rightarrow> None
              | Some t4 \<Rightarrow> internal_node_insert imax t4 0 (num_pages (pager t)))
      \<and> num_pages (pager t1) = num_pages (pager t) + 1
      \<and> root_page_num t1 = 0
      \<and> leaf_cells (node_at t1 c)
           = take 7 (insert_at (unat j) (k, v) (leaf_cells (node_at t c)))
      \<and> leaf_cells (node_at t1 (num_pages (pager t)))
           = drop 7 (insert_at (unat j) (k, v) (leaf_cells (node_at t c)))
      \<and> leaf_ok t1 c \<and> leaf_ok t1 (num_pages (pager t))
      \<and> leaf_node_num_cells (node_at t1 c) = 7
      \<and> leaf_node_num_cells (node_at t1 (num_pages (pager t))) = 7
      \<and> leaf_node_next_leaf (node_at t1 c) = num_pages (pager t)
      \<and> leaf_node_next_leaf (node_at t1 (num_pages (pager t)))
           = leaf_node_next_leaf (node_at t c)
      \<and> (\<forall>m. m \<noteq> c \<and> m \<noteq> num_pages (pager t) \<longrightarrow> node_at t1 m = node_at t m)"
proof -
  let ?N = "num_pages (pager t)"
  let ?C = "node_at t c"
  let ?cur = "fresh\<lparr>page_num := c, cell_num := j\<rparr>"
  note okD = leaf_okD [OF ok]
  have rp: "root_page_num t = 0" and p0: "0 < ?N"
    and nr: "\<not> is_node_root ?C"
    using ri okD(1) by (simp_all add: root_inv_def)
  have cl: "unat c < TABLE_MAX_PAGES" using okD(2) cap by (simp add: word_less_nat_alt)
  have gc: "table_get_page t c = Inr t" using okD(2) cl by (rule table_get_page_existing)
  from leaf_node_split_state [of ?cur t k v] okD(2,3) room
  obtain t1 where s: "leaf_node_split ?cur k v t
           = Some (Inr (leaf_node_key ?C (leaf_node_num_cells ?C - 1), ?N), t1)"
    and o1: "node_at t1 c = set_leaf_node_num_cells 7
                 (split_old_body 14 (split_source ?cur k v ?C)
                    (set_leaf_node_next_leaf ?N ?C))"
    and n1: "node_at t1 ?N = set_leaf_node_num_cells 7
                 (split_new_body 14 (split_source ?cur k v ?C)
                    (set_leaf_node_next_leaf (leaf_node_next_leaf ?C)
                       (set_node_parent (node_parent ?C) (initialize_leaf_node zero_page))))"
    and oth1: "\<forall>m. m \<noteq> c \<and> m \<noteq> ?N \<longrightarrow> node_at t1 m = node_at t m"
    and np1: "num_pages (pager t1) = ?N + 1"
    and rp1: "root_page_num t1 = root_page_num t"
    by auto
  have c13: "cell_num ?cur \<le> 13" using j by simp
  have lc_old: "leaf_cells (node_at t1 c)
                  = take 7 (insert_at (unat j) (k, v) (leaf_cells ?C))"
    unfolding o1 using leaf_cells_split_old [OF full c13, of "set_leaf_node_next_leaf ?N ?C" k v]
    by (simp add: set_leaf_node_next_leaf_def)
  have lc_new: "leaf_cells (node_at t1 ?N)
                  = drop 7 (insert_at (unat j) (k, v) (leaf_cells ?C))"
    unfolding n1 using leaf_cells_split_new [OF full c13, of k v] by simp
  have hdr_c: "is_node_root (node_at t1 c) = is_node_root ?C"
      "get_node_type (node_at t1 c) = NODE_LEAF"
      "node_parent (node_at t1 c) = 0"
      "leaf_node_num_cells (node_at t1 c) = 7"
      "leaf_node_next_leaf (node_at t1 c) = ?N"
    using okD(3,4) by (simp_all add: o1 codec_defs split_body_fields)
  have hdr_n: "get_node_type (node_at t1 ?N) = NODE_LEAF"
      "node_parent (node_at t1 ?N) = 0"
      "leaf_node_num_cells (node_at t1 ?N) = 7"
      "leaf_node_next_leaf (node_at t1 ?N) = leaf_node_next_leaf ?C"
    using okD(4) by (simp_all add: n1 codec_defs split_body_fields)
  have N1: "?N < ?N + 1" "unat (?N + 1) = unat ?N + 1" "?N \<noteq> 0"
  proof -
    have "unat ?N + 1 < 2 ^ 32" using room by (simp add: TABLE_MAX_PAGES_def)
    then show u: "unat (?N + 1) = unat ?N + 1" by (simp add: unat_word_ariths)
    then show "?N < ?N + 1" by (simp add: word_less_nat_alt)
    show "?N \<noteq> 0" using p0 by auto
  qed
  have c1: "c < ?N + 1" using okD(2) N1(1) by simp
  have okc: "leaf_ok t1 c"
    using okD(1) c1 hdr_c by (simp add: leaf_ok_def np1 leaf_constants)
  have okn: "leaf_ok t1 ?N"
    using N1 hdr_n by (simp add: leaf_ok_def np1 leaf_constants)
  have mk: "get_node_max_key t1 c = Some (Inr (leaf_node_key (node_at t1 c) 6), t1)"
    using get_node_max_key_leaf [OF hdr_c(2)] by (simp add: hdr_c(4))
  have g0: "table_get_page t1 0 = Inr t1"
    by (rule table_get_page_existing) (use p0 N1 in \<open>simp_all add: np1 TABLE_MAX_PAGES_def\<close>)
  have li: "leaf_node_insert imax ?cur k v t
           = (case update_internal_node_key 0 (leaf_node_key ?C 12)
                     (leaf_node_key (node_at t1 c) 6) t1 of
                None \<Rightarrow> None
              | Some t4 \<Rightarrow> internal_node_insert imax t4 0 ?N)"
    using s nr
    by (simp add: leaf_node_insert_def gc full leaf_constants Let_def
          leaf_node_split_and_insert_def hdr_c mk g0)
  show ?thesis
    using li np1 rp1 rp lc_old lc_new okc okn hdr_c(4,5) hdr_n(3,4) oth1
    by (intro exI [of _ t1]) simp
qed

lemma chain_splice:
  assumes "map f (P @ c # S) = tl (P @ c # S) @ [z]"
  shows "map f P @ n # f c # map f S = tl (P @ c # n # S) @ [z]"
proof (cases P)
  case Nil
  then show ?thesis using assms by simp
next
  case (Cons p P')
  have "(f p # map f P') @ (f c # map f S) = (P' @ [c]) @ (S @ [z])"
    using assms Cons by simp
  then have "f p # map f P' = P' @ [c] \<and> f c # map f S = S @ [z]"
    by (intro iffD1 [OF append_eq_append_conv]) simp_all
  then have "(f p # map f P') @ n # (f c # map f S) = (P' @ [c]) @ n # (S @ [z])"
    by (simp only:)
  then show ?thesis using Cons by simp
qed

lemma split_child_inv:
  assumes inv: "tree_inv t cs" and ir: "internal_root t cs"
    and i: "i \<le> unat (internal_node_num_keys (node_at t 0))"
    and A: "\<forall>y \<in> set (concat (take i (leaves t))). fst y < k"
    and B: "\<forall>y \<in> set (concat (drop (Suc i) (leaves t))). k < fst y"
    and lo: "\<forall>y \<in> set (take (unat j) (leaves t ! i)). fst y < k"
    and hi: "\<forall>y \<in> set (drop (unat j) (leaves t ! i)). k < fst y"
    and len: "length (leaves t ! i) = 13"
    and ri': "root_inv t'"
    and np': "num_pages (pager t') = num_pages (pager t) + 1"
    and room: "unat (num_pages (pager t)) < TABLE_MAX_PAGES"
    and lcc: "leaf_cells (node_at t' (children (node_at t 0) ! i))
               = take 7 (insert_at (unat j) (k, v) (leaves t ! i))"
    and lcn: "leaf_cells (node_at t' (num_pages (pager t)))
               = drop 7 (insert_at (unat j) (k, v) (leaves t ! i))"
    and okc: "leaf_ok t' (children (node_at t 0) ! i)"
    and okn: "leaf_ok t' (num_pages (pager t))"
    and nxc: "leaf_node_next_leaf (node_at t' (children (node_at t 0) ! i))
               = num_pages (pager t)"
    and nxn: "leaf_node_next_leaf (node_at t' (num_pages (pager t)))
               = leaf_node_next_leaf (node_at t (children (node_at t 0) ! i))"
    and oth: "\<forall>m. m \<noteq> 0 \<and> m \<noteq> children (node_at t 0) ! i \<and> m \<noteq> num_pages (pager t)
                \<longrightarrow> node_at t' m = node_at t m"
    and ty': "get_node_type (node_at t' 0) = NODE_INTERNAL"
    and ch': "children (node_at t' 0)
               = take i (children (node_at t 0))
                 @ [children (node_at t 0) ! i, num_pages (pager t)]
                 @ drop (Suc i) (children (node_at t 0))"
    and sp': "separators (node_at t' 0)
               = take i (separators (node_at t 0))
                 @ [fst (insert_at (unat j) (k, v) (leaves t ! i) ! 6)]
                 @ (if i < unat (internal_node_num_keys (node_at t 0))
                    then fst (last (insert_at (unat j) (k, v) (leaves t ! i)))
                           # drop (Suc i) (separators (node_at t 0))
                    else [])"
  shows "\<exists>cs'. tree_inv t' cs' \<and> set cs' = insert (k, v) (set cs)"
proof -
  let ?R = "node_at t 0"
  let ?chs = "children ?R"
  let ?nk = "unat (internal_node_num_keys ?R)"
  let ?N = "num_pages (pager t)"
  let ?c = "?chs ! i"
  let ?L = "leaves t ! i"
  let ?ins = "insert_at (unat j) (k, v) ?L"
  let ?P = "take i ?chs"
  let ?S = "drop (Suc i) ?chs"
  let ?A = "concat (take i (leaves t))"
  let ?B = "concat (drop (Suc i) (leaves t))"
  let ?cs' = "?A @ ?ins @ ?B"
  let ?g = "\<lambda>t c. last (leaf_keys (node_at t c))"
  let ?nx = "\<lambda>t c. leaf_node_next_leaf (node_at t c)"
  have cap: "unat ?N \<le> TABLE_MAX_PAGES" and srt: "sorted_wrt (<) (map fst cs)"
    using inv by (simp_all add: tree_inv_def)
  have il: "i < length ?chs" "i < length (leaves t)" using i by simp_all
  have chs: "?chs = ?P @ ?c # ?S" using il(1) by (rule id_take_nth_drop)
  have dist: "distinct (?P @ ?c # ?S)" using internal_rootD(3) [OF ir] chs by simp
  have N1: "unat (?N + 1) = unat ?N + 1" "?N < ?N + 1"
  proof -
    have "unat ?N + 1 < 2 ^ 32" using room by (simp add: TABLE_MAX_PAGES_def)
    then show u: "unat (?N + 1) = unat ?N + 1" by (simp add: unat_word_ariths)
    then show "?N < ?N + 1" by (simp add: word_less_nat_alt)
  qed
  have mem: "leaf_ok t x \<and> x \<noteq> 0 \<and> x \<noteq> ?N" if "x \<in> set ?chs" for x
  proof -
    have "leaf_ok t x" using that by (rule internal_rootD(4) [OF ir])
    then show ?thesis using leaf_okD(1,2) [of t x] by auto
  qed
  have PS: "set ?P \<subseteq> set ?chs" "set ?S \<subseteq> set ?chs"
    by (auto dest: in_set_takeD in_set_dropD)
  have same: "node_at t' x = node_at t x" if "x \<in> set ?P \<union> set ?S" for x
  proof -
    have "x \<noteq> ?c" using dist that by auto
    moreover have "x \<noteq> 0 \<and> x \<noteq> ?N" using mem [of x] that PS by auto
    ultimately show ?thesis using oth by simp
  qed
  have cs: "cs = ?A @ ?L @ ?B"
    using internal_rootD(5) [OF ir] concat_nth_split [OF il(2)] by simp
  have len': "length ?ins = 14" using len by simp
  have nk': "unat (internal_node_num_keys (node_at t' 0)) = Suc ?nk"
  proof -
    have "length (children (node_at t' 0)) = length ?chs + 1"
      unfolding ch' using il(1) by simp
    then show ?thesis by simp
  qed
  have lvP: "map (\<lambda>x. leaf_cells (node_at t' x)) ?P = take i (leaves t)"
    using same by (simp add: leaves_def take_map)
  have lvS: "map (\<lambda>x. leaf_cells (node_at t' x)) ?S = drop (Suc i) (leaves t)"
    using same by (simp add: leaves_def drop_map)
  have lv: "leaves t' = take i (leaves t) @ [take 7 ?ins, drop 7 ?ins] @ drop (Suc i) (leaves t)"
    unfolding leaves_def [of t'] ch' using lvP lvS lcc lcn by simp
  have cs': "?cs' = concat (leaves t')"
  proof -
    have "concat (leaves t') = ?A @ (take 7 ?ins @ drop 7 ?ins) @ ?B"
      unfolding lv by simp
    then show ?thesis by simp
  qed
  have s': "sorted_wrt (<) (map fst ?cs')"
    using srt A B lo hi unfolding cs by (intro sorted_insert_at) simp_all
  have set': "set ?cs' = insert (k, v) (set cs)"
    unfolding cs by (simp add: set_insert_at)
  have dist': "distinct (children (node_at t' 0))"
    unfolding ch' using dist mem [of ?c] mem PS il(1) by auto
  have ok': "leaf_ok t' x" if x: "x \<in> set (children (node_at t' 0))" for x
  proof -
    consider "x = ?c" | "x = ?N" | "x \<in> set ?P \<union> set ?S" using x unfolding ch' by auto
    then show ?thesis
    proof cases
      case 1 then show ?thesis using okc by simp
    next
      case 2 then show ?thesis using okn by simp
    next
      case 3
      have "leaf_ok t x" using mem [of x] 3 PS by auto
      then show ?thesis
        using same [OF 3] N1(2) by (auto simp: leaf_ok_def np')
    qed
  qed
  note td = take_drop_7_nonempty [OF len']
  have g7: "?g t' ?c = fst (?ins ! 6)"
    using td(1,4) by (simp add: leaf_keys_def last_map lcc)
  have gN: "?g t' ?N = fst (last ?ins)"
    using td(2,3) by (simp add: leaf_keys_def last_map lcn)
  have gP: "map (?g t') ?P = map (?g t) ?P" using same by simp
  have seps: "separators ?R = map (?g t) (butlast ?chs)" by (rule internal_rootD(7) [OF ir])
  have tk: "take i (separators ?R) = map (?g t) ?P"
  proof -
    have "take i (butlast ?chs) = ?P"
      using il(1) by (rule take_butlast)
    then show ?thesis unfolding seps by (simp add: take_map del: length_children)
  qed
  have sep': "separators (node_at t' 0) = map (?g t') (butlast (children (node_at t' 0)))"
  proof (cases "i < ?nk")
    case True
    then have Sne: "?S \<noteq> []" by simp
    have bS: "set (butlast ?S) \<subseteq> set ?S" by (auto dest: in_set_butlastD)
    have gS: "map (?g t') (butlast ?S) = map (?g t) (butlast ?S)"
      using same bS by auto
    have dr: "drop (Suc i) (separators ?R) = map (?g t) (butlast ?S)"
      unfolding seps by (simp add: drop_map drop_butlast del: length_children)
    have "butlast (children (node_at t' 0)) = ?P @ [?c, ?N] @ butlast ?S"
      unfolding ch' using Sne by (simp add: butlast_append)
    then show ?thesis
      unfolding sp' using True tk dr gP gS g7 gN by simp
  next
    case False
    then have Se: "?S = []" using i by simp
    have "butlast (children (node_at t' 0)) = ?P @ [?c]"
      unfolding ch' using Se by (simp add: butlast_append)
    then show ?thesis
      unfolding sp' using False tk gP g7 by simp
  qed
  have chain: "map (?nx t') (children (node_at t' 0)) = tl (children (node_at t' 0)) @ [0]"
  proof -
    have old: "map (?nx t) (?P @ ?c # ?S) = tl (?P @ ?c # ?S) @ [0]"
      using internal_rootD(8) [OF ir] chs by simp
    have "map (?nx t') (children (node_at t' 0))
        = map (?nx t) ?P @ ?N # ?nx t ?c # map (?nx t) ?S"
      unfolding ch' using same nxc nxn by simp
    also have "\<dots> = tl (?P @ ?c # ?N # ?S) @ [0]"
      using old by (rule chain_splice)
    finally show ?thesis unfolding ch' by simp
  qed
  have ir': "internal_root t' ?cs'"
  proof (rule internal_rootI)
    show "get_node_type (node_at t' 0) = NODE_INTERNAL" by (rule ty')
    show "0 < internal_node_num_keys (node_at t' 0)" using nk' by (simp add: word_less_nat_alt)
    show "distinct (children (node_at t' 0))" by (rule dist')
    show "leaf_ok t' x" if "x \<in> set (children (node_at t' 0))" for x using that by (rule ok')
    show "?cs' = concat (leaves t')" by (rule cs')
    show "separators (node_at t' 0)
           = map (\<lambda>c. last (leaf_keys (node_at t' c))) (butlast (children (node_at t' 0)))"
      by (rule sep')
    show "map (\<lambda>c. leaf_node_next_leaf (node_at t' c)) (children (node_at t' 0))
           = tl (children (node_at t' 0)) @ [0]" by (rule chain)
    show "unat (internal_node_num_keys (node_at t' 0)) + 2 = unat (num_pages (pager t'))"
      using nk' np' N1(1) internal_rootD(9) [OF ir] by simp
  qed
  have cap': "unat (num_pages (pager t')) \<le> TABLE_MAX_PAGES"
    using np' N1(1) room by simp
  have inv': "tree_inv t' ?cs'"
    using ri' cap' s' ir' by (simp add: tree_inv_def)
  show ?thesis by (intro exI [of _ ?cs'] conjI inv' set')
qed

lemma set_internal_node_key_fields:
  "get_node_type (set_internal_node_key idx key node) = get_node_type node"
  "is_node_root (set_internal_node_key idx key node) = is_node_root node"
  "internal_node_num_keys (set_internal_node_key idx key node) = internal_node_num_keys node"
  "internal_node_right_child (set_internal_node_key idx key node)
     = internal_node_right_child node"
  by (simp_all add: set_internal_node_key_def set_internal_node_cell_def codec_defs)

lemma internal_cells_set_key_outside:
  assumes "internal_node_num_keys node \<le> idx"
  shows "internal_cells (set_internal_node_key idx key node) = internal_cells node"
proof (rule nth_equalityI)
  show "length (internal_cells (set_internal_node_key idx key node))
          = length (internal_cells node)"
    by (simp add: set_internal_node_key_fields)
  fix m assume "m < length (internal_cells (set_internal_node_key idx key node))"
  then have m: "m < unat (internal_node_num_keys node)"
    by (simp add: set_internal_node_key_fields)
  then have "unat (of_nat m :: u32) = m"
    by (intro unat_of_nat_le [of m "internal_node_num_keys node"]) simp
  then have "(of_nat m :: u32) < internal_node_num_keys node"
    using m by (simp add: word_less_nat_alt)
  then have "(of_nat m :: u32) \<noteq> idx" using assms by auto
  moreover have "internal_cells (set_internal_node_key idx key node) ! m
      = internal_node_cell (set_internal_node_key idx key node) (of_nat m)"
    using m by (intro internal_cells_nth) (simp add: set_internal_node_key_fields)
  ultimately show
    "internal_cells (set_internal_node_key idx key node) ! m = internal_cells node ! m"
    using m
    by (simp add: internal_cells_nth internal_node_cell_def
          set_internal_node_key_def set_internal_node_cell_def)
qed

lemma internal_cells_set_key_inside:
  assumes "idx < internal_node_num_keys node"
  shows "internal_cells (set_internal_node_key idx key node)
           = (internal_cells node)[unat idx := (fst (internal_cells node ! unat idx), key)]"
proof (rule nth_equalityI)
  show "length (internal_cells (set_internal_node_key idx key node))
          = length ((internal_cells node)
                      [unat idx := (fst (internal_cells node ! unat idx), key)])"
    by (simp add: set_internal_node_key_fields)
  fix m assume "m < length (internal_cells (set_internal_node_key idx key node))"
  then have m: "m < unat (internal_node_num_keys node)"
    by (simp add: set_internal_node_key_fields)
  have um: "unat (of_nat m :: u32) = m"
    using m by (intro unat_of_nat_le [of m "internal_node_num_keys node"]) simp
  have e: "((of_nat m :: u32) = idx) = (m = unat idx)"
    using um by (auto simp: word_unat_eq_iff)
  have ui: "unat idx < unat (internal_node_num_keys node)"
    using assms by (simp add: word_less_nat_alt)
  have "internal_cells (set_internal_node_key idx key node) ! m
      = internal_node_cell (set_internal_node_key idx key node) (of_nat m)"
    using m by (intro internal_cells_nth) (simp add: set_internal_node_key_fields)
  also have "\<dots> = (if m = unat idx then (fst (internal_node_cell node idx), key)
                      else internal_node_cell node (of_nat m))"
    using e by (simp add: internal_node_cell_def set_internal_node_key_def
                  set_internal_node_cell_def)
  also have "\<dots>
      = (internal_cells node)[unat idx := (fst (internal_cells node ! unat idx), key)] ! m"
    using m ui by (simp add: internal_cells_nth nth_list_update)
  finally show "internal_cells (set_internal_node_key idx key node) ! m
          = (internal_cells node)[unat idx := (fst (internal_cells node ! unat idx), key)] ! m" .
qed

lemma map_fst_update_snd: "map fst (xs[i := (fst (xs ! i), y)]) = map fst xs"
proof (cases "i < length xs")
  case True
  have "(map fst xs)[i := map fst xs ! i] = map fst xs" by (rule list_update_id)
  then show ?thesis using True by (simp add: map_update)
next
  case False
  then have "xs[i := (fst (xs ! i), y)] = xs" by (intro list_update_beyond) simp
  then show ?thesis by (simp only:)
qed

lemma map_snd_update_snd: "map snd (xs[i := (fst (xs ! i), y)]) = (map snd xs)[i := y]"
  by (simp add: map_update)

lemma children_set_key:
  "idx \<le> internal_node_num_keys node \<Longrightarrow>
     children (set_internal_node_key idx key node) = children node"
proof (cases "idx < internal_node_num_keys node")
  case True
  then show ?thesis
    by (simp add: children_def internal_cells_set_key_inside map_fst_update_snd
          set_internal_node_key_fields)
next
  case False
  then have "internal_node_num_keys node \<le> idx" by simp
  then show ?thesis
    by (simp add: children_def internal_cells_set_key_outside set_internal_node_key_fields)
qed

lemma separators_set_key_inside:
  "idx < internal_node_num_keys node \<Longrightarrow>
     separators (set_internal_node_key idx key node) = (separators node)[unat idx := key]"
  by (simp add: separators_def internal_cells_set_key_inside map_snd_update_snd)

lemma separators_set_key_outside:
  "internal_node_num_keys node \<le> idx \<Longrightarrow>
     separators (set_internal_node_key idx key node) = separators node"
  by (simp add: separators_def internal_cells_set_key_outside)

lemma appended_parent_fields:
  "get_node_type (appended_parent c r m node) = get_node_type node"
  "is_node_root (appended_parent c r m node) = is_node_root node"
  "internal_node_right_child (appended_parent c r m node) = c"
  by (simp_all add: appended_parent_def codec_defs)

lemma inserted_parent_fields:
  "get_node_type (inserted_parent ix c m node) = get_node_type node"
  "is_node_root (inserted_parent ix c m node) = is_node_root node"
  "internal_node_right_child (inserted_parent ix c m node) = internal_node_right_child node"
  by (simp_all add: inserted_parent_def codec_defs)

lemma children_appended:
  assumes "internal_node_num_keys node < internal_node_num_keys node + 1"
  shows "children (appended_parent c (internal_node_right_child node) m node)
           = children node @ [c]"
    and "separators (appended_parent c r m node) = separators node @ [m]"
  using internal_cells_appended [OF assms]
  by (simp_all add: children_def separators_def appended_parent_fields)

lemma map_insert_at: "map f (insert_at n x xs) = insert_at n (f x) (map f xs)"
  by (simp add: insert_at_def take_map drop_map)

lemma children_inserted:
  assumes "internal_node_num_keys node < internal_node_num_keys node + 1"
    and "ix \<le> internal_node_num_keys node"
  shows "children (inserted_parent ix c m node) = insert_at (unat ix) c (children node)"
    and "separators (inserted_parent ix c m node) = insert_at (unat ix) m (separators node)"
proof -
  have u: "unat ix \<le> length (internal_cells node)"
    using assms(2) by (simp add: word_le_nat_alt)
  show "children (inserted_parent ix c m node) = insert_at (unat ix) c (children node)"
    using internal_cells_inserted [OF assms] u
    by (simp add: children_def inserted_parent_fields map_insert_at insert_at_def
          take_map drop_map)
  show "separators (inserted_parent ix c m node) = insert_at (unat ix) m (separators node)"
    using internal_cells_inserted [OF assms]
    by (simp add: separators_def map_insert_at)
qed

lemma length_pos_ne: "length xs = n \<Longrightarrow> 0 < n \<Longrightarrow> xs \<noteq> []"
  by auto

lemma find_child_exact:
  assumes n31: "unat (internal_node_num_keys node) < 2 ^ 31"
    and srt: "sorted_wrt (<) (separators node)"
    and n: "n \<le> unat (internal_node_num_keys node)"
    and lo: "\<forall>m < n. separators node ! m < key"
    and hi: "\<forall>m. n \<le> m \<and> m < unat (internal_node_num_keys node)
               \<longrightarrow> key \<le> separators node ! m"
  shows "\<exists>ix. internal_node_find_child node key = Some ix \<and> unat ix = n
           \<and> ix \<le> internal_node_num_keys node"
proof -
  from find_child_list [OF n31 srt, of key]
  obtain ix where ix: "internal_node_find_child node key = Some ix"
      "ix \<le> internal_node_num_keys node"
      "\<forall>m < unat ix. separators node ! m < key"
      "\<forall>m. unat ix \<le> m \<and> m < length (separators node) \<longrightarrow> key \<le> separators node ! m"
    by blast
  have le: "unat ix \<le> unat (internal_node_num_keys node)"
    using ix(2) by (simp add: word_le_nat_alt)
  have "unat ix = n"
  proof (rule ccontr)
    assume "unat ix \<noteq> n"
    then consider "unat ix < n" | "n < unat ix" by linarith
    then show False
    proof cases
      case 1
      then have "separators node ! unat ix < key" using lo by simp
      moreover have "key \<le> separators node ! unat ix" using ix(4) 1 n by simp
      ultimately show False by simp
    next
      case 2
      then have "separators node ! n < key" using ix(3) by simp
      moreover have "key \<le> separators node ! n" using hi 2 le by simp
      ultimately show False by simp
    qed
  qed
  then show ?thesis using ix(1,2) by (intro exI [of _ ix]) simp
qed

lemma sorted_update:
  fixes xs :: "u32 list"
  assumes "sorted_wrt (<) xs" and "i < length xs"
    and "\<forall>m < i. xs ! m < x" and "\<forall>m. i < m \<and> m < length xs \<longrightarrow> x < xs ! m"
  shows "sorted_wrt (<) (xs[i := x])"
proof -
  have "xs[i := x] ! a < xs[i := x] ! b" if ab: "a < b" "b < length xs" for a b
  proof -
    have a: "a < length xs" using ab by simp
    consider "a = i" | "b = i" | "a \<noteq> i \<and> b \<noteq> i" by auto
    then show ?thesis
    proof cases
      case 1 then show ?thesis using ab assms(2,4) by simp
    next
      case 2 then show ?thesis using ab assms(2,3) by simp
    next
      case 3
      then show ?thesis using ab a assms(1) by (simp add: sorted_wrt_iff_nth_less)
    qed
  qed
  then show ?thesis by (simp add: sorted_wrt_iff_nth_less)
qed

lemma split_keys:
  fixes L :: "(u32 \<times> 'b) list"
  assumes srt: "sorted_wrt (<) (map fst L)" and len: "length L = 13"
    and lo: "\<forall>y \<in> set (take j L). fst y < k"
    and hi: "\<forall>y \<in> set (drop j L). k < fst y"
  shows "sorted_wrt (<) (map fst (insert_at j (k, v) L))"
    and "fst (insert_at j (k, v) L ! 6) < fst (last (insert_at j (k, v) L))"
    and "insert_at j (k, v) L ! 6 \<in> insert (k, v) (set L)"
    and "last (insert_at j (k, v) L) \<in> insert (k, v) (set L)"
proof -
  let ?ins = "insert_at j (k, v) L"
  show s: "sorted_wrt (<) (map fst ?ins)"
    using sorted_insert_at [of "[]" L "[]" k j v] srt lo hi by simp
  have l: "length ?ins = 14" using len by simp
  then have ne: "?ins \<noteq> []" by (rule length_pos_ne) simp
  have "map fst ?ins ! 6 < map fst ?ins ! 13"
    using s l by (simp add: sorted_wrt_iff_nth_less del: length_insert_at)
  then show "fst (?ins ! 6) < fst (last ?ins)"
    using l ne by (simp add: last_conv_nth del: length_insert_at)
  have "?ins ! 6 \<in> set ?ins" using l by (intro nth_mem) simp
  then show "?ins ! 6 \<in> insert (k, v) (set L)" by (simp only: set_insert_at)
  have "last ?ins \<in> set ?ins" using ne by (rule last_in_set)
  then show "last ?ins \<in> insert (k, v) (set L)" by (simp only: set_insert_at)
qed

lemma leaf_key_12:
  assumes "leaf_node_num_cells node = 13"
  shows "leaf_node_key node 12 = fst (last (leaf_cells node))"
proof -
  have "last (leaf_keys node) = leaf_node_key node (leaf_node_num_cells node - 1)"
    by (rule last_leaf_keys) (simp add: assms)
  moreover have "leaf_cells node \<noteq> []"
  proof -
    have "length (leaf_cells node) = 13" by (simp add: assms)
    then show ?thesis by (rule length_pos_ne) simp
  qed
  ultimately show ?thesis by (simp add: assms last_leaf_keys_cells)
qed

lemma leaf_key_6:
  assumes "leaf_node_num_cells node = 7"
  shows "leaf_node_key node 6 = fst (last (leaf_cells node))"
proof -
  have "last (leaf_keys node) = leaf_node_key node (leaf_node_num_cells node - 1)"
    by (rule last_leaf_keys) (simp add: assms)
  moreover have "leaf_cells node \<noteq> []"
  proof -
    have "length (leaf_cells node) = 7" by (simp add: assms)
    then show ?thesis by (rule length_pos_ne) simp
  qed
  ultimately show ?thesis by (simp add: assms last_leaf_keys_cells)
qed

lemma insert_child_split_inner:
  assumes inv: "tree_inv t cs" and ir: "internal_root t cs"
    and i: "i < unat (internal_node_num_keys (node_at t 0))"
    and tf: "table_find fresh t k
           = Some (Inr (fresh\<lparr>page_num := children (node_at t 0) ! i, cell_num := j\<rparr>), t)"
    and j: "j \<le> leaf_node_num_cells (node_at t (children (node_at t 0) ! i))"
    and A: "\<forall>y \<in> set (concat (take i (leaves t))). fst y < k"
    and B: "\<forall>y \<in> set (concat (drop (Suc i) (leaves t))). k < fst y"
    and lo: "\<forall>y \<in> set (take (unat j) (leaves t ! i)). fst y < k"
    and hi: "\<forall>y \<in> set (drop (unat j) (leaves t ! i)). k < fst y"
    and sl: "\<forall>m < i. separators (node_at t 0) ! m < k"
    and sp: "\<forall>m. i \<le> m \<and> m < unat (internal_node_num_keys (node_at t 0))
             \<longrightarrow> k < separators (node_at t 0) ! m"
    and full: "leaf_node_num_cells (node_at t (children (node_at t 0) ! i)) = 13"
    and room: "unat (num_pages (pager t)) < TABLE_MAX_PAGES"
  shows "if internal_node_num_keys (node_at t 0) < imax
         then \<exists>t' cs'. table_insert imax fresh k v t = Some (Inr (), t')
                \<and> tree_inv t' cs' \<and> set cs' = insert (k, v) (set cs)
         else \<exists>t'. table_insert imax fresh k v t = Some (Inl InternalNodeFull, t')"
proof -
  let ?R = "node_at t 0"
  let ?chs = "children ?R"
  let ?seps = "separators ?R"
  let ?nkw = "internal_node_num_keys ?R"
  let ?nk = "unat ?nkw"
  let ?N = "num_pages (pager t)"
  let ?c = "?chs ! i"
  let ?L = "leaves t ! i"
  let ?ins = "insert_at (unat j) (k, v) ?L"
  have ri: "root_inv t" and cap: "unat ?N \<le> TABLE_MAX_PAGES"
    and srt: "sorted_wrt (<) (map fst cs)"
    using inv by (simp_all add: tree_inv_def)
  have p0: "0 < ?N" using ri by (simp add: root_inv_def)
  have ile: "i \<le> ?nk" using i by simp
  have ok: "leaf_ok t ?c" using ile by (rule child_leaf_ok [OF ir])
  note okD = leaf_okD [OF ok]
  have Li: "?L = leaf_cells (node_at t ?c)" using ile by (rule leaves_nth)
  have len: "length ?L = 13" by (simp add: Li full)
  have j13: "j \<le> 13" using j full by simp
  have csl: "sorted_wrt (<) (map fst (concat (leaves t)))"
    using srt internal_rootD(5) [OF ir] by simp
  have sL: "sorted_wrt (<) (map fst ?L)"
    using csl ile by (intro sorted_concat_inner) simp_all
  note sk = split_keys [OF sL len lo hi, of v]
  note nks = num_keys_small [OF ir cap]
  have ss: "sorted_wrt (<) ?seps" by (rule separators_sorted [OF ir srt])
  from split_child_prefix [OF ri cap ok full j13 room, of imax fresh k v]
  obtain t1 where li: "leaf_node_insert imax (fresh\<lparr>page_num := ?c, cell_num := j\<rparr>) k v t
           = (case update_internal_node_key 0 (leaf_node_key (node_at t ?c) 12)
                     (leaf_node_key (node_at t1 ?c) 6) t1 of
                None \<Rightarrow> None
              | Some t4 \<Rightarrow> internal_node_insert imax t4 0 ?N)"
    and np1: "num_pages (pager t1) = ?N + 1"
    and rp1: "root_page_num t1 = 0"
    and lcc: "leaf_cells (node_at t1 ?c) = take 7 ?ins"
    and lcn: "leaf_cells (node_at t1 ?N) = drop 7 ?ins"
    and okc: "leaf_ok t1 ?c" and okn: "leaf_ok t1 ?N"
    and n7: "leaf_node_num_cells (node_at t1 ?c) = 7"
         "leaf_node_num_cells (node_at t1 ?N) = 7"
    and nxc: "leaf_node_next_leaf (node_at t1 ?c) = ?N"
    and nxn: "leaf_node_next_leaf (node_at t1 ?N) = leaf_node_next_leaf (node_at t ?c)"
    and oth1: "\<forall>m. m \<noteq> ?c \<and> m \<noteq> ?N \<longrightarrow> node_at t1 m = node_at t m"
    unfolding Li by blast
  have N0: "?N \<noteq> 0" using p0 by auto
  have R1: "node_at t1 0 = ?R" using oth1 okD(1) N0 by simp
  have len': "length ?ins = 14" using len by simp
  note td = take_drop_7_nonempty [OF len']
  have jl: "unat j < length ?L"
  proof (rule ccontr)
    assume "\<not> unat j < length ?L"
    then have "take (unat j) ?L = ?L" by simp
    moreover have "?L \<noteq> []" by (rule length_pos_ne [OF len]) simp
    then have "last ?L \<in> set ?L" by (rule last_in_set)
    ultimately have "fst (last ?L) < k" using lo by simp
    moreover have "k < ?seps ! i" using sp i by simp
    ultimately show False using separator_is_last(1) [OF ir i] by simp
  qed
  have old_max: "leaf_node_key (node_at t ?c) 12 = ?seps ! i"
    using leaf_key_12 [OF full] separator_is_last(1) [OF ir i] by (simp add: Li)
  have new_max: "leaf_node_key (node_at t1 ?c) 6 = fst (?ins ! 6)"
    using leaf_key_6 [OF n7(1)] td(4) by (simp add: lcc)
  have last_ins: "fst (last ?ins) = ?seps ! i"
    using jl separator_is_last(1) [OF ir i] by (simp add: last_insert_at)
  have child_max: "leaf_node_key (node_at t1 ?N) 6 = ?seps ! i"
    using leaf_key_6 [OF n7(2)] td(3) last_ins by (simp add: lcn)
  have nm_lt: "fst (?ins ! 6) < ?seps ! i" using sk(2) last_ins by simp
  have nm_gt: "?seps ! m < fst (?ins ! 6)" if m: "m < i" for m
  proof -
    have mk: "m < ?nk" using m i by simp
    have "?seps ! m < fst y" if y: "y \<in> set ?L" for y
      using csl m ile y separator_is_last(1,2) [OF ir mk]
      by (simp add: sorted_concat_across [of "leaves t" m i])
    then have a: "y \<in> set ?L \<Longrightarrow> ?seps ! m < fst y" for y .
    have b: "?seps ! m < k" using sl m by simp
    from sk(3) consider "?ins ! 6 = (k, v)" | "?ins ! 6 \<in> set ?L" by blast
    then show ?thesis
    proof cases
      case 1 then show ?thesis using b by simp
    next
      case 2 then show ?thesis by (rule a)
    qed
  qed
  have seps_lt: "?seps ! a < ?seps ! b" if "a < b" "b < ?nk" for a b
    using ss that by (simp add: sorted_wrt_iff_nth_less)
  have "\<exists>ix. internal_node_find_child ?R (?seps ! i) = Some ix \<and> unat ix = i \<and> ix \<le> ?nkw"
  proof (rule find_child_exact [OF nks(2) ss ile], goal_cases)
    case 1 show ?case using seps_lt i by simp
  next
    case 2 show ?case
    proof (intro allI impI, elim conjE)
      fix m assume m: "i \<le> m" "m < ?nk"
      show "?seps ! i \<le> ?seps ! m"
      proof (cases "m = i")
        case True then show ?thesis by simp
      next
        case False
        then have "?seps ! i < ?seps ! m" using m by (intro seps_lt) simp_all
        then show ?thesis by simp
      qed
    qed
  qed
  then obtain idx where idx: "internal_node_find_child ?R (?seps ! i) = Some idx"
      "unat idx = i" "idx \<le> ?nkw" by blast
  have idx_lt: "idx < ?nkw" using idx(2) i by (simp add: word_less_nat_alt)
  define t4 where "t4 = update_node 0 (set_internal_node_key idx (fst (?ins ! 6))) t1"
  define R4 where "R4 = set_internal_node_key idx (fst (?ins ! 6)) ?R"
  have upd: "update_internal_node_key 0 (leaf_node_key (node_at t ?c) 12)
                     (leaf_node_key (node_at t1 ?c) 6) t1 = Some t4"
    by (simp add: update_internal_node_key_def R1 old_max new_max idx(1) t4_def)
  have n4: "node_at t4 0 = R4" "\<And>m. m \<noteq> 0 \<Longrightarrow> node_at t4 m = node_at t1 m"
    by (simp_all add: t4_def R4_def node_at_update_node R1)
  have np4: "num_pages (pager t4) = ?N + 1" by (simp add: t4_def np1)
  have R4f: "get_node_type R4 = NODE_INTERNAL" "internal_node_num_keys R4 = ?nkw"
      "internal_node_right_child R4 = internal_node_right_child ?R"
      "children R4 = ?chs" "separators R4 = ?seps[i := fst (?ins ! 6)]"
    using internal_rootD(1) [OF ir] idx(3) idx_lt
    by (simp_all add: R4_def set_internal_node_key_fields children_set_key
          separators_set_key_inside idx(2))
  have ss4: "sorted_wrt (<) (separators R4)"
    unfolding R4f(5)
  proof (rule sorted_update [OF ss], goal_cases)
    case 1 show ?case using i by simp
  next
    case 2 show ?case using nm_gt by simp
  next
    case 3 show ?case
    proof (intro allI impI, elim conjE)
      fix m assume m: "i < m" "m < length ?seps"
      have "?seps ! i < ?seps ! m" using m by (intro seps_lt) simp_all
      then show "fst (?ins ! 6) < ?seps ! m" using nm_lt by simp
    qed
  qed
  have "\<exists>ix. internal_node_find_child R4 (?seps ! i) = Some ix \<and> unat ix = Suc i
           \<and> ix \<le> internal_node_num_keys R4"
  proof (rule find_child_exact [OF _ ss4], goal_cases)
    case 1 show ?case using nks(2) by (simp add: R4f(2))
  next
    case 2 show ?case using i by (simp add: R4f(2))
  next
    case 3 show ?case
    proof (intro allI impI)
      fix m assume m: "m < Suc i"
      show "separators R4 ! m < ?seps ! i"
      proof (cases "m = i")
        case True then show ?thesis using nm_lt i by (simp add: R4f(5))
      next
        case False
        then have "m < i" using m by simp
        then show ?thesis using seps_lt [of m i] i False by (simp add: R4f(5))
      qed
    qed
  next
    case 4 show ?case
    proof (intro allI impI, elim conjE)
      fix m assume m: "Suc i \<le> m" "m < unat (internal_node_num_keys R4)"
      then have "?seps ! i < ?seps ! m" by (intro seps_lt) (simp_all add: R4f(2))
      then show "?seps ! i \<le> separators R4 ! m" using m by (simp add: R4f(5))
    qed
  qed
  then obtain index where index: "internal_node_find_child R4 (?seps ! i) = Some index"
      "unat index = Suc i" "index \<le> ?nkw" by (auto simp: R4f(2))
  let ?rc = "?chs ! ?nk"
  have rc: "internal_node_right_child ?R = ?rc"
    using children_nth [of ?nkw ?R] by (simp add: internal_node_child_def)
  have okr: "leaf_ok t ?rc" by (rule child_leaf_ok [OF ir]) simp
  note okrD = leaf_okD [OF okr]
  have rc_ne: "?rc \<noteq> ?c"
    using internal_rootD(3) [OF ir] i by (simp add: nth_eq_iff_index_eq)
  have rcN: "?rc \<noteq> ?N" using okrD(2) by auto
  have nrc: "node_at t4 ?rc = node_at t ?rc"
    using n4(2) [OF okrD(1)] oth1 rc_ne rcN by simp
  have N1: "unat (?N + 1) = unat ?N + 1" "?N < ?N + 1"
  proof -
    have "unat ?N + 1 < 2 ^ 32" using room by (simp add: TABLE_MAX_PAGES_def)
    then show u: "unat (?N + 1) = unat ?N + 1" by (simp add: unat_word_ariths)
    then show "?N < ?N + 1" by (simp add: word_less_nat_alt)
  qed
  have right_max: "leaf_node_key (node_at t ?rc) (leaf_node_num_cells (node_at t ?rc) - 1)
                     = fst (last (leaves t ! ?nk))"
    using last_leaf_keys [OF okrD(5)] okrD(7) by (simp add: last_leaf_keys_cells leaves_nth)
  have rm_gt: "?seps ! i < fst (last (leaves t ! ?nk))"
  proof -
    have "last (leaves t ! ?nk) \<in> set (leaves t ! ?nk)"
      using okrD(7) by (simp add: leaves_nth)
    then show ?thesis
      using csl i separator_is_last(1,2) [OF ir i]
      by (simp add: sorted_concat_across [of "leaves t" i ?nk])
  qed
  define t5 where "t5 = update_node 0 (inserted_parent index ?N (?seps ! i)) t4"
  have eq: "internal_node_insert imax t4 0 ?N =
   (let orig = internal_node_num_keys (node_at t4 0);
        right = internal_node_right_child (node_at t4 0);
        child_max = leaf_node_key (node_at t4 ?N) (leaf_node_num_cells (node_at t4 ?N) - 1);
        right_max = leaf_node_key (node_at t4 right) (leaf_node_num_cells (node_at t4 right) - 1)
    in if orig \<ge> imax
       then Some (Inl InternalNodeFull,
                  update_node 0 (set_internal_node_num_keys (orig + 1)) t4)
       else if child_max > right_max
       then Some (Inr (), update_node 0 (appended_parent ?N right right_max) t4)
       else Some (Inr (), update_node 0 (inserted_parent index ?N child_max) t4))"
  proof (rule internal_node_insert_leaf_children, goal_cases)
    case 1 show ?case using p0 N1(2) by (simp add: np4)
  next
    case 2 show ?case using N1(2) by (simp add: np4)
  next
    case 3 show ?case using okrD(2) N1(2) by (simp add: np4 n4(1) R4f(3) rc)
  next
    case 4 show ?case using N1(1) room by (simp add: np4)
  next
    case 5 show ?case by (simp add: n4(1) R4f(1))
  next
    case 6 show ?case using leaf_okD(3) [OF okn] by (simp add: n4(2) [OF N0])
  next
    case 7 show ?case using okrD(3) by (simp add: n4(1) R4f(3) rc nrc)
  next
    case 8 show ?case
      by (simp add: n4(1) n4(2) [OF N0] n7(2) child_max index(1))
  next
    case 9 show ?case using index(3) by (simp add: n4(1) R4f(2))
  next
    case 10 show ?case using nks(3) by (simp add: n4(1) R4f(2))
  qed
  show ?thesis
  proof (cases "?nkw < imax")
    case False
    then have "internal_node_insert imax t4 0 ?N
        = Some (Inl InternalNodeFull, update_node 0 (set_internal_node_num_keys (?nkw + 1)) t4)"
      using eq by (simp add: Let_def n4(1) R4f(2))
    then have "table_insert imax fresh k v t
        = Some (Inl InternalNodeFull, update_node 0 (set_internal_node_num_keys (?nkw + 1)) t4)"
      using tf li upd by (simp add: table_insert_def)
    then show ?thesis using False by simp
  next
    case True
    note im = True
    have ins: "internal_node_insert imax t4 0 ?N = Some (Inr (), t5)"
      using eq im rm_gt
      by (simp add: Let_def n4(1) n4(2) [OF N0] R4f(2,3) rc nrc n7(2) child_max right_max
            t5_def)
    have ti: "table_insert imax fresh k v t = Some (Inr (), t5)"
      using tf li upd ins by (simp add: table_insert_def)
    have ri5: "root_inv t5" using ri ti by (rule root_inv_table_insert)
    have n5: "\<And>m. m \<noteq> 0 \<Longrightarrow> node_at t5 m = node_at t1 m"
      "node_at t5 0 = inserted_parent index ?N (?seps ! i) R4"
      by (simp_all add: t5_def node_at_update_node n4)
    have np5: "num_pages (pager t5) = ?N + 1" by (simp add: t5_def np4)
    have nw4: "internal_node_num_keys R4 < internal_node_num_keys R4 + 1"
      using nks(3) by (simp add: R4f(2))
    have i4: "index \<le> internal_node_num_keys R4" using index(3) by (simp add: R4f(2))
    have ch5: "children (node_at t5 0) = take i ?chs @ [?c, ?N] @ drop (Suc i) ?chs"
    proof -
      have "children (node_at t5 0) = insert_at (Suc i) ?N ?chs"
        using children_inserted(1) [OF nw4 i4] by (simp add: n5(2) R4f(4) index(2))
      also have "\<dots> = take i ?chs @ [?c, ?N] @ drop (Suc i) ?chs"
        using i by (simp add: insert_at_def take_Suc_conv_app_nth)
      finally show ?thesis .
    qed
    have sp5: "separators (node_at t5 0)
                 = take i ?seps @ [fst (?ins ! 6)] @ (fst (last ?ins) # drop (Suc i) ?seps)"
    proof -
      have "separators (node_at t5 0) = insert_at (Suc i) (?seps ! i) (?seps[i := fst (?ins ! 6)])"
        using children_inserted(2) [OF nw4 i4] by (simp add: n5(2) R4f(5) index(2))
      also have "\<dots> = take i ?seps @ [fst (?ins ! 6)] @ (?seps ! i # drop (Suc i) ?seps)"
        using i by (simp add: insert_at_def take_Suc_conv_app_nth)
      finally show ?thesis by (simp add: last_ins)
    qed
    have c0: "?c \<noteq> 0" by (rule okD(1))
    have "\<exists>cs'. tree_inv t5 cs' \<and> set cs' = insert (k, v) (set cs)"
    proof (rule split_child_inv [OF inv ir ile A B lo hi len ri5 np5 room], goal_cases)
      case 1 show ?case by (simp add: n5(1) [OF c0] lcc)
    next
      case 2 show ?case by (simp add: n5(1) [OF N0] lcn)
    next
      case 3 show ?case using okc c0 by (simp add: leaf_ok_def n5(1) np5 np1)
    next
      case 4 show ?case using okn N0 by (simp add: leaf_ok_def n5(1) np5 np1)
    next
      case 5 show ?case by (simp add: n5(1) [OF c0] nxc)
    next
      case 6 show ?case by (simp add: n5(1) [OF N0] nxn)
    next
      case 7 show ?case using oth1 by (simp add: n5(1))
    next
      case 8 show ?case by (simp add: n5(2) inserted_parent_fields R4f(1))
    next
      case 9 show ?case by (rule ch5)
    next
      case 10 show ?case using i sp5 by simp
    qed
    then have "\<exists>t' cs'. table_insert imax fresh k v t = Some (Inr (), t')
                \<and> tree_inv t' cs' \<and> set cs' = insert (k, v) (set cs)"
      using ti by blast
    then show ?thesis using im by simp
  qed
qed

lemma insert_child_split_rightmost:
  assumes inv: "tree_inv t cs" and ir: "internal_root t cs"
    and i: "i = unat (internal_node_num_keys (node_at t 0))"
    and tf: "table_find fresh t k
           = Some (Inr (fresh\<lparr>page_num := children (node_at t 0) ! i, cell_num := j\<rparr>), t)"
    and j: "j \<le> leaf_node_num_cells (node_at t (children (node_at t 0) ! i))"
    and A: "\<forall>y \<in> set (concat (take i (leaves t))). fst y < k"
    and B: "\<forall>y \<in> set (concat (drop (Suc i) (leaves t))). k < fst y"
    and lo: "\<forall>y \<in> set (take (unat j) (leaves t ! i)). fst y < k"
    and hi: "\<forall>y \<in> set (drop (unat j) (leaves t ! i)). k < fst y"
    and full: "leaf_node_num_cells (node_at t (children (node_at t 0) ! i)) = 13"
    and room: "unat (num_pages (pager t)) < TABLE_MAX_PAGES"
  shows "if internal_node_num_keys (node_at t 0) < imax
         then \<exists>t' cs'. table_insert imax fresh k v t = Some (Inr (), t')
                \<and> tree_inv t' cs' \<and> set cs' = insert (k, v) (set cs)
         else \<exists>t'. table_insert imax fresh k v t = Some (Inl InternalNodeFull, t')"
proof -
  let ?R = "node_at t 0"
  let ?chs = "children ?R"
  let ?seps = "separators ?R"
  let ?nkw = "internal_node_num_keys ?R"
  let ?nk = "unat ?nkw"
  let ?N = "num_pages (pager t)"
  let ?c = "?chs ! i"
  let ?L = "leaves t ! i"
  let ?ins = "insert_at (unat j) (k, v) ?L"
  have ri: "root_inv t" and cap: "unat ?N \<le> TABLE_MAX_PAGES"
    and srt: "sorted_wrt (<) (map fst cs)"
    using inv by (simp_all add: tree_inv_def)
  have p0: "0 < ?N" using ri by (simp add: root_inv_def)
  have ile: "i \<le> ?nk" using i by simp
  have ok: "leaf_ok t ?c" using ile by (rule child_leaf_ok [OF ir])
  note okD = leaf_okD [OF ok]
  have Li: "?L = leaf_cells (node_at t ?c)" using ile by (rule leaves_nth)
  have len: "length ?L = 13" by (simp add: Li full)
  have j13: "j \<le> 13" using j full by simp
  have csl: "sorted_wrt (<) (map fst (concat (leaves t)))"
    using srt internal_rootD(5) [OF ir] by simp
  have sL: "sorted_wrt (<) (map fst ?L)"
    using csl ile by (intro sorted_concat_inner) simp_all
  note sk = split_keys [OF sL len lo hi, of v]
  note nks = num_keys_small [OF ir cap]
  have ss: "sorted_wrt (<) ?seps" by (rule separators_sorted [OF ir srt])
  from split_child_prefix [OF ri cap ok full j13 room, of imax fresh k v]
  obtain t1 where li: "leaf_node_insert imax (fresh\<lparr>page_num := ?c, cell_num := j\<rparr>) k v t
           = (case update_internal_node_key 0 (leaf_node_key (node_at t ?c) 12)
                     (leaf_node_key (node_at t1 ?c) 6) t1 of
                None \<Rightarrow> None
              | Some t4 \<Rightarrow> internal_node_insert imax t4 0 ?N)"
    and np1: "num_pages (pager t1) = ?N + 1"
    and rp1: "root_page_num t1 = 0"
    and lcc: "leaf_cells (node_at t1 ?c) = take 7 ?ins"
    and lcn: "leaf_cells (node_at t1 ?N) = drop 7 ?ins"
    and okc: "leaf_ok t1 ?c" and okn: "leaf_ok t1 ?N"
    and n7: "leaf_node_num_cells (node_at t1 ?c) = 7"
         "leaf_node_num_cells (node_at t1 ?N) = 7"
    and nxc: "leaf_node_next_leaf (node_at t1 ?c) = ?N"
    and nxn: "leaf_node_next_leaf (node_at t1 ?N) = leaf_node_next_leaf (node_at t ?c)"
    and oth1: "\<forall>m. m \<noteq> ?c \<and> m \<noteq> ?N \<longrightarrow> node_at t1 m = node_at t m"
    unfolding Li by blast
  have N0: "?N \<noteq> 0" using p0 by auto
  have c0: "?c \<noteq> 0" by (rule okD(1))
  have cN: "?c \<noteq> ?N" using okD(2) by auto
  have R1: "node_at t1 0 = ?R" using oth1 okD(1) N0 by simp
  have len': "length ?ins = 14" using len by simp
  note td = take_drop_7_nonempty [OF len']
  have Lne: "?L \<noteq> []" by (rule length_pos_ne [OF len]) simp
  have old_max: "leaf_node_key (node_at t ?c) 12 = fst (last ?L)"
    using leaf_key_12 [OF full] by (simp add: Li)
  have new_max: "leaf_node_key (node_at t1 ?c) 6 = fst (?ins ! 6)"
    using leaf_key_6 [OF n7(1)] td(4) by (simp add: lcc)
  have child_max: "leaf_node_key (node_at t1 ?N) 6 = fst (last ?ins)"
    using leaf_key_6 [OF n7(2)] td(3) by (simp add: lcn)
  have below: "?seps ! m < fst (last ?L)" if m: "m < ?nk" for m
  proof -
    have "last ?L \<in> set ?L" using Lne by (rule last_in_set)
    then show ?thesis
      using csl m i separator_is_last(1,2) [OF ir m]
      by (simp add: sorted_concat_across [of "leaves t" m i])
  qed
  have "\<exists>ix. internal_node_find_child ?R (fst (last ?L)) = Some ix \<and> unat ix = ?nk
           \<and> ix \<le> ?nkw"
  proof (rule find_child_exact [OF nks(2) ss], goal_cases)
    case 1 show ?case by simp
  next
    case 2 show ?case using below by simp
  next
    case 3 show ?case by auto
  qed
  then obtain idx where idx: "internal_node_find_child ?R (fst (last ?L)) = Some idx"
      "unat idx = ?nk" by blast
  have idx_eq: "idx = ?nkw" using idx(2) by (simp add: word_unat_eq_iff)
  define t4 where "t4 = update_node 0 (set_internal_node_key ?nkw (fst (?ins ! 6))) t1"
  define R4 where "R4 = set_internal_node_key ?nkw (fst (?ins ! 6)) ?R"
  have upd: "update_internal_node_key 0 (leaf_node_key (node_at t ?c) 12)
                     (leaf_node_key (node_at t1 ?c) 6) t1 = Some t4"
    using idx(1) by (simp add: update_internal_node_key_def R1 old_max new_max idx_eq t4_def)
  have n4: "node_at t4 0 = R4" "\<And>m. m \<noteq> 0 \<Longrightarrow> node_at t4 m = node_at t1 m"
    by (simp_all add: t4_def R4_def node_at_update_node R1)
  have np4: "num_pages (pager t4) = ?N + 1" by (simp add: t4_def np1)
  have rc: "internal_node_right_child ?R = ?c"
    using children_nth [of ?nkw ?R] by (simp add: internal_node_child_def i)
  have R4f: "get_node_type R4 = NODE_INTERNAL" "internal_node_num_keys R4 = ?nkw"
      "internal_node_right_child R4 = ?c"
      "children R4 = ?chs" "separators R4 = ?seps"
    using internal_rootD(1) [OF ir] rc
    by (simp_all add: R4_def set_internal_node_key_fields children_set_key
          separators_set_key_outside)
  from internal_node_find_child_returns [of R4 "fst (last ?ins)"] nks(2)
  obtain index where index: "internal_node_find_child R4 (fst (last ?ins)) = Some index"
      "index \<le> ?nkw" by (auto simp: R4f(2))
  have N1: "unat (?N + 1) = unat ?N + 1" "?N < ?N + 1"
  proof -
    have "unat ?N + 1 < 2 ^ 32" using room by (simp add: TABLE_MAX_PAGES_def)
    then show u: "unat (?N + 1) = unat ?N + 1" by (simp add: unat_word_ariths)
    then show "?N < ?N + 1" by (simp add: word_less_nat_alt)
  qed
  define t5 where "t5 = update_node 0 (appended_parent ?N ?c (fst (?ins ! 6))) t4"
  have eq: "internal_node_insert imax t4 0 ?N =
   (let orig = internal_node_num_keys (node_at t4 0);
        right = internal_node_right_child (node_at t4 0);
        child_max = leaf_node_key (node_at t4 ?N) (leaf_node_num_cells (node_at t4 ?N) - 1);
        right_max = leaf_node_key (node_at t4 right) (leaf_node_num_cells (node_at t4 right) - 1)
    in if orig \<ge> imax
       then Some (Inl InternalNodeFull,
                  update_node 0 (set_internal_node_num_keys (orig + 1)) t4)
       else if child_max > right_max
       then Some (Inr (), update_node 0 (appended_parent ?N right right_max) t4)
       else Some (Inr (), update_node 0 (inserted_parent index ?N child_max) t4))"
  proof (rule internal_node_insert_leaf_children, goal_cases)
    case 1 show ?case using p0 N1(2) by (simp add: np4)
  next
    case 2 show ?case using N1(2) by (simp add: np4)
  next
    case 3 show ?case using okD(2) N1(2) by (simp add: np4 n4(1) R4f(3))
  next
    case 4 show ?case using N1(1) room by (simp add: np4)
  next
    case 5 show ?case by (simp add: n4(1) R4f(1))
  next
    case 6 show ?case using leaf_okD(3) [OF okn] by (simp add: n4(2) [OF N0])
  next
    case 7 show ?case using leaf_okD(3) [OF okc] by (simp add: n4(1) R4f(3) n4(2) [OF c0])
  next
    case 8 show ?case
      by (simp add: n4(1) n4(2) [OF N0] n7(2) child_max index(1))
  next
    case 9 show ?case using index(2) by (simp add: n4(1) R4f(2))
  next
    case 10 show ?case using nks(3) by (simp add: n4(1) R4f(2))
  qed
  show ?thesis
  proof (cases "?nkw < imax")
    case False
    then have "internal_node_insert imax t4 0 ?N
        = Some (Inl InternalNodeFull, update_node 0 (set_internal_node_num_keys (?nkw + 1)) t4)"
      using eq by (simp add: Let_def n4(1) R4f(2))
    then have "table_insert imax fresh k v t
        = Some (Inl InternalNodeFull, update_node 0 (set_internal_node_num_keys (?nkw + 1)) t4)"
      using tf li upd by (simp add: table_insert_def)
    then show ?thesis using False by simp
  next
    case True
    note im = True
    have ins: "internal_node_insert imax t4 0 ?N = Some (Inr (), t5)"
      using eq im sk(2)
      by (simp add: Let_def n4(1) n4(2) [OF N0] n4(2) [OF c0] R4f(2,3) n7 child_max new_max
            t5_def)
    have ti: "table_insert imax fresh k v t = Some (Inr (), t5)"
      using tf li upd ins by (simp add: table_insert_def)
    have ri5: "root_inv t5" using ri ti by (rule root_inv_table_insert)
    have n5: "\<And>m. m \<noteq> 0 \<Longrightarrow> node_at t5 m = node_at t1 m"
      "node_at t5 0 = appended_parent ?N (internal_node_right_child R4) (fst (?ins ! 6)) R4"
      by (simp_all add: t5_def node_at_update_node n4 R4f(3))
    have np5: "num_pages (pager t5) = ?N + 1" by (simp add: t5_def np4)
    have nw4: "internal_node_num_keys R4 < internal_node_num_keys R4 + 1"
      using nks(3) by (simp add: R4f(2))
    have chs: "?chs = take i ?chs @ [?c]"
    proof -
      have "?chs = take i ?chs @ ?c # drop (Suc i) ?chs"
        by (rule id_take_nth_drop) (simp add: i)
      then show ?thesis by (simp add: i)
    qed
    have ch5: "children (node_at t5 0) = take i ?chs @ [?c, ?N] @ drop (Suc i) ?chs"
    proof -
      have "children (node_at t5 0) = ?chs @ [?N]"
        using children_appended(1) [OF nw4] by (simp add: n5(2) R4f(4))
      also have "\<dots> = (take i ?chs @ [?c]) @ [?N]" using chs by simp
      finally show ?thesis by (simp add: i)
    qed
    have sp5: "separators (node_at t5 0) = take i ?seps @ [fst (?ins ! 6)]"
      using children_appended(2) [OF nw4] by (simp add: n5(2) R4f(5) i)
    have "\<exists>cs'. tree_inv t5 cs' \<and> set cs' = insert (k, v) (set cs)"
    proof (rule split_child_inv [OF inv ir ile A B lo hi len ri5 np5 room], goal_cases)
      case 1 show ?case by (simp add: n5(1) [OF c0] lcc)
    next
      case 2 show ?case by (simp add: n5(1) [OF N0] lcn)
    next
      case 3 show ?case using okc c0 by (simp add: leaf_ok_def n5(1) np5 np1)
    next
      case 4 show ?case using okn N0 by (simp add: leaf_ok_def n5(1) np5 np1)
    next
      case 5 show ?case by (simp add: n5(1) [OF c0] nxc)
    next
      case 6 show ?case by (simp add: n5(1) [OF N0] nxn)
    next
      case 7 show ?case using oth1 by (simp add: n5(1))
    next
      case 8 show ?case by (simp add: n5(2) appended_parent_fields R4f(1))
    next
      case 9 show ?case by (rule ch5)
    next
      case 10 show ?case using i sp5 by simp
    qed
    then have "\<exists>t' cs'. table_insert imax fresh k v t = Some (Inr (), t')
                \<and> tree_inv t' cs' \<and> set cs' = insert (k, v) (set cs)"
      using ti by blast
    then show ?thesis using im by simp
  qed
qed

lemma split_without_room:
  assumes c: "page_num cur < num_pages (pager t)"
    and cap: "unat (num_pages (pager t)) \<le> TABLE_MAX_PAGES"
    and ty: "get_node_type (node_at t (page_num cur)) = NODE_LEAF"
    and full: "leaf_node_num_cells (node_at t (page_num cur)) = 13"
    and noroom: "\<not> unat (num_pages (pager t)) < TABLE_MAX_PAGES"
  shows "leaf_node_insert imax cur k v t = Some (Inl PageOutOfBounds, t)"
proof -
  have cl: "unat (page_num cur) < TABLE_MAX_PAGES" using c cap by (simp add: word_less_nat_alt)
  have gc: "table_get_page t (page_num cur) = Inr t" using c cl by (rule table_get_page_existing)
  have gn: "table_get_page t (num_pages (pager t)) = Inl PageOutOfBounds"
    using noroom by (simp add: table_get_page_def get_page_def)
  have "leaf_node_split cur k v t = Some (Inl PageOutOfBounds, t)"
    by (simp add: leaf_node_split_def gc get_node_max_key_leaf [OF ty] get_unused_page_num_def
          gn Let_def)
  then show ?thesis
    by (simp add: leaf_node_insert_def gc full leaf_constants Let_def
          leaf_node_split_and_insert_def)
qed


lemma length_concat_ge:
  "(\<And>L. L \<in> set Ls \<Longrightarrow> n \<le> length L) \<Longrightarrow> n * length Ls \<le> length (concat Ls)"
proof (induction Ls)
  case Nil
  then show ?case by simp
next
  case (Cons L Ls)
  have "n \<le> length L" by (rule Cons.prems) simp
  moreover have "n * length Ls \<le> length (concat Ls)"
    by (rule Cons.IH) (simp add: Cons.prems)
  ultimately show ?case by simp
qed

lemma cells_lower_bound:
  assumes ir: "internal_root t cs"
  shows "7 * (unat (internal_node_num_keys (node_at t 0)) + 1) \<le> length cs"
proof -
  have "7 \<le> length L" if "L \<in> set (leaves t)" for L
  proof -
    from that obtain c where c: "c \<in> set (children (node_at t 0))"
      "L = leaf_cells (node_at t c)" by (auto simp: leaves_def)
    have "leaf_ok t c" using c(1) by (rule internal_rootD(4) [OF ir])
    then have "7 \<le> leaf_node_num_cells (node_at t c)" by (rule leaf_okD(8))
    then show ?thesis using c(2) by (simp add: word_le_nat_alt)
  qed
  then have "7 * length (leaves t) \<le> length (concat (leaves t))" by (rule length_concat_ge)
  then show ?thesis using internal_rootD(5) [OF ir] by simp
qed

lemma length_concat_le:
  "(\<And>L. L \<in> set Ls \<Longrightarrow> length L \<le> n) \<Longrightarrow> length (concat Ls) \<le> n * length Ls"
proof (induction Ls)
  case Nil
  then show ?case by simp
next
  case (Cons L Ls)
  have "length L \<le> n" by (rule Cons.prems) simp
  moreover have "length (concat Ls) \<le> n * length Ls"
    by (rule Cons.IH) (simp add: Cons.prems)
  ultimately show ?case by simp
qed

lemma cells_upper_bound:
  assumes ir: "internal_root t cs"
  shows "length cs \<le> 13 * (unat (internal_node_num_keys (node_at t 0)) + 1)"
proof -
  have "length L \<le> 13" if "L \<in> set (leaves t)" for L
  proof -
    from that obtain c where c: "c \<in> set (children (node_at t 0))"
      "L = leaf_cells (node_at t c)" by (auto simp: leaves_def)
    have "leaf_ok t c" using c(1) by (rule internal_rootD(4) [OF ir])
    then have "leaf_node_num_cells (node_at t c) \<le> 13" by (simp add: leaf_ok_def leaf_constants)
    then show ?thesis using c(2) by (simp add: word_le_nat_alt)
  qed
  then have "length (concat (leaves t)) \<le> 13 * length (leaves t)" by (rule length_concat_le)
  then show ?thesis using internal_rootD(5) [OF ir] by simp
qed

lemma insert_step:
  assumes inv: "tree_inv t cs" and nin: "k \<notin> fst ` set cs"
  shows "\<exists>r t'. table_insert imax fresh k v t = Some (r, t')
           \<and> (r = Inr () \<longrightarrow> (\<exists>cs'. tree_inv t' cs' \<and> set cs' = insert (k, v) (set cs)))
           \<and> (length cs < 7 * min (unat imax) 98 + 7 \<longrightarrow> r = Inr ())"
proof -
  let ?good = "\<exists>t'' cs'. table_insert imax fresh k v t = Some (Inr (), t'')
           \<and> tree_inv t'' cs' \<and> set cs' = insert (k, v) (set cs)"
  let ?bad = "\<lambda>e. (\<exists>t''. table_insert imax fresh k v t = Some (Inl e, t''))
           \<and> \<not> length cs < 7 * min (unat imax) 98 + 7"
  have cap: "unat (num_pages (pager t)) \<le> TABLE_MAX_PAGES"
    using inv by (simp add: tree_inv_def)
  have "?good \<or> (\<exists>e. ?bad e)"
  proof (cases "leaf_root t cs")
    case True
    show ?thesis
    proof (cases "leaf_node_num_cells (node_at t 0) < LEAF_NODE_MAX_CELLS")
      case lt: True
      have ?good by (rule insert_leaf_root_plain [OF inv True lt nin])
      then show ?thesis ..
    next
      case False
      moreover have "leaf_node_num_cells (node_at t 0) \<le> LEAF_NODE_MAX_CELLS"
        using True by (simp add: leaf_root_def)
      ultimately have full: "leaf_node_num_cells (node_at t 0) = LEAF_NODE_MAX_CELLS" by simp
      have room: "unat (num_pages (pager t)) + 2 \<le> TABLE_MAX_PAGES"
        using True by (simp add: leaf_root_def TABLE_MAX_PAGES_def)
      have ?good by (rule insert_leaf_root_split [OF inv True full nin room])
      then show ?thesis ..
    qed
  next
    case False
    then have ir: "internal_root t cs" using inv by (simp add: tree_inv_def)
    let ?R = "node_at t 0"
    let ?nk = "unat (internal_node_num_keys ?R)"
    from locate_internal [OF inv ir nin, of fresh]
    obtain i j where i: "i \<le> ?nk"
      and tf: "table_find fresh t k
           = Some (Inr (fresh\<lparr>page_num := children ?R ! i, cell_num := j\<rparr>), t)"
      and j: "j \<le> leaf_node_num_cells (node_at t (children ?R ! i))"
      and A: "\<forall>y \<in> set (concat (take i (leaves t))). fst y < k"
      and B: "\<forall>y \<in> set (concat (drop (Suc i) (leaves t))). k < fst y"
      and lo: "\<forall>y \<in> set (take (unat j) (leaves t ! i)). fst y < k"
      and hi: "\<forall>y \<in> set (drop (unat j) (leaves t ! i)). k < fst y"
      and sl: "\<forall>m < i. separators ?R ! m < k"
      and sp: "\<forall>m. i \<le> m \<and> m < ?nk \<longrightarrow> k < separators ?R ! m"
      by blast
    let ?c = "children ?R ! i"
    have ok: "leaf_ok t ?c" using i by (rule child_leaf_ok [OF ir])
    note okD = leaf_okD [OF ok]
    have lb: "7 * (?nk + 1) \<le> length cs" by (rule cells_lower_bound [OF ir])
    have np: "?nk + 2 = unat (num_pages (pager t))" by (rule internal_rootD(9) [OF ir])
    show ?thesis
    proof (cases "leaf_node_num_cells (node_at t ?c) < LEAF_NODE_MAX_CELLS")
      case True
      have ?good by (rule insert_child_plain [OF inv ir i tf j A B lo hi sp True])
      then show ?thesis ..
    next
      case False
      then have full: "leaf_node_num_cells (node_at t ?c) = 13"
        using okD(6) by (simp add: leaf_constants)
      show ?thesis
      proof (cases "unat (num_pages (pager t)) < TABLE_MAX_PAGES")
        case no: False
        have "leaf_node_insert imax (fresh\<lparr>page_num := ?c, cell_num := j\<rparr>) k v t
            = Some (Inl PageOutOfBounds, t)"
          by (rule split_without_room) (use okD cap full no in simp_all)
        then have "table_insert imax fresh k v t = Some (Inl PageOutOfBounds, t)"
          using tf by (simp add: table_insert_def)
        moreover have "\<not> length cs < 7 * min (unat imax) 98 + 7"
          using lb np no by (simp add: TABLE_MAX_PAGES_def)
        ultimately have "?bad PageOutOfBounds" by blast
        then show ?thesis by blast
      next
        case room: True
        have alt: "if internal_node_num_keys ?R < imax then ?good
                   else \<exists>t'. table_insert imax fresh k v t = Some (Inl InternalNodeFull, t')"
        proof (cases "i < ?nk")
          case True
          show ?thesis
            by (rule insert_child_split_inner [OF inv ir True tf j A B lo hi sl sp full room])
        next
          case False
          then have e: "i = ?nk" using i by simp
          show ?thesis
            by (rule insert_child_split_rightmost [OF inv ir e tf j A B lo hi full room])
        qed
        show ?thesis
        proof (cases "internal_node_num_keys ?R < imax")
          case True
          then have ?good using alt by simp
          then show ?thesis ..
        next
          case False
          then have "\<exists>t'. table_insert imax fresh k v t = Some (Inl InternalNodeFull, t')"
            using alt by simp
          moreover have "unat imax \<le> ?nk" using False by (simp add: word_less_nat_alt)
          then have "\<not> length cs < 7 * min (unat imax) 98 + 7" using lb by simp
          ultimately have "?bad InternalNodeFull" by blast
          then show ?thesis by blast
        qed
      qed
    qed
  qed
  then show ?thesis
  proof
    assume ?good
    then obtain t'' cs' where "table_insert imax fresh k v t = Some (Inr (), t'')"
      "tree_inv t'' cs'" "set cs' = insert (k, v) (set cs)" by blast
    then show ?thesis by (intro exI [of _ "Inr ()"] exI [of _ t'']) auto
  next
    assume "\<exists>e. ?bad e"
    then obtain e t'' where "table_insert imax fresh k v t = Some (Inl e, t'')"
      "\<not> length cs < 7 * min (unat imax) 98 + 7" by blast
    then show ?thesis by (intro exI [of _ "Inl e"] exI [of _ t'']) auto
  qed
qed

lemma leaf_find_zero:
  assumes p: "p < num_pages (pager t)" and cap: "unat (num_pages (pager t)) \<le> TABLE_MAX_PAGES"
    and n31: "unat (leaf_node_num_cells (node_at t p)) < 2 ^ 31"
    and srt: "sorted_wrt (<) (leaf_keys (node_at t p))"
  shows "leaf_node_find fresh t p 0 = Some (Inr (fresh\<lparr>page_num := p, cell_num := 0\<rparr>), t)"
proof -
  let ?ks = "leaf_keys (node_at t p)"
  from leaf_find_list_ge [OF p cap n31 srt, where k = 0 and fresh = fresh]
  obtain j where j: "leaf_node_find fresh t p 0
               = Some (Inr (fresh\<lparr>page_num := p, cell_num := j\<rparr>), t)"
      "j \<le> leaf_node_num_cells (node_at t p)"
      "\<forall>x \<in> set (take (unat j) ?ks). x < 0"
    by blast
  have "take (unat j) ?ks = []"
  proof (cases "take (unat j) ?ks")
    case Nil then show ?thesis .
  next
    case (Cons x xs)
    then have "x \<in> set (take (unat j) ?ks)" by simp
    then have "x < 0" using j(3) by blast
    then show ?thesis by simp
  qed
  moreover have "unat j \<le> length ?ks" using j(2) by (simp add: word_le_nat_alt)
  ultimately have "unat j = 0" by (cases "unat j") (auto simp del: length_leaf_keys)
  then have "j = 0" by (simp add: unat_eq_0)
  then show ?thesis using j(1) by simp
qed

lemma scan_chain:
  assumes cap: "unat (num_pages (pager t)) \<le> TABLE_MAX_PAGES"
    and pages: "\<forall>x \<in> set (c # S). x < num_pages (pager t)"
    and chain: "map (\<lambda>x. leaf_node_next_leaf (node_at t x)) (c # S) = S @ [0]"
    and ne: "\<forall>x \<in> set S. x \<noteq> 0 \<and> 0 < leaf_node_num_cells (node_at t x)"
    and cur: "page_num cur = c" "\<not> end_of_table cur"
      "cell_num cur < leaf_node_num_cells (node_at t c)"
  shows "scan_loop cur visited t
           = Some (Inr (visited @ drop (unat (cell_num cur)) (leaf_cells (node_at t c))
                          @ concat (map (\<lambda>x. leaf_cells (node_at t x)) S)), t)"
  using pages chain ne cur
proof (induction S arbitrary: c cur visited)
  case Nil
  let ?n = "leaf_node_num_cells (node_at t c)"
  have gc: "table_get_page t c = Inr t"
    using Nil.prems(1) cap by (intro table_get_page_existing) (simp_all add: word_less_nat_alt)
  have nx: "leaf_node_next_leaf (node_at t c) = 0" using Nil.prems(2) by simp
  show ?case using Nil.prems(4,5,6)
  proof (induction "unat ?n - unat (cell_num cur)" arbitrary: cur visited rule: less_induct)
    case less
    let ?j = "cell_num cur"
    have jn: "unat ?j < unat ?n" using less.prems(3) by (simp add: word_less_nat_alt)
    have j1: "unat (?j + 1) = Suc (unat ?j)"
      using less.prems(3) by (intro unat_succ no_wrap_below)
    have cell: "(leaf_node_key (node_at t c) ?j, leaf_node_value (node_at t c) ?j)
                  = leaf_cells (node_at t c) ! unat ?j"
      using jn by (simp add: leaf_cells_nth leaf_node_key_def leaf_node_value_def)
    have dr: "drop (unat ?j) (leaf_cells (node_at t c))
                = leaf_cells (node_at t c) ! unat ?j # drop (Suc (unat ?j)) (leaf_cells (node_at t c))"
      using jn by (intro Cons_nth_drop_Suc [symmetric]) simp
    show ?case
    proof (cases "?n \<le> ?j + 1")
      case True
      then have "unat ?n \<le> Suc (unat ?j)" using j1 by (simp add: word_le_nat_alt)
      then have e: "drop (Suc (unat ?j)) (leaf_cells (node_at t c)) = []" by simp
      show ?thesis
        apply (subst scan_loop.simps)
        apply (simp add: less.prems cursor_value_def cursor_advance_def gc Let_def True nx)
        apply (subst scan_loop.simps)
        apply (simp add: cell dr e)
        done
    next
      case False
      let ?cur' = "cur\<lparr>cell_num := ?j + 1\<rparr>"
      have lt: "?j + 1 < ?n" using False by simp
      have "scan_loop ?cur' (visited @ [leaf_cells (node_at t c) ! unat ?j]) t
          = Some (Inr ((visited @ [leaf_cells (node_at t c) ! unat ?j])
                        @ drop (unat (cell_num ?cur')) (leaf_cells (node_at t c))
                        @ concat (map (\<lambda>x. leaf_cells (node_at t x)) [])), t)"
        by (rule less.hyps) (use less.prems lt j1 jn in simp_all)
      then show ?thesis
        apply (subst scan_loop.simps)
        apply (simp add: less.prems cursor_value_def cursor_advance_def gc Let_def False
            cell dr j1)
        done
    qed
  qed
next
  case (Cons s S')
  let ?n = "leaf_node_num_cells (node_at t c)"
  have gc: "table_get_page t c = Inr t"
    using Cons.prems(1) cap by (intro table_get_page_existing) (simp_all add: word_less_nat_alt)
  have nx: "leaf_node_next_leaf (node_at t c) = s" using Cons.prems(2) by simp
  have s0: "s \<noteq> 0" "0 < leaf_node_num_cells (node_at t s)" using Cons.prems(3) by simp_all
  have rest: "scan_loop cur' vis t
          = Some (Inr (vis @ drop (unat (cell_num cur')) (leaf_cells (node_at t s))
                         @ concat (map (\<lambda>x. leaf_cells (node_at t x)) S')), t)"
    if "page_num cur' = s" "\<not> end_of_table cur'"
       "cell_num cur' < leaf_node_num_cells (node_at t s)" for cur' vis
    by (rule Cons.IH) (use Cons.prems(1,2,3) that in simp_all)
  show ?case using Cons.prems(4,5,6)
  proof (induction "unat ?n - unat (cell_num cur)" arbitrary: cur visited rule: less_induct)
    case less
    let ?j = "cell_num cur"
    have jn: "unat ?j < unat ?n" using less.prems(3) by (simp add: word_less_nat_alt)
    have j1: "unat (?j + 1) = Suc (unat ?j)"
      using less.prems(3) by (intro unat_succ no_wrap_below)
    have cell: "(leaf_node_key (node_at t c) ?j, leaf_node_value (node_at t c) ?j)
                  = leaf_cells (node_at t c) ! unat ?j"
      using jn by (simp add: leaf_cells_nth leaf_node_key_def leaf_node_value_def)
    have dr: "drop (unat ?j) (leaf_cells (node_at t c))
                = leaf_cells (node_at t c) ! unat ?j # drop (Suc (unat ?j)) (leaf_cells (node_at t c))"
      using jn by (intro Cons_nth_drop_Suc [symmetric]) simp
    show ?case
    proof (cases "?n \<le> ?j + 1")
      case True
      then have "unat ?n \<le> Suc (unat ?j)" using j1 by (simp add: word_le_nat_alt)
      then have e: "drop (Suc (unat ?j)) (leaf_cells (node_at t c)) = []" by simp
      let ?cur' = "cur\<lparr>cell_num := ?j + 1, page_num := s, cell_num := 0\<rparr>"
      have "scan_loop ?cur' (visited @ [leaf_cells (node_at t c) ! unat ?j]) t
          = Some (Inr ((visited @ [leaf_cells (node_at t c) ! unat ?j])
                        @ drop (unat (cell_num ?cur')) (leaf_cells (node_at t s))
                        @ concat (map (\<lambda>x. leaf_cells (node_at t x)) S')), t)"
        by (rule rest) (use less.prems s0 in simp_all)
      then show ?thesis
        apply (subst scan_loop.simps)
        apply (simp add: less.prems cursor_value_def cursor_advance_def gc Let_def True nx s0
            cell dr e)
        done
    next
      case False
      let ?cur' = "cur\<lparr>cell_num := ?j + 1\<rparr>"
      have lt: "?j + 1 < ?n" using False by simp
      have "scan_loop ?cur' (visited @ [leaf_cells (node_at t c) ! unat ?j]) t
          = Some (Inr ((visited @ [leaf_cells (node_at t c) ! unat ?j])
                        @ drop (unat (cell_num ?cur')) (leaf_cells (node_at t c))
                        @ concat (map (\<lambda>x. leaf_cells (node_at t x)) (s # S'))), t)"
        by (rule less.hyps) (use less.prems lt j1 jn in simp_all)
      then show ?thesis
        apply (subst scan_loop.simps)
        apply (simp add: less.prems cursor_value_def cursor_advance_def gc Let_def False
            cell dr j1)
        done
    qed
  qed
qed

lemma table_scan_leaf_root:
  assumes inv: "tree_inv t cs" and lr: "leaf_root t cs"
  shows "table_scan fresh t = Some (Inr cs, t)"
proof -
  let ?R = "node_at t 0"
  have ri: "root_inv t" and cap: "unat (num_pages (pager t)) \<le> TABLE_MAX_PAGES"
    and srt: "sorted_wrt (<) (map fst cs)"
    using inv by (simp_all add: tree_inv_def)
  have ty: "get_node_type ?R = NODE_LEAF" and nx: "leaf_node_next_leaf ?R = 0"
    and n13: "leaf_node_num_cells ?R \<le> 13" and cells: "leaf_cells ?R = cs"
    using lr by (simp_all add: leaf_root_def leaf_constants)
  have p: "0 < num_pages (pager t)" using ri by (simp add: root_inv_def)
  have g0: "table_get_page t 0 = Inr t"
    using p by (simp add: table_get_page_existing TABLE_MAX_PAGES_def)
  have n31: "unat (leaf_node_num_cells ?R) < 2 ^ 31" using n13 by (simp add: word_le_nat_alt)
  have ks: "sorted_wrt (<) (leaf_keys ?R)" using srt by (simp add: leaf_keys_def cells)
  have tf: "table_find fresh t 0 = Some (Inr (fresh\<lparr>page_num := 0, cell_num := 0\<rparr>), t)"
    using leaf_find_zero [OF p cap n31 ks] by (simp add: table_find_leaf_root [OF ri cap ty])
  let ?cur = "fresh\<lparr>page_num := 0, cell_num := 0,
                     end_of_table := (leaf_node_num_cells ?R = 0)\<rparr>"
  have ts: "table_start fresh t = Some (Inr ?cur, t)"
    by (simp add: table_start_def tf g0 Let_def)
  have "scan_loop ?cur [] t = Some (Inr cs, t)"
  proof (cases "leaf_node_num_cells ?R = 0")
    case True
    then have "length (leaf_cells ?R) = 0" by simp
    then have "cs = []" using cells by simp
    then show ?thesis using True by (subst scan_loop.simps) simp
  next
    case False
    then have pos: "0 < leaf_node_num_cells ?R" by (simp add: word_neq_0_conv)
    have "scan_loop ?cur [] t
        = Some (Inr ([] @ drop (unat (cell_num ?cur)) (leaf_cells ?R)
                       @ concat (map (\<lambda>x. leaf_cells (node_at t x)) [])), t)"
      by (rule scan_chain [OF cap]) (use p nx False pos in simp_all)
    then show ?thesis by (simp add: cells)
  qed
  then show ?thesis by (simp add: table_scan_def ts)
qed

lemma table_scan_internal_root:
  assumes inv: "tree_inv t cs" and ir: "internal_root t cs"
  shows "table_scan fresh t = Some (Inr cs, t)"
proof -
  let ?R = "node_at t 0"
  let ?chs = "children ?R"
  have cap: "unat (num_pages (pager t)) \<le> TABLE_MAX_PAGES"
    and srt: "sorted_wrt (<) (map fst cs)"
    using inv by (simp_all add: tree_inv_def)
  from table_find_internal_root [OF inv ir, of 0 fresh]
  obtain iw where iw0: "internal_node_find_child ?R 0 = Some iw
           \<and> iw \<le> internal_node_num_keys ?R
           \<and> (\<forall>m < unat iw. separators ?R ! m < 0)
           \<and> (\<forall>m. unat iw \<le> m \<and> m < unat (internal_node_num_keys ?R)
                  \<longrightarrow> 0 \<le> separators ?R ! m)
           \<and> table_find fresh t 0 = leaf_node_find fresh t (?chs ! unat iw) 0"
    by (rule exE)
  note iw = conjunct1 [OF conjunct2 [OF conjunct2 [OF iw0]]]
    conjunct2 [OF conjunct2 [OF conjunct2 [OF conjunct2 [OF iw0]]]]
  have "unat iw = 0"
  proof (rule ccontr)
    assume "unat iw \<noteq> 0"
    then have "separators ?R ! 0 < 0" using iw(1) by simp
    then show False by simp
  qed
  then have tf0: "table_find fresh t 0 = leaf_node_find fresh t (?chs ! 0) 0"
    using iw(2) by simp
  let ?c = "?chs ! 0"
  have ok: "leaf_ok t ?c" by (rule child_leaf_ok [OF ir]) simp
  note okD = leaf_okD [OF ok]
  have csl: "sorted_wrt (<) (map fst (concat (leaves t)))"
    using srt internal_rootD(5) [OF ir] by simp
  have "sorted_wrt (<) (map fst (leaves t ! 0))"
    using csl by (intro sorted_concat_inner) simp_all
  then have ks: "sorted_wrt (<) (leaf_keys (node_at t ?c))"
    by (simp add: leaf_keys_def leaves_nth)
  have n31: "unat (leaf_node_num_cells (node_at t ?c)) < 2 ^ 31"
    using okD(6) by (simp add: word_le_nat_alt)
  have tf: "table_find fresh t 0 = Some (Inr (fresh\<lparr>page_num := ?c, cell_num := 0\<rparr>), t)"
    using leaf_find_zero [OF okD(2) cap n31 ks] tf0 by simp
  have gc: "table_get_page t ?c = Inr t"
    using okD(2) cap by (intro table_get_page_existing) (simp_all add: word_less_nat_alt)
  let ?cur = "fresh\<lparr>page_num := ?c, cell_num := 0, end_of_table := False\<rparr>"
  have nz: "leaf_node_num_cells (node_at t ?c) \<noteq> 0" using okD(5) by auto
  have ts: "table_start fresh t = Some (Inr ?cur, t)"
    using nz by (simp add: table_start_def tf gc Let_def)
  have chs: "?chs = ?c # tl ?chs"
  proof -
    have "?chs \<noteq> []" by (rule length_pos_ne [of _ "Suc (unat (internal_node_num_keys ?R))"]) simp_all
    then show ?thesis by (cases ?chs) simp_all
  qed
  have mem: "leaf_ok t x" if "x \<in> set (?c # tl ?chs)" for x
    using that chs internal_rootD(4) [OF ir, of x] by simp
  have "scan_loop ?cur [] t
        = Some (Inr ([] @ drop (unat (cell_num ?cur)) (leaf_cells (node_at t ?c))
                       @ concat (map (\<lambda>x. leaf_cells (node_at t x)) (tl ?chs))), t)"
  proof (rule scan_chain [OF cap], goal_cases)
    case 1 show ?case using mem leaf_okD(2) by blast
  next
    case 2 show ?case using internal_rootD(8) [OF ir] chs by simp
  next
    case 3 show ?case using mem leaf_okD(1,5) by (metis list.set_intros(2))
  next
    case 4 show ?case by simp
  next
    case 5 show ?case by simp
  next
    case 6 show ?case using okD(5) by simp
  qed
  moreover have "leaf_cells (node_at t ?c) @ concat (map (\<lambda>x. leaf_cells (node_at t x)) (tl ?chs))
      = concat (map (\<lambda>x. leaf_cells (node_at t x)) (?c # tl ?chs))" by simp
  then have "leaf_cells (node_at t ?c) @ concat (map (\<lambda>x. leaf_cells (node_at t x)) (tl ?chs))
      = cs" using chs internal_rootD(5) [OF ir] by (simp add: leaves_def)
  ultimately have "scan_loop ?cur [] t = Some (Inr cs, t)" by simp
  then show ?thesis by (simp add: table_scan_def ts)
qed

lemma table_scan_tree:
  "tree_inv t cs \<Longrightarrow> table_scan fresh t = Some (Inr cs, t)"
  using table_scan_leaf_root table_scan_internal_root by (auto simp: tree_inv_def)

lemma tree_inv_opened: "tree_inv opened_table []"
proof -
  have "leaf_root opened_table []"
    by (simp add: leaf_root_def opened_table_def node_at_def codec_defs leaf_cells_def)
  moreover have "unat (num_pages (pager opened_table)) \<le> TABLE_MAX_PAGES"
    by (simp add: opened_table_def TABLE_MAX_PAGES_def)
  ultimately show ?thesis using root_inv_opened by (simp add: tree_inv_def)
qed


lemma tree_inv_distinct: "tree_inv t cs \<Longrightarrow> distinct cs"
proof -
  assume "tree_inv t cs"
  then have "sorted_wrt (<) (map fst cs)" by (simp add: tree_inv_def)
  then have "distinct (map fst cs)" by (simp add: strict_sorted_iff)
  then show ?thesis by (simp add: distinct_map)
qed

lemma length_after_insert:
  assumes "tree_inv t cs" and "tree_inv t' cs'" and "set cs' = insert (k, v) (set cs)"
    and "k \<notin> fst ` set cs"
  shows "length cs' = Suc (length cs)"
proof -
  have n: "(k, v) \<notin> set cs" using assms(4) by force
  have "length cs' = card (set cs')"
    using tree_inv_distinct [OF assms(2)] by (simp add: distinct_card)
  also have "\<dots> = Suc (card (set cs))" using n by (simp add: assms(3))
  also have "card (set cs) = length cs"
    using tree_inv_distinct [OF assms(1)] by (simp add: distinct_card)
  finally show ?thesis .
qed

lemma insert_all_total:
  assumes "tree_inv t cs"
    and "distinct (map (\<lambda>op. fst (snd op)) ops)"
    and "\<forall>op \<in> set ops. fst (snd op) \<notin> fst ` set cs"
  shows "\<exists>r t'. insert_all imax ops t = Some (r, t')
           \<and> (r = Inr () \<longrightarrow> (\<exists>cs'. tree_inv t' cs' \<and> set cs' = set cs \<union> snd ` set ops))
           \<and> (length cs + length ops \<le> 7 * min (unat imax) 98 + 7 \<longrightarrow> r = Inr ())"
  using assms
proof (induction ops arbitrary: t cs)
  case Nil
  then show ?case by auto
next
  case (Cons op rest)
  obtain fresh k v where op: "op = (fresh, k, v)" by (cases op) auto
  have nin: "k \<notin> fst ` set cs" using Cons.prems(3) by (simp add: op)
  from insert_step [OF Cons.prems(1) nin, of imax fresh v]
  obtain r1 t1 where s: "table_insert imax fresh k v t = Some (r1, t1)"
    and ok: "r1 = Inr () \<longrightarrow> (\<exists>cs'. tree_inv t1 cs' \<and> set cs' = insert (k, v) (set cs))"
    and en: "length cs < 7 * min (unat imax) 98 + 7 \<longrightarrow> r1 = Inr ()"
    by blast
  show ?case
  proof (cases r1)
    case (Inl e)
    then have "insert_all imax (op # rest) t = Some (Inl e, t1)" using s by (simp add: op)
    moreover have "\<not> length cs < 7 * min (unat imax) 98 + 7" using en Inl by auto
    ultimately show ?thesis by (intro exI [of _ "Inl e"] exI [of _ t1]) auto
  next
    case (Inr u)
    then have r1: "r1 = Inr ()" by simp
    then obtain cs1 where cs1: "tree_inv t1 cs1" "set cs1 = insert (k, v) (set cs)"
      using ok by blast
    have len1: "length cs1 = Suc (length cs)"
      by (rule length_after_insert [OF Cons.prems(1) cs1 nin])
    have d: "distinct (map (\<lambda>op. fst (snd op)) rest)" using Cons.prems(2) by simp
    have n: "\<forall>op \<in> set rest. fst (snd op) \<notin> fst ` set cs1"
      using Cons.prems(2,3) by (auto simp: op cs1(2))
    from Cons.IH [OF cs1(1) d n]
    obtain r t' where rt: "insert_all imax rest t1 = Some (r, t')"
      and ok': "r = Inr () \<longrightarrow> (\<exists>cs'. tree_inv t' cs' \<and> set cs' = set cs1 \<union> snd ` set rest)"
      and en': "length cs1 + length rest \<le> 7 * min (unat imax) 98 + 7 \<longrightarrow> r = Inr ()"
      by blast
    have e: "insert_all imax (op # rest) t = Some (r, t')"
      using s r1 rt by (simp add: op)
    have a: "r = Inr () \<longrightarrow>
               (\<exists>cs'. tree_inv t' cs' \<and> set cs' = set cs \<union> snd ` set (op # rest))"
      using ok' cs1(2) by (auto simp: op)
    have b: "length cs + length (op # rest) \<le> 7 * min (unat imax) 98 + 7 \<longrightarrow> r = Inr ()"
      using en' len1 by simp
    show ?thesis using e a b by (intro exI [of _ r] exI [of _ t']) simp
  qed
qed

lemma tree_inv_many_cells:
  assumes "tree_inv t cs" and "13 < length cs"
  shows "get_node_type (node_at t 0) = NODE_INTERNAL"
proof (cases "leaf_root t cs")
  case True
  then have "leaf_node_num_cells (node_at t 0) \<le> 13" "leaf_cells (node_at t 0) = cs"
    by (simp_all add: leaf_root_def leaf_constants)
  then have "length cs \<le> 13" by (auto simp: word_le_nat_alt)
  then show ?thesis using assms(2) by simp
next
  case False
  then have "internal_root t cs" using assms(1) by (simp add: tree_inv_def)
  then show ?thesis by (rule internal_rootD(1))
qed

lemma tree_inv_many_leaves:
  assumes "tree_inv t cs" and "26 < length cs"
  shows "get_node_type (node_at t 0) = NODE_INTERNAL
         \<and> 2 \<le> internal_node_num_keys (node_at t 0)"
proof -
  have ty: "get_node_type (node_at t 0) = NODE_INTERNAL"
    using assms by (intro tree_inv_many_cells [of t cs]) simp_all
  have "\<not> leaf_root t cs" using ty by (simp add: leaf_root_def)
  then have "internal_root t cs" using assms(1) by (simp add: tree_inv_def)
  then have "length cs \<le> 13 * (unat (internal_node_num_keys (node_at t 0)) + 1)"
    by (rule cells_upper_bound)
  then have "2 \<le> unat (internal_node_num_keys (node_at t 0))" using assms(2) by simp
  then show ?thesis using ty by (simp add: word_le_nat_alt)
qed

lemma sorted_cells_unique:
  fixes cs xs :: "(u32 \<times> 'b) list"
  assumes "sorted_wrt (<) (map fst cs)" and "sorted_wrt (<) (map fst xs)"
    and "set cs = set xs"
  shows "cs = xs"
proof (rule nth_equalityI)
  have "set (map fst cs) = set (map fst xs)" using assms(3) by simp
  then have keys: "map fst cs = map fst xs"
    using assms(1,2) by (intro strict_sorted_equal) simp_all
  then show len: "length cs = length xs" by (rule map_eq_imp_length_eq)
  have dx: "distinct (map fst xs)" using assms(2) by (simp add: strict_sorted_iff)
  fix i assume i: "i < length cs"
  then have "cs ! i \<in> set xs" using assms(3) by (metis nth_mem)
  then obtain j where j: "j < length xs" "xs ! j = cs ! i" by (auto simp: in_set_conv_nth)
  have "map fst xs ! j = map fst cs ! i" using j i by simp
  also have "\<dots> = map fst xs ! i" using keys by simp
  finally have "map fst xs ! j = map fst xs ! i" .
  moreover have "j < length (map fst xs)" "i < length (map fst xs)" using j(1) i len by simp_all
  ultimately have "j = i" using dx by (simp only: nth_eq_iff_index_eq)
  then show "cs ! i = xs ! i" using j(2) by simp
qed

text \<open>
  Claim C2. Take any sequence of insertions with pairwise distinct keys into a newly
  created table. The sequence always comes to an end: either every insertion returns, or
  one of them is a fatal exit (no unused page left, or the root has no room for a further
  child). As long as the sequence has no more than \<open>7 * min INTERNAL_NODE_MAX_CELLS 98 + 7\<close>
  insertions, every one of them returns, whatever the order of the keys, so trees of
  several leaves are built. Whenever every insertion has returned, the scan of the
  resulting table (start a cursor with \<^verbatim>\<open>table_start\<close>, read and call \<^verbatim>\<open>cursor_advance\<close>
  until \<^verbatim>\<open>end_of_table\<close> is set) returns, leaves the table as it is, and visits cells whose
  keys are strictly increasing, which are exactly the inserted (key, row) pairs, as many
  as were inserted: no duplicate and no omission.
\<close>

theorem table_scan_ascending:
  assumes "distinct (map (\<lambda>op. fst (snd op)) ops)"
  shows "\<exists>r t. insert_all imax ops opened_table = Some (r, t)
           \<and> (length ops \<le> 7 * min (unat imax) 98 + 7 \<longrightarrow> r = Inr ())
           \<and> (r = Inr () \<longrightarrow>
                (\<exists>cs. table_scan fresh t = Some (Inr cs, t)
                   \<and> sorted_wrt (<) (map fst cs)
                   \<and> set cs = snd ` set ops
                   \<and> length cs = length ops))"
proof -
  from insert_all_total [OF tree_inv_opened assms, of imax]
  obtain r t where rt: "insert_all imax ops opened_table = Some (r, t)"
    and ok: "r = Inr () \<longrightarrow> (\<exists>cs. tree_inv t cs \<and> set cs = snd ` set ops)"
    and en: "length ops \<le> 7 * min (unat imax) 98 + 7 \<longrightarrow> r = Inr ()"
    by auto
  have "\<exists>cs. table_scan fresh t = Some (Inr cs, t)
           \<and> sorted_wrt (<) (map fst cs) \<and> set cs = snd ` set ops
           \<and> length cs = length ops" if "r = Inr ()"
  proof -
    from ok that obtain cs where cs: "tree_inv t cs" "set cs = snd ` set ops" by blast
    have srt: "sorted_wrt (<) (map fst cs)" using cs(1) by (simp add: tree_inv_def)
    then have dk: "distinct (map fst cs)" by (simp add: strict_sorted_iff)
    have "set (map fst cs) = set (map (\<lambda>op. fst (snd op)) ops)"
      using cs(2) by (auto simp: image_image)
    then have "card (set (map fst cs)) = card (set (map (\<lambda>op. fst (snd op)) ops))" by simp
    then have len: "length cs = length ops"
      using dk assms by (simp add: distinct_card del: set_map)
    show ?thesis
      using table_scan_tree [OF cs(1), of fresh] srt cs(2) len by (intro exI [of _ cs]) simp
  qed
  then show ?thesis using rt en by (intro exI [of _ r] exI [of _ t]) simp
qed

theorem table_scan_ascending_witness:
  "distinct (map (\<lambda>op. fst (snd op)) example_rows_long)
   \<and> length example_rows_long \<le> 7 * min (unat (3 :: u32)) 98 + 7
   \<and> insert_all 3 example_rows_long opened_table = Some (Inr (), example_tree_long)
   \<and> get_node_type (node_at example_tree_long 0) = NODE_INTERNAL
   \<and> 2 \<le> internal_node_num_keys (node_at example_tree_long 0)
   \<and> table_scan example_cursor example_tree_long
       = Some (Inr example_scan_long, example_tree_long)"
proof -
  have d: "distinct (map (\<lambda>op. fst (snd op)) example_rows_long)"
    by (simp add: example_rows_long_def)
  have l: "length example_rows_long \<le> 7 * min (unat (3 :: u32)) 98 + 7"
    by (simp add: example_rows_long_def)
  from table_scan_ascending [OF d, of 3 example_cursor] l
  obtain t cs where t: "insert_all 3 example_rows_long opened_table = Some (Inr (), t)"
    and sc: "table_scan example_cursor t = Some (Inr cs, t)"
      "sorted_wrt (<) (map fst cs)" "set cs = snd ` set example_rows_long"
      "length cs = length example_rows_long"
    by auto
  have et: "example_tree_long = t" by (simp add: example_tree_long_def table_after_def t)
  from insert_all_total [OF tree_inv_opened d, of 3] t
  obtain cs' where inv: "tree_inv t cs'" "set cs' = snd ` set example_rows_long" by auto
  have "length cs' = card (set cs')"
    using tree_inv_distinct [OF inv(1)] by (simp add: distinct_card)
  also have "set cs' = set cs" using inv(2) sc(3) by simp
  also have "card (set cs) = length cs"
    using sc(2) by (simp add: strict_sorted_iff distinct_card distinct_map)
  finally have "26 < length cs'" using sc(4) by (simp add: example_rows_long_def)
  then have ty: "get_node_type (node_at t 0) = NODE_INTERNAL
       \<and> 2 \<le> internal_node_num_keys (node_at t 0)"
    by (rule tree_inv_many_leaves [OF inv(1)])
  have "set cs = set example_scan_long"
    using sc(3) by (auto simp: example_rows_long_def example_scan_long_def)
  moreover have "sorted_wrt (<) (map fst example_scan_long)" by (simp add: example_scan_long_def)
  ultimately have "cs = example_scan_long" using sc(2) by (intro sorted_cells_unique) simp_all
  then show ?thesis using d l t sc(1) ty et by simp
qed

subsection \<open>C3: the split of a full leaf, from the call to the return\<close>

lemma split_root_leaf_state:
  assumes rp: "root_page_num t = 0" and pg: "page_num cursor = 0"
    and p: "0 < num_pages (pager t)"
    and ty: "get_node_type (node_at t 0) = NODE_LEAF"
    and isr: "is_node_root (node_at t 0)"
    and n13: "leaf_node_num_cells (node_at t 0) = 13"
    and c13: "cell_num cursor \<le> 13"
    and room: "unat (num_pages (pager t)) + 2 \<le> TABLE_MAX_PAGES"
  shows "\<exists>t'. leaf_node_split_and_insert imax cursor key val t = Some (Inr (), t')
      \<and> leaf_cells (node_at t' (num_pages (pager t) + 1))
           = take 7 (insert_at (unat (cell_num cursor)) (key, val) (leaf_cells (node_at t 0)))
      \<and> leaf_cells (node_at t' (num_pages (pager t)))
           = drop 7 (insert_at (unat (cell_num cursor)) (key, val) (leaf_cells (node_at t 0)))
      \<and> get_node_type (node_at t' (num_pages (pager t) + 1)) = NODE_LEAF
      \<and> get_node_type (node_at t' (num_pages (pager t))) = NODE_LEAF
      \<and> leaf_node_num_cells (node_at t' (num_pages (pager t) + 1)) = 7
      \<and> leaf_node_num_cells (node_at t' (num_pages (pager t))) = 7
      \<and> leaf_node_next_leaf (node_at t' (num_pages (pager t) + 1)) = num_pages (pager t)
      \<and> leaf_node_next_leaf (node_at t' (num_pages (pager t)))
           = leaf_node_next_leaf (node_at t 0)
      \<and> node_parent (node_at t' (num_pages (pager t) + 1)) = 0
      \<and> node_parent (node_at t' (num_pages (pager t))) = 0
      \<and> get_node_type (node_at t' 0) = NODE_INTERNAL
      \<and> internal_node_num_keys (node_at t' 0) = 1
      \<and> children (node_at t' 0) = [num_pages (pager t) + 1, num_pages (pager t)]"
proof -
  let ?N = "num_pages (pager t)"
  let ?R = "node_at t 0"
  let ?ins = "insert_at (unat (cell_num cursor)) (key, val) (leaf_cells ?R)"
  have room1: "unat ?N < TABLE_MAX_PAGES" using room by simp
  note wf = word_succ_facts [OF room]
  have p': "page_num cursor < ?N" using p pg by simp
  have ty': "get_node_type (node_at t (page_num cursor)) = NODE_LEAF" using ty pg by simp
  from leaf_node_split_state [OF p' room1 ty', of key val]
  obtain t1 where s: "leaf_node_split cursor key val t
           = Some (Inr (leaf_node_key ?R (leaf_node_num_cells ?R - 1), ?N), t1)"
    and o1: "node_at t1 0 = set_leaf_node_num_cells 7
                 (split_old_body 14 (split_source cursor key val ?R)
                    (set_leaf_node_next_leaf ?N ?R))"
    and n1: "node_at t1 ?N = set_leaf_node_num_cells 7
                 (split_new_body 14 (split_source cursor key val ?R)
                    (set_leaf_node_next_leaf (leaf_node_next_leaf ?R)
                       (set_node_parent (node_parent ?R) (initialize_leaf_node zero_page))))"
    and np1: "num_pages (pager t1) = ?N + 1"
    and rp1: "root_page_num t1 = root_page_num t"
    unfolding pg by blast
  have lc_old: "leaf_cells (node_at t1 0) = take 7 ?ins"
    unfolding o1 using leaf_cells_split_old [OF n13 c13, of "set_leaf_node_next_leaf ?N ?R" key val]
    by (simp add: set_leaf_node_next_leaf_def)
  have lc_new: "leaf_cells (node_at t1 ?N) = drop 7 ?ins"
    unfolding n1 using leaf_cells_split_new [OF n13 c13, of key val] by simp
  have root1: "is_node_root (node_at t1 0)" "get_node_type (node_at t1 0) = NODE_LEAF"
    using isr ty by (simp_all add: o1 codec_defs split_body_fields)
  have N0: "?N \<noteq> 0" using p by auto
  have pre: "root_page_num t1 = 0" "0 < num_pages (pager t1)" "?N < num_pages (pager t1)"
      "unat (num_pages (pager t1)) < TABLE_MAX_PAGES"
    using rp rp1 np1 wf room by (simp_all add: word_less_nat_alt)
  from create_new_root_leaf_state [OF pre(1,2,3) N0 pre(4) root1(2)]
  obtain t2 where c: "create_new_root t1 ?N = Some (Inr (), t2)"
    and L2: "node_at t2 (?N + 1) = set_node_parent 0 (set_node_root False (node_at t1 0))"
    and N2: "node_at t2 ?N = set_node_parent 0 (node_at t1 ?N)"
    and ty2: "get_node_type (node_at t2 0) = NODE_INTERNAL"
    and nk2: "internal_node_num_keys (node_at t2 0) = 1"
    and ch2: "children (node_at t2 0) = [?N + 1, ?N]"
    by (auto simp: np1)
  have r: "leaf_node_split_and_insert imax cursor key val t = Some (Inr (), t2)"
    using s c root1(1) by (simp add: leaf_node_split_and_insert_def pg Let_def)
  have "leaf_cells (node_at t2 (?N + 1)) = leaf_cells (node_at t1 0)"
    unfolding L2 by (rule leaf_cells_cong) (simp_all add: codec_defs)
  then have lcL: "leaf_cells (node_at t2 (?N + 1)) = take 7 ?ins" using lc_old by simp
  have "leaf_cells (node_at t2 ?N) = leaf_cells (node_at t1 ?N)"
    unfolding N2 by (rule leaf_cells_cong) (simp_all add: codec_defs)
  then have lcN: "leaf_cells (node_at t2 ?N) = drop 7 ?ins" using lc_new by simp
  have hL: "get_node_type (node_at t2 (?N + 1)) = NODE_LEAF"
      "leaf_node_num_cells (node_at t2 (?N + 1)) = 7"
      "leaf_node_next_leaf (node_at t2 (?N + 1)) = ?N"
      "node_parent (node_at t2 (?N + 1)) = 0"
    using ty by (simp_all add: L2 o1 codec_defs split_body_fields)
  have hN: "get_node_type (node_at t2 ?N) = NODE_LEAF"
      "leaf_node_num_cells (node_at t2 ?N) = 7"
      "leaf_node_next_leaf (node_at t2 ?N) = leaf_node_next_leaf ?R"
      "node_parent (node_at t2 ?N) = 0"
    by (simp_all add: N2 n1 codec_defs split_body_fields)
  show ?thesis
    using r lcL lcN hL hN ty2 nk2 ch2 by (intro exI [of _ t2]) simp
qed

lemma split_child_leaf_state:
  assumes old: "page_num cursor < num_pages (pager t)"
    and ty: "get_node_type (node_at t (page_num cursor)) = NODE_LEAF"
    and nr: "\<not> is_node_root (node_at t (page_num cursor))"
    and n13: "leaf_node_num_cells (node_at t (page_num cursor)) = 13"
    and c13: "cell_num cursor \<le> 13"
    and room: "unat (num_pages (pager t)) < TABLE_MAX_PAGES"
    and pp: "node_parent (node_at t (page_num cursor)) < num_pages (pager t)"
    and pt: "get_node_type (node_at t (node_parent (node_at t (page_num cursor))))
               = NODE_INTERNAL"
    and im: "internal_node_num_keys (node_at t (node_parent (node_at t (page_num cursor))))
               < imax"
    and n31: "unat (internal_node_num_keys
                      (node_at t (node_parent (node_at t (page_num cursor))))) < 2 ^ 31"
    and rc: "internal_node_right_child
               (node_at t (node_parent (node_at t (page_num cursor)))) < num_pages (pager t)"
    and rt: "get_node_type (node_at t (internal_node_right_child
               (node_at t (node_parent (node_at t (page_num cursor)))))) = NODE_LEAF"
  shows "\<exists>t'. leaf_node_split_and_insert imax cursor key val t = Some (Inr (), t')
      \<and> leaf_cells (node_at t' (page_num cursor))
           = take 7 (insert_at (unat (cell_num cursor)) (key, val)
                       (leaf_cells (node_at t (page_num cursor))))
      \<and> leaf_cells (node_at t' (num_pages (pager t)))
           = drop 7 (insert_at (unat (cell_num cursor)) (key, val)
                       (leaf_cells (node_at t (page_num cursor))))
      \<and> get_node_type (node_at t' (page_num cursor)) = NODE_LEAF
      \<and> get_node_type (node_at t' (num_pages (pager t))) = NODE_LEAF
      \<and> leaf_node_num_cells (node_at t' (page_num cursor)) = 7
      \<and> leaf_node_num_cells (node_at t' (num_pages (pager t))) = 7
      \<and> leaf_node_next_leaf (node_at t' (page_num cursor)) = num_pages (pager t)
      \<and> leaf_node_next_leaf (node_at t' (num_pages (pager t)))
           = leaf_node_next_leaf (node_at t (page_num cursor))
      \<and> node_parent (node_at t' (page_num cursor))
           = node_parent (node_at t (page_num cursor))
      \<and> node_parent (node_at t' (num_pages (pager t)))
           = node_parent (node_at t (page_num cursor))"
proof -
  let ?N = "num_pages (pager t)"
  let ?o = "page_num cursor"
  let ?C = "node_at t ?o"
  let ?p = "node_parent ?C"
  let ?P = "node_at t ?p"
  let ?nk = "internal_node_num_keys ?P"
  let ?ins = "insert_at (unat (cell_num cursor)) (key, val) (leaf_cells ?C)"
  from leaf_node_split_state [OF old room ty, of key val]
  obtain t1 where s: "leaf_node_split cursor key val t
           = Some (Inr (leaf_node_key ?C (leaf_node_num_cells ?C - 1), ?N), t1)"
    and o1: "node_at t1 ?o = set_leaf_node_num_cells 7
                 (split_old_body 14 (split_source cursor key val ?C)
                    (set_leaf_node_next_leaf ?N ?C))"
    and n1: "node_at t1 ?N = set_leaf_node_num_cells 7
                 (split_new_body 14 (split_source cursor key val ?C)
                    (set_leaf_node_next_leaf (leaf_node_next_leaf ?C)
                       (set_node_parent (node_parent ?C) (initialize_leaf_node zero_page))))"
    and oth1: "\<forall>m. m \<noteq> ?o \<and> m \<noteq> ?N \<longrightarrow> node_at t1 m = node_at t m"
    and np1: "num_pages (pager t1) = ?N + 1"
    by blast
  have lc_old: "leaf_cells (node_at t1 ?o) = take 7 ?ins"
    unfolding o1 using leaf_cells_split_old [OF n13 c13, of "set_leaf_node_next_leaf ?N ?C" key val]
    by (simp add: set_leaf_node_next_leaf_def)
  have lc_new: "leaf_cells (node_at t1 ?N) = drop 7 ?ins"
    unfolding n1 using leaf_cells_split_new [OF n13 c13, of key val] by simp
  have hO: "\<not> is_node_root (node_at t1 ?o)" "get_node_type (node_at t1 ?o) = NODE_LEAF"
      "node_parent (node_at t1 ?o) = ?p" "leaf_node_num_cells (node_at t1 ?o) = 7"
      "leaf_node_next_leaf (node_at t1 ?o) = ?N"
    using nr ty by (simp_all add: o1 codec_defs split_body_fields)
  have hN: "get_node_type (node_at t1 ?N) = NODE_LEAF"
      "node_parent (node_at t1 ?N) = ?p" "leaf_node_num_cells (node_at t1 ?N) = 7"
      "leaf_node_next_leaf (node_at t1 ?N) = leaf_node_next_leaf ?C"
    by (simp_all add: n1 codec_defs split_body_fields)
  have N1: "unat (?N + 1) = unat ?N + 1" "?N < ?N + 1"
  proof -
    have "unat ?N + 1 < 2 ^ 32" using room by (simp add: TABLE_MAX_PAGES_def)
    then show u: "unat (?N + 1) = unat ?N + 1" by (simp add: unat_word_ariths)
    then show "?N < ?N + 1" by (simp add: word_less_nat_alt)
  qed
  have po: "?p \<noteq> ?o" using pt ty by auto
  have pN: "?p \<noteq> ?N" using pp by auto
  have P1: "node_at t1 ?p = ?P" using oth1 po pN by simp
  have mk: "get_node_max_key t1 ?o = Some (Inr (leaf_node_key (node_at t1 ?o) 6), t1)"
    using get_node_max_key_leaf [OF hO(2)] by (simp add: hO(4))
  have gp: "table_get_page t1 ?p = Inr t1"
    using pp N1 room
    by (intro table_get_page_existing) (simp_all add: np1 word_less_nat_alt)
  from internal_node_find_child_returns [OF n31]
  obtain idx where idx: "internal_node_find_child ?P
        (leaf_node_key ?C (leaf_node_num_cells ?C - 1)) = Some idx" by blast
  define t4 where "t4 = update_node ?p
      (set_internal_node_key idx (leaf_node_key (node_at t1 ?o) 6)) t1"
  define P4 where "P4 = set_internal_node_key idx (leaf_node_key (node_at t1 ?o) 6) ?P"
  have upd: "update_internal_node_key ?p (leaf_node_key ?C (leaf_node_num_cells ?C - 1))
               (leaf_node_key (node_at t1 ?o) 6) t1 = Some t4"
    by (simp add: update_internal_node_key_def P1 idx t4_def)
  have n4: "node_at t4 ?p = P4" "\<And>m. m \<noteq> ?p \<Longrightarrow> node_at t4 m = node_at t1 m"
    by (simp_all add: t4_def P4_def node_at_update_node P1)
  have np4: "num_pages (pager t4) = ?N + 1" by (simp add: t4_def np1)
  have P4f: "get_node_type P4 = NODE_INTERNAL" "internal_node_num_keys P4 = ?nk"
      "internal_node_right_child P4 = internal_node_right_child ?P"
    using pt by (simp_all add: P4_def set_internal_node_key_fields)
  let ?rc = "internal_node_right_child ?P"
  have rcp: "?rc \<noteq> ?p" using rt pt by auto
  have rcN: "?rc \<noteq> ?N" using rc by auto
  have trc: "get_node_type (node_at t4 ?rc) = NODE_LEAF"
  proof (cases "?rc = ?o")
    case True
    then show ?thesis using hO(2) n4(2) [OF rcp] by simp
  next
    case False
    then have "node_at t1 ?rc = node_at t ?rc" using oth1 rcN by simp
    then show ?thesis using rt n4(2) [OF rcp] by simp
  qed
  have n31': "unat (internal_node_num_keys P4) < 2 ^ 31" using n31 by (simp add: P4f(2))
  from internal_node_find_child_returns [OF n31']
  obtain index where index: "internal_node_find_child P4 (leaf_node_key (node_at t1 ?N) 6)
        = Some index" "index \<le> ?nk"
    by (auto simp: P4f(2))
  have nw: "?nk < ?nk + 1" using im by (rule no_wrap_below)
  have eq: "internal_node_insert imax t4 ?p ?N =
     (let orig = internal_node_num_keys (node_at t4 ?p);
          right = internal_node_right_child (node_at t4 ?p);
          child_max = leaf_node_key (node_at t4 ?N) (leaf_node_num_cells (node_at t4 ?N) - 1);
          right_max = leaf_node_key (node_at t4 right) (leaf_node_num_cells (node_at t4 right) - 1)
      in if orig \<ge> imax
         then Some (Inl InternalNodeFull,
                    update_node ?p (set_internal_node_num_keys (orig + 1)) t4)
         else if child_max > right_max
         then Some (Inr (), update_node ?p (appended_parent ?N right right_max) t4)
         else Some (Inr (), update_node ?p (inserted_parent index ?N child_max) t4))"
  proof (rule internal_node_insert_leaf_children, goal_cases)
    case 1 show ?case using pp N1(2) by (simp add: np4)
  next
    case 2 show ?case using N1(2) by (simp add: np4)
  next
    case 3 show ?case using rc N1(2) by (simp add: np4 n4(1) P4f(3))
  next
    case 4 show ?case using N1(1) room by (simp add: np4)
  next
    case 5 show ?case by (simp add: n4(1) P4f(1))
  next
    case 6 show ?case using hN(1) pN by (simp add: n4(2))
  next
    case 7 show ?case using trc by (simp add: n4(1) P4f(3))
  next
    case 8 show ?case using pN by (simp add: n4 hN(3) index(1))
  next
    case 9 show ?case using index(2) by (simp add: n4(1) P4f(2))
  next
    case 10 show ?case using nw by (simp add: n4(1) P4f(2))
  qed
  have "\<exists>F. internal_node_insert imax t4 ?p ?N = Some (Inr (), update_node ?p F t4)"
    using eq im by (auto simp: Let_def n4(1) P4f(2))
  then obtain F where ins: "internal_node_insert imax t4 ?p ?N
      = Some (Inr (), update_node ?p F t4)" by blast
  define t5 where "t5 = update_node ?p F t4"
  have r: "leaf_node_split_and_insert imax cursor key val t = Some (Inr (), t5)"
    using s hO(1) mk gp upd ins
    by (simp add: leaf_node_split_and_insert_def Let_def hO(3) t5_def)
  have n5: "\<And>m. m \<noteq> ?p \<Longrightarrow> node_at t5 m = node_at t1 m"
    by (simp add: t5_def node_at_update_node n4(2))
  have o5: "node_at t5 ?o = node_at t1 ?o" using po by (intro n5) simp
  have N5: "node_at t5 ?N = node_at t1 ?N" using pN by (intro n5) simp
  show ?thesis
    using r lc_old lc_new hO hN by (intro exI [of _ t5]) (simp add: o5 N5)
qed

lemma example_child_table_simps:
  "num_pages (pager example_child_table) = 3"
  "root_page_num example_child_table = 0"
  "node_at example_child_table 0 = example_small_parent"
  "node_at example_child_table 1 = example_full_leaf\<lparr>hdr_is_root := False, hdr_link := 2\<rparr>"
  "node_at example_child_table 2 = example_leaf1 200"
  by (simp_all add: example_child_table_def node_at_def)

lemma example_small_parent_simps:
  "get_node_type example_small_parent = NODE_INTERNAL"
  "internal_node_num_keys example_small_parent = 1"
  "internal_node_right_child example_small_parent = 2"
  by (simp_all add: example_small_parent_def codec_defs)

lemma example_child_leaf_simps:
  "get_node_type (example_full_leaf\<lparr>hdr_is_root := False, hdr_link := 2\<rparr>) = NODE_LEAF"
  "\<not> is_node_root (example_full_leaf\<lparr>hdr_is_root := False, hdr_link := 2\<rparr>)"
  "leaf_node_num_cells (example_full_leaf\<lparr>hdr_is_root := False, hdr_link := 2\<rparr>) = 13"
  "node_parent (example_full_leaf\<lparr>hdr_is_root := False, hdr_link := 2\<rparr>) = 0"
  "leaf_node_next_leaf (example_full_leaf\<lparr>hdr_is_root := False, hdr_link := 2\<rparr>) = 2"
  "leaf_cells (example_full_leaf\<lparr>hdr_is_root := False, hdr_link := 2\<rparr>)
     = leaf_cells example_full_leaf"
proof -
  show "leaf_cells (example_full_leaf\<lparr>hdr_is_root := False, hdr_link := 2\<rparr>)
     = leaf_cells example_full_leaf"
    by (rule leaf_cells_cong) simp_all
qed (simp_all add: example_full_leaf_def codec_defs zero_page_def)

lemma example_merged:
  "map fst (take 7 (insert_at 3 (25, zero_row) (leaf_cells example_full_leaf)))
     = [0, 10, 20, 25, 30, 40, 50]"
  "map fst (drop 7 (insert_at 3 (25, zero_row) (leaf_cells example_full_leaf)))
     = [60, 70, 80, 90, 100, 110, 120]"
  using example_full_leaf_cells
  by (simp_all add: insert_at_def take_map [symmetric] drop_map [symmetric]
        example_full_leaf_simps)

text \<open>
  Claim C3, for the whole of \<^verbatim>\<open>leaf_node_split_and_insert\<close>. On a full leaf, with a cursor
  cell number within \<open>[0, LEAF_NODE_MAX_CELLS]\<close> and a table in which the split can return
  (\<open>split_context\<close>), the function returns. The first \<open>LEAF_NODE_LEFT_SPLIT_COUNT\<close> cells of
  the old cells with \<open>(key, row)\<close> inserted at the cursor's cell number are then in the left
  node and the remaining cells in the new node, which is on the page that was the next
  unused page; both are leaves, their cell counts are the two split counts, the next leaf
  of the left node is the new page and the next leaf of the new node is the old next leaf
  of the old node. When the old leaf is not the root, the left node is the old node on its
  page, and the new node has the old node's parent. When the old leaf is the root, the left
  node is on a further new page, both leaves have the root page as parent, and the old
  page is an internal node with one key and these two children: the old page does not hold
  the left half.
\<close>

theorem leaf_node_split_and_insert_distribution:
  assumes "page_num cursor < num_pages (pager t)"
    and "root_page_num t = 0"
    and "get_node_type (node_at t (page_num cursor)) = NODE_LEAF"
    and "leaf_node_num_cells (node_at t (page_num cursor)) = LEAF_NODE_MAX_CELLS"
    and "cell_num cursor \<le> LEAF_NODE_MAX_CELLS"
    and "split_context imax t (page_num cursor)"
  shows "\<exists>t'. leaf_node_split_and_insert imax cursor key val t = Some (Inr (), t')
      \<and> (let old = page_num cursor;
              new = num_pages (pager t);
              root = is_node_root (node_at t old);
              left = (if root then new + 1 else old);
              merged = insert_at (unat (cell_num cursor)) (key, val) (leaf_cells (node_at t old))
          in leaf_cells (node_at t' left) = take (unat LEAF_NODE_LEFT_SPLIT_COUNT) merged
           \<and> leaf_cells (node_at t' new) = drop (unat LEAF_NODE_LEFT_SPLIT_COUNT) merged
           \<and> get_node_type (node_at t' left) = NODE_LEAF
           \<and> get_node_type (node_at t' new) = NODE_LEAF
           \<and> leaf_node_num_cells (node_at t' left) = LEAF_NODE_LEFT_SPLIT_COUNT
           \<and> leaf_node_num_cells (node_at t' new) = LEAF_NODE_RIGHT_SPLIT_COUNT
           \<and> leaf_node_next_leaf (node_at t' left) = new
           \<and> leaf_node_next_leaf (node_at t' new) = leaf_node_next_leaf (node_at t old)
           \<and> node_parent (node_at t' left) = (if root then 0 else node_parent (node_at t old))
           \<and> node_parent (node_at t' new) = (if root then 0 else node_parent (node_at t old))
           \<and> (root \<longrightarrow> get_node_type (node_at t' old) = NODE_INTERNAL
                      \<and> internal_node_num_keys (node_at t' old) = 1
                      \<and> children (node_at t' old) = [left, new]))"
proof (cases "is_node_root (node_at t (page_num cursor))")
  case True
  then have pg: "page_num cursor = 0"
    and room: "unat (num_pages (pager t)) + 2 \<le> TABLE_MAX_PAGES"
    using assms(6) by (simp_all add: split_context_def)
  have p: "0 < num_pages (pager t)" using assms(1) pg by simp
  have h: "get_node_type (node_at t 0) = NODE_LEAF" "is_node_root (node_at t 0)"
      "leaf_node_num_cells (node_at t 0) = 13" "cell_num cursor \<le> 13"
    using assms(3,4,5) True by (simp_all add: pg leaf_constants)
  from split_root_leaf_state [OF assms(2) pg p h room, of imax key val]
  show ?thesis using True by (simp add: pg leaf_constants Let_def)
next
  case False
  have c: "unat (num_pages (pager t)) < TABLE_MAX_PAGES"
      "node_parent (node_at t (page_num cursor)) < num_pages (pager t)"
      "get_node_type (node_at t (node_parent (node_at t (page_num cursor)))) = NODE_INTERNAL"
      "internal_node_num_keys (node_at t (node_parent (node_at t (page_num cursor)))) < imax"
      "unat (internal_node_num_keys
               (node_at t (node_parent (node_at t (page_num cursor))))) < 2 ^ 31"
      "internal_node_right_child
         (node_at t (node_parent (node_at t (page_num cursor)))) < num_pages (pager t)"
      "get_node_type (node_at t (internal_node_right_child
         (node_at t (node_parent (node_at t (page_num cursor)))))) = NODE_LEAF"
    using assms(6) False by (simp_all add: split_context_def Let_def)
  have h: "leaf_node_num_cells (node_at t (page_num cursor)) = 13" "cell_num cursor \<le> 13"
    using assms(4,5) by (simp_all add: leaf_constants)
  from split_child_leaf_state [OF assms(1,3) False h c, of key val]
  show ?thesis using False by (simp add: leaf_constants Let_def)
qed

theorem leaf_node_split_and_insert_distribution_witness:
  "page_num example_insert_cursor < num_pages (pager example_full_table)
   \<and> root_page_num example_full_table = 0
   \<and> get_node_type (node_at example_full_table (page_num example_insert_cursor)) = NODE_LEAF
   \<and> leaf_node_num_cells (node_at example_full_table (page_num example_insert_cursor))
        = LEAF_NODE_MAX_CELLS
   \<and> cell_num example_insert_cursor \<le> LEAF_NODE_MAX_CELLS
   \<and> split_context 3 example_full_table (page_num example_insert_cursor)
   \<and> (\<exists>t'. leaf_node_split_and_insert 3 example_insert_cursor 25 zero_row example_full_table
              = Some (Inr (), t')
         \<and> map fst (leaf_cells (node_at t' 2)) = [0, 10, 20, 25, 30, 40, 50]
         \<and> map fst (leaf_cells (node_at t' 1)) = [60, 70, 80, 90, 100, 110, 120]
         \<and> leaf_node_next_leaf (node_at t' 2) = 1
         \<and> leaf_node_next_leaf (node_at t' 1) = 0
         \<and> get_node_type (node_at t' 0) = NODE_INTERNAL
         \<and> children (node_at t' 0) = [2, 1])
   \<and> page_num example_child_cursor < num_pages (pager example_child_table)
   \<and> root_page_num example_child_table = 0
   \<and> get_node_type (node_at example_child_table (page_num example_child_cursor)) = NODE_LEAF
   \<and> leaf_node_num_cells (node_at example_child_table (page_num example_child_cursor))
        = LEAF_NODE_MAX_CELLS
   \<and> cell_num example_child_cursor \<le> LEAF_NODE_MAX_CELLS
   \<and> split_context 3 example_child_table (page_num example_child_cursor)
   \<and> (\<exists>t'. leaf_node_split_and_insert 3 example_child_cursor 25 zero_row example_child_table
              = Some (Inr (), t')
         \<and> map fst (leaf_cells (node_at t' 1)) = [0, 10, 20, 25, 30, 40, 50]
         \<and> map fst (leaf_cells (node_at t' 3)) = [60, 70, 80, 90, 100, 110, 120]
         \<and> leaf_node_next_leaf (node_at t' 1) = 3
         \<and> leaf_node_next_leaf (node_at t' 3) = 2
         \<and> node_parent (node_at t' 3) = 0)"
proof -
  have p: "page_num example_insert_cursor = 0" "cell_num example_insert_cursor = 3"
    by (simp_all add: example_insert_cursor_def)
  have a1: "page_num example_insert_cursor < num_pages (pager example_full_table)"
    by (simp add: p example_full_table_simps)
  have a2: "root_page_num example_full_table = 0" by (simp add: example_full_table_simps)
  have a3: "get_node_type (node_at example_full_table (page_num example_insert_cursor))
              = NODE_LEAF"
    by (simp add: p example_full_table_simps example_full_leaf_simps)
  have a4: "leaf_node_num_cells (node_at example_full_table (page_num example_insert_cursor))
              = LEAF_NODE_MAX_CELLS"
    by (simp add: p example_full_table_simps example_full_leaf_simps leaf_constants)
  have a5: "cell_num example_insert_cursor \<le> LEAF_NODE_MAX_CELLS"
    by (simp add: p leaf_constants)
  have a6: "split_context 3 example_full_table (page_num example_insert_cursor)"
    by (simp add: split_context_def p example_full_table_simps example_full_leaf_simps
          TABLE_MAX_PAGES_def)
  from leaf_node_split_and_insert_distribution [OF a1 a2 a3 a4 a5 a6, of 25 zero_row]
  obtain t' where t': "leaf_node_split_and_insert 3 example_insert_cursor 25 zero_row
        example_full_table = Some (Inr (), t')"
      "leaf_cells (node_at t' 2)
         = take 7 (insert_at 3 (25, zero_row) (leaf_cells example_full_leaf))"
      "leaf_cells (node_at t' 1)
         = drop 7 (insert_at 3 (25, zero_row) (leaf_cells example_full_leaf))"
      "leaf_node_next_leaf (node_at t' 2) = 1"
      "leaf_node_next_leaf (node_at t' 1) = 0"
      "get_node_type (node_at t' 0) = NODE_INTERNAL"
      "children (node_at t' 0) = [2, 1]"
    by (auto simp: p example_full_table_simps example_full_leaf_simps leaf_constants Let_def)
  have r: "\<exists>t'. leaf_node_split_and_insert 3 example_insert_cursor 25 zero_row
              example_full_table = Some (Inr (), t')
         \<and> map fst (leaf_cells (node_at t' 2)) = [0, 10, 20, 25, 30, 40, 50]
         \<and> map fst (leaf_cells (node_at t' 1)) = [60, 70, 80, 90, 100, 110, 120]
         \<and> leaf_node_next_leaf (node_at t' 2) = 1
         \<and> leaf_node_next_leaf (node_at t' 1) = 0
         \<and> get_node_type (node_at t' 0) = NODE_INTERNAL
         \<and> children (node_at t' 0) = [2, 1]"
    using t' example_merged by (intro exI [of _ t']) simp
  have q: "page_num example_child_cursor = 1" "cell_num example_child_cursor = 3"
    by (simp_all add: example_child_cursor_def)
  have b1: "page_num example_child_cursor < num_pages (pager example_child_table)"
    by (simp add: q example_child_table_simps)
  have b2: "root_page_num example_child_table = 0" by (simp add: example_child_table_simps)
  have b3: "get_node_type (node_at example_child_table (page_num example_child_cursor))
              = NODE_LEAF"
    by (simp add: q example_child_table_simps example_child_leaf_simps)
  have b4: "leaf_node_num_cells (node_at example_child_table (page_num example_child_cursor))
              = LEAF_NODE_MAX_CELLS"
    by (simp add: q example_child_table_simps example_child_leaf_simps leaf_constants)
  have b5: "cell_num example_child_cursor \<le> LEAF_NODE_MAX_CELLS"
    by (simp add: q leaf_constants)
  have b6: "split_context 3 example_child_table (page_num example_child_cursor)"
    by (simp add: split_context_def q example_child_table_simps example_child_leaf_simps
          example_small_parent_simps example_leaf1_simps TABLE_MAX_PAGES_def Let_def)
  from leaf_node_split_and_insert_distribution [OF b1 b2 b3 b4 b5 b6, of 25 zero_row]
  obtain u' where u': "leaf_node_split_and_insert 3 example_child_cursor 25 zero_row
        example_child_table = Some (Inr (), u')"
      "leaf_cells (node_at u' 1)
         = take 7 (insert_at 3 (25, zero_row) (leaf_cells example_full_leaf))"
      "leaf_cells (node_at u' 3)
         = drop 7 (insert_at 3 (25, zero_row) (leaf_cells example_full_leaf))"
      "leaf_node_next_leaf (node_at u' 1) = 3"
      "leaf_node_next_leaf (node_at u' 3) = 2"
      "node_parent (node_at u' 3) = 0"
    by (auto simp: q example_child_table_simps example_child_leaf_simps leaf_constants
          Let_def)
  have r2: "\<exists>t'. leaf_node_split_and_insert 3 example_child_cursor 25 zero_row
              example_child_table = Some (Inr (), t')
         \<and> map fst (leaf_cells (node_at t' 1)) = [0, 10, 20, 25, 30, 40, 50]
         \<and> map fst (leaf_cells (node_at t' 3)) = [60, 70, 80, 90, 100, 110, 120]
         \<and> leaf_node_next_leaf (node_at t' 1) = 3
         \<and> leaf_node_next_leaf (node_at t' 3) = 2
         \<and> node_parent (node_at t' 3) = 0"
    using u' example_merged by (intro exI [of _ u']) simp
  show ?thesis
    by (intro conjI a1 a2 a3 a4 a5 a6 r b1 b2 b3 b4 b5 b6 r2)
qed

text \<open>
  Claim C3 as stated (the function leaves the old node holding the first
  \<open>LEAF_NODE_LEFT_SPLIT_COUNT\<close> cells, with that cell count) fails for a leaf that is the
  root: the function returns, and the old page, page 0, is then an internal node whose
  count word is 1.
\<close>

theorem leaf_node_split_and_insert_root_counterexample:
  "map_option fst (leaf_node_split_and_insert 3 example_insert_cursor 25 zero_row
                     example_full_table) = Some (Inr ())
   \<and> page_num example_insert_cursor = 0
   \<and> get_node_type (node_at (table_after example_full_table
         (leaf_node_split_and_insert 3 example_insert_cursor 25 zero_row example_full_table))
         0) = NODE_INTERNAL
   \<and> leaf_node_num_cells (node_at (table_after example_full_table
         (leaf_node_split_and_insert 3 example_insert_cursor 25 zero_row example_full_table))
         0) = 1
   \<and> LEAF_NODE_LEFT_SPLIT_COUNT = 7"
proof -
  have p: "page_num example_insert_cursor = 0" "cell_num example_insert_cursor = 3"
    by (simp_all add: example_insert_cursor_def)
  have h: "root_page_num example_full_table = 0" "page_num example_insert_cursor = 0"
      "0 < num_pages (pager example_full_table)"
      "get_node_type (node_at example_full_table 0) = NODE_LEAF"
      "is_node_root (node_at example_full_table 0)"
      "leaf_node_num_cells (node_at example_full_table 0) = 13"
      "cell_num example_insert_cursor \<le> 13"
      "unat (num_pages (pager example_full_table)) + 2 \<le> TABLE_MAX_PAGES"
    by (simp_all add: p example_full_table_simps example_full_leaf_simps TABLE_MAX_PAGES_def)
  from split_root_leaf_state [OF h, of 3 25 zero_row]
  obtain t' where t': "leaf_node_split_and_insert 3 example_insert_cursor 25 zero_row
        example_full_table = Some (Inr (), t')"
      "get_node_type (node_at t' 0) = NODE_INTERNAL"
      "internal_node_num_keys (node_at t' 0) = 1" by blast
  have "leaf_node_num_cells (node_at t' 0) = 1"
    using t'(3) by (simp add: leaf_node_num_cells_def internal_node_num_keys_def)
  then show ?thesis using t' p by (simp add: table_after_def leaf_constants)
qed

subsection \<open>C9: the states that the operations reach\<close>

lemma insert_all_reachable:
  assumes "reachable imax t" and "insert_all imax ops t = Some (Inr (), t')"
  shows "reachable imax t'"
  using assms
proof (induction ops arbitrary: t)
  case Nil
  then show ?case by simp
next
  case (Cons op rest)
  obtain fresh k v where op: "op = (fresh, k, v)" by (cases op) auto
  from Cons.prems(2) obtain t1 where
    t1: "table_insert imax fresh k v t = Some (Inr (), t1)"
        "insert_all imax rest t1 = Some (Inr (), t')"
    by (auto simp: op split: option.splits sum.splits prod.splits)
  have "step imax t (\<not> isl (Inr () :: error + unit)) t1" using t1(1) by (rule step.insert)
  then have "step imax t True t1" by simp
  with Cons.prems(1) have "reachable imax t1" by (rule reachable.after_step)
  then show ?case using t1(2) by (rule Cons.IH)
qed

lemma example_tree_built:
  "insert_all 3 example_rows opened_table = Some (Inr (), example_tree)"
  "\<exists>cs. tree_inv example_tree cs \<and> set cs = snd ` set example_rows \<and> length cs = 14"
proof -
  have d: "distinct (map (\<lambda>op. fst (snd op)) example_rows)"
    by (simp add: example_rows_def)
  have l: "length example_rows \<le> 7 * min (unat (3 :: u32)) 98 + 7"
    by (simp add: example_rows_def)
  from insert_all_total [OF tree_inv_opened d, of 3] l
  obtain t cs where t: "insert_all 3 example_rows opened_table = Some (Inr (), t)"
    and cs: "tree_inv t cs" "set cs = snd ` set example_rows"
    by auto
  have et: "example_tree = t" by (simp add: example_tree_def table_after_def t)
  show "insert_all 3 example_rows opened_table = Some (Inr (), example_tree)"
    using t et by simp
  have "length cs = card (set cs)"
    using tree_inv_distinct [OF cs(1)] by (simp add: distinct_card)
  also have "\<dots> = 14" unfolding cs(2) by (simp add: example_rows_def)
  finally have "length cs = 14" .
  then show "\<exists>cs. tree_inv example_tree cs \<and> set cs = snd ` set example_rows \<and> length cs = 14"
    using cs et by blast
qed

lemma example_tree_reachable: "reachable 3 example_tree"
proof -
  have "reachable 3 opened_table" using db_open_new by (rule reachable.open_new)
  then show ?thesis using example_tree_built(1) by (rule insert_all_reachable)
qed

lemma example_tree_step:
  "step 3 example_tree True example_tree_next"
proof -
  from example_tree_built(2) obtain cs where cs: "tree_inv example_tree cs"
    "set cs = snd ` set example_rows" "length cs = 14" by blast
  have nin: "15 \<notin> fst ` set cs" unfolding cs(2) by (simp add: example_rows_def)
  from insert_step [OF cs(1) nin, of 3 example_cursor zero_row]
  obtain r t' where r: "table_insert 3 example_cursor 15 zero_row example_tree = Some (r, t')"
    "length cs < 7 * min (unat (3 :: u32)) 98 + 7 \<longrightarrow> r = Inr ()" by blast
  have ok: "r = Inr ()" using r(2) cs(3) by simp
  have "step 3 example_tree (\<not> isl r) t'" using r(1) by (rule step.insert)
  moreover have "example_tree_next = t'"
    by (simp add: example_tree_next_def table_after_def r(1))
  ultimately show ?thesis using ok by simp
qed

text \<open>
  Claim C9. In every reachable state the table's root page number is 0 and the root flag
  is set on page 0 and nowhere else; every operation keeps this, whatever its outcome, and
  it keeps an internal root internal (the type of the root only ever changes from leaf to
  internal).
\<close>

theorem reachable_single_root:
  assumes "reachable imax t"
  shows "root_page_num t = 0
       \<and> (\<forall>k. is_node_root (node_at t k) \<longleftrightarrow> k = 0)
       \<and> (\<forall>ok t'. step imax t ok t' \<longrightarrow>
             root_page_num t' = 0
             \<and> (\<forall>k. is_node_root (node_at t' k) \<longleftrightarrow> k = 0)
             \<and> (get_node_type (node_at t 0) = NODE_INTERNAL
                  \<longrightarrow> get_node_type (node_at t' 0) = NODE_INTERNAL))"
proof -
  have inv: "root_inv t" using assms by (rule reachable_root_inv)
  have "root_page_num t' = 0
             \<and> (\<forall>k. is_node_root (node_at t' k) \<longleftrightarrow> k = 0)
             \<and> (get_node_type (node_at t 0) = NODE_INTERNAL
                  \<longrightarrow> get_node_type (node_at t' 0) = NODE_INTERNAL)"
    if s: "step imax t ok t'" for ok t'
  proof -
    let ?T = "get_node_type (node_at t 0) = NODE_INTERNAL"
    have "root_inv_internal ?T t" using inv by (simp add: root_inv_internal_def)
    from rii_step [OF s this] show ?thesis
      by (simp add: root_inv_internal_def root_inv_def)
  qed
  then show ?thesis using inv by (simp add: root_inv_def)
qed

theorem reachable_single_root_witness:
  "reachable 3 opened_table
   \<and> get_node_type (node_at opened_table 0) = NODE_LEAF
   \<and> reachable 3 example_tree
   \<and> root_page_num example_tree = 0
   \<and> is_node_root (node_at example_tree 0)
   \<and> \<not> is_node_root (node_at example_tree 1)
   \<and> \<not> is_node_root (node_at example_tree 2)
   \<and> get_node_type (node_at example_tree 0) = NODE_INTERNAL
   \<and> step 3 example_tree True example_tree_next
   \<and> root_page_num example_tree_next = 0
   \<and> is_node_root (node_at example_tree_next 0)
   \<and> \<not> is_node_root (node_at example_tree_next 1)
   \<and> get_node_type (node_at example_tree_next 0) = NODE_INTERNAL"
proof -
  have r0: "reachable 3 opened_table" using db_open_new by (rule reachable.open_new)
  have l0: "get_node_type (node_at opened_table 0) = NODE_LEAF"
    by (simp add: opened_table_def node_at_def codec_defs)
  from example_tree_built(2) obtain cs where cs: "tree_inv example_tree cs" "length cs = 14"
    by blast
  have ty: "get_node_type (node_at example_tree 0) = NODE_INTERNAL"
    by (rule tree_inv_many_cells [OF cs(1)]) (simp add: cs(2))
  note w = reachable_single_root [OF example_tree_reachable]
  have a: "root_page_num example_tree = 0"
    "\<And>k. is_node_root (node_at example_tree k) \<longleftrightarrow> k = 0"
    using w by simp_all
  have b: "root_page_num example_tree_next = 0
             \<and> (\<forall>k. is_node_root (node_at example_tree_next k) \<longleftrightarrow> k = 0)
             \<and> (get_node_type (node_at example_tree 0) = NODE_INTERNAL
                  \<longrightarrow> get_node_type (node_at example_tree_next 0) = NODE_INTERNAL)"
    using w example_tree_step by blast
  show ?thesis
    using r0 l0 example_tree_reachable a b ty example_tree_step by simp
qed

end
